(* ===== verification/HME_Prelude.thy ===== *)
theory HME_Prelude
  imports Main "HOL-Library.Word" "HOL-Library.Monad_Syntax" "HOL-Library.Code_Target_Nat"
begin

text \<open>
  Shared vocabulary of the development.

  \<^item> machine integers: \<open>u8\<close>, \<open>u32\<close>, \<open>u64\<close> are fixed-width words, so that \<open>+\<close> and \<open>-\<close> wrap
    exactly as the unsigned types of the program do;
  \<^item> \<open>std::array\<close> accesses: \<open>arr_get\<close> and \<open>arr_set\<close> return \<open>None\<close> out of range.  Every
    definition that touches an array, or follows an intrusive link, lives in the option
    monad: \<open>None\<close> stands for undefined behaviour of the C++ code or for a loop that never
    ends, so a theorem that an operation returns \<open>Some\<close> excludes both;
  \<^item> \<open>field\<close>: the view of an array of records as one function per field, the form in which
    the linked-list lemmas are stated;
  \<^item> generic lemmas on lists, options and words shared by the components.
\<close>

unbundle bit_operations_syntax

type_synonym u8 = "8 word"
type_synonym u32 = "32 word"
type_synonym u64 = "64 word"

named_theorems arr_simps \<open>array accesses that are known to be in range\<close>
named_theorems model_defs \<open>definitions unfolded to evaluate the model\<close>

definition arr_get :: "'a list \<Rightarrow> nat \<Rightarrow> 'a option" where
  "arr_get xs i = (if i < length xs then Some (xs ! i) else None)"

definition arr_set :: "'a list \<Rightarrow> nat \<Rightarrow> 'a \<Rightarrow> 'a list option" where
  "arr_set xs i v = (if i < length xs then Some (xs[i := v]) else None)"

text \<open>A counted \<open>for\<close> loop in the option monad: the body runs over the given indices in order.\<close>

fun for_each :: "('i \<Rightarrow> 's \<Rightarrow> 's option) \<Rightarrow> 'i list \<Rightarrow> 's \<Rightarrow> 's option" where
  "for_each f [] s = Some s"
| "for_each f (i # is) s = do { s' \<leftarrow> f i s; for_each f is s' }"

definition field :: "('n \<Rightarrow> 'v) \<Rightarrow> 'n list \<Rightarrow> nat \<Rightarrow> 'v" where
  "field f S = (\<lambda>i. f (S ! i))"

lemma arr_get_Some [simp, arr_simps]: "i < length xs \<Longrightarrow> arr_get xs i = Some (xs ! i)"
  by (simp add: arr_get_def)

lemma arr_set_Some [simp, arr_simps]: "i < length xs \<Longrightarrow> arr_set xs i v = Some (xs[i := v])"
  by (simp add: arr_set_def)

lemma arr_set_eq_Some: "arr_set xs i v = Some ys \<longleftrightarrow> i < length xs \<and> ys = xs[i := v]"
  by (auto simp: arr_set_def)

lemma for_each_append:
  "for_each f (xs @ ys) s = do { s' \<leftarrow> for_each f xs s; for_each f ys s' }"
  by (induction xs arbitrary: s) (auto split: Option.bind_splits)

lemma field_apply [simp]: "field f S i = f (S ! i)"
  by (simp add: field_def)

lemma field_update: "k < length S \<Longrightarrow> field f (S[k := v]) = (field f S)(k := f v)"
  by (auto simp: field_def fun_eq_iff nth_list_update)

lemma field_update_same: "k < length S \<Longrightarrow> f v = f (S ! k) \<Longrightarrow> field f (S[k := v]) = field f S"
  by (auto simp: field_def fun_eq_iff nth_list_update)

lemma nth_update_cases: "xs[i := v] ! j = (if i = j \<and> i < length xs then v else xs ! j)"
  by (cases "i < length xs") (auto simp: nth_list_update list_update_beyond)

lemma sorted_wrt_eq:
  "(\<And>x y. x \<in> set xs \<Longrightarrow> y \<in> set xs \<Longrightarrow> P x y = Q x y) \<Longrightarrow> sorted_wrt P xs = sorted_wrt Q xs"
  by (induction xs) auto

lemma find_append: "find P (xs @ ys) = (case find P xs of None \<Rightarrow> find P ys | Some x \<Rightarrow> Some x)"
  by (induction xs) auto

lemma mod_add_neq:
  fixes a i j n :: nat
  assumes "i < j" "j < i + n" "0 < n"
  shows "(a + i) mod n \<noteq> (a + j) mod n"
proof
  assume "(a + i) mod n = (a + j) mod n"
  then have "n dvd (a + j) - (a + i)"
    using assms by (metis mod_eq_dvd_iff_nat nat_le_linear add_le_cancel_left less_imp_le)
  with assms show False by (auto dest: dvd_imp_le)
qed

end
