(* ===== verification/Wire_Protocol.thy ===== *)
theory Wire_Protocol
  imports HME_Prelude
begin

text \<open>
  The wire-protocol primitives of \<open>wire_protocol.hpp\<close>: the shared enums with their
  discriminator bytes, the fixed message layout and the field ranges.
\<close>

datatype Side = Buy | Sell

instantiation Side :: enum
begin

definition "enum_Side = [Buy, Sell]"

definition "enum_all_Side P \<longleftrightarrow> P Buy \<and> P Sell"

definition "enum_ex_Side P \<longleftrightarrow> P Buy \<or> P Sell"

instance
proof
  show "distinct (enum_class.enum :: Side list)" by (simp add: enum_Side_def)
  have U: "(UNIV :: Side set) = {Buy, Sell}" by (auto intro: Side.exhaust)
  show "UNIV = set (enum_class.enum :: Side list)" using U by (simp add: enum_Side_def)
  show "enum_class.enum_all P = Ball UNIV P" for P :: "Side \<Rightarrow> bool" unfolding U by (simp add: enum_all_Side_def)
  show "enum_class.enum_ex P = Bex UNIV P" for P :: "Side \<Rightarrow> bool" unfolding U by (simp add: enum_ex_Side_def)
qed

end

definition side_as_byte :: "Side \<Rightarrow> u8" where
  "side_as_byte s = (case s of Buy \<Rightarrow> 0 | Sell \<Rightarrow> 1)"

definition side_from_byte :: "u8 \<Rightarrow> Side option" where
  "side_from_byte b = (if b = 0 then Some Buy else if b = 1 then Some Sell else None)"

datatype AckKind = Accepted | Cancelled

definition ack_kind_as_byte :: "AckKind \<Rightarrow> u8" where
  "ack_kind_as_byte k = (case k of Accepted \<Rightarrow> 0 | Cancelled \<Rightarrow> 1)"

definition ack_kind_from_byte :: "u8 \<Rightarrow> AckKind option" where
  "ack_kind_from_byte b =
     (if b = 0 then Some Accepted else if b = 1 then Some Cancelled else None)"

datatype RejectReason =
  InvalidPrice | InvalidQuantity | OrderNotFound | NoLongerResting | IntegrityViolation

definition reject_reason_as_byte :: "RejectReason \<Rightarrow> u8" where
  "reject_reason_as_byte r =
     (case r of InvalidPrice \<Rightarrow> 0 | InvalidQuantity \<Rightarrow> 1 | OrderNotFound \<Rightarrow> 2
              | NoLongerResting \<Rightarrow> 3 | IntegrityViolation \<Rightarrow> 4)"

definition reject_reason_from_byte :: "u8 \<Rightarrow> RejectReason option" where
  "reject_reason_from_byte b =
     (if b = 0 then Some InvalidPrice else if b = 1 then Some InvalidQuantity
      else if b = 2 then Some OrderNotFound else if b = 3 then Some NoLongerResting
      else if b = 4 then Some IntegrityViolation else None)"

text \<open>The discriminator of \<open>wire::MessageType\<close>; its names clash with the message structs.\<close>

datatype MessageType = MT_NewOrder | MT_CancelOrder | MT_Trade | MT_Ack | MT_Reject

definition message_type_as_byte :: "MessageType \<Rightarrow> u8" where
  "message_type_as_byte t =
     (case t of MT_NewOrder \<Rightarrow> 0 | MT_CancelOrder \<Rightarrow> 1 | MT_Trade \<Rightarrow> 2 | MT_Ack \<Rightarrow> 3 | MT_Reject \<Rightarrow> 4)"

definition message_type_from_byte :: "u8 \<Rightarrow> MessageType option" where
  "message_type_from_byte b =
     (if b = 0 then Some MT_NewOrder else if b = 1 then Some MT_CancelOrder
      else if b = 2 then Some MT_Trade else if b = 3 then Some MT_Ack
      else if b = 4 then Some MT_Reject else None)"

definition kMessageTypeBytes :: nat where "kMessageTypeBytes = 1"
definition kOrderIdBytes :: nat where "kOrderIdBytes = 8"
definition kSideBytes :: nat where "kSideBytes = 1"
definition kPriceTicksBytes :: nat where "kPriceTicksBytes = 8"
definition kQuantityBytes :: nat where "kQuantityBytes = 4"
definition kSeqBytes :: nat where "kSeqBytes = 8"
definition kExecSeqBytes :: nat where "kExecSeqBytes = 8"
definition kAckKindBytes :: nat where "kAckKindBytes = 1"
definition kRejectReasonBytes :: nat where "kRejectReasonBytes = 1"

definition kNewOrderLen :: nat where
  "kNewOrderLen = kMessageTypeBytes + kOrderIdBytes + kSideBytes + kPriceTicksBytes
     + kQuantityBytes + kSeqBytes"

definition kCancelOrderLen :: nat where
  "kCancelOrderLen = kMessageTypeBytes + kOrderIdBytes"

definition kTradeLen :: nat where
  "kTradeLen = kMessageTypeBytes + kExecSeqBytes + kPriceTicksBytes + kQuantityBytes
     + kOrderIdBytes + kOrderIdBytes"

definition kAckLen :: nat where
  "kAckLen = kMessageTypeBytes + kOrderIdBytes + kAckKindBytes"

definition kRejectLen :: nat where
  "kRejectLen = kMessageTypeBytes + kOrderIdBytes + kRejectReasonBytes"

definition kMaxMessageLen :: nat where "kMaxMessageLen = kTradeLen"

definition message_len :: "MessageType \<Rightarrow> nat option" where
  "message_len t =
     (case t of MT_NewOrder \<Rightarrow> Some kNewOrderLen | MT_CancelOrder \<Rightarrow> Some kCancelOrderLen
              | MT_Trade \<Rightarrow> Some kTradeLen | MT_Ack \<Rightarrow> Some kAckLen | MT_Reject \<Rightarrow> Some kRejectLen)"

definition kMinPriceTicks :: u64 where "kMinPriceTicks = 1"
definition kMaxPriceTicks :: u64 where "kMaxPriceTicks = 99999999999"
definition kMinGatewayQuantity :: u32 where "kMinGatewayQuantity = 1"
definition kMaxGatewayQuantity :: u32 where "kMaxGatewayQuantity = 1000000000"
definition kMinEngineQuantity :: u32 where "kMinEngineQuantity = 1"
definition kMaxEngineQuantity :: u32 where "kMaxEngineQuantity = 1000000"

lemmas wire_width_defs =
  kMessageTypeBytes_def kOrderIdBytes_def kSideBytes_def kPriceTicksBytes_def kQuantityBytes_def
  kSeqBytes_def kExecSeqBytes_def kAckKindBytes_def kRejectReasonBytes_def

lemma wire_lengths:
  "kNewOrderLen = 30" "kCancelOrderLen = 9" "kTradeLen = 37" "kAckLen = 10" "kRejectLen = 10"
  "kMaxMessageLen = 37"
  by (simp_all add: wire_width_defs kNewOrderLen_def kCancelOrderLen_def kTradeLen_def kAckLen_def
      kRejectLen_def kMaxMessageLen_def)

lemmas limit_defs = kMinPriceTicks_def kMaxPriceTicks_def kMinGatewayQuantity_def
  kMaxGatewayQuantity_def kMinEngineQuantity_def kMaxEngineQuantity_def

declare wire_width_defs [model_defs] wire_lengths [model_defs] limit_defs [model_defs]
  message_len_def [model_defs]

text \<open>Discriminator bytes: parsing inverts printing, and only printed bytes parse.\<close>

lemma side_byte_inverse [simp]: "side_from_byte (side_as_byte s) = Some s"
  by (cases s) (simp_all add: side_as_byte_def side_from_byte_def)

lemma side_from_byte_Some: "side_from_byte b = Some s \<Longrightarrow> side_as_byte s = b"
  by (auto simp: side_as_byte_def side_from_byte_def split: if_splits)

lemma ack_kind_byte_inverse [simp]: "ack_kind_from_byte (ack_kind_as_byte k) = Some k"
  by (cases k) (simp_all add: ack_kind_as_byte_def ack_kind_from_byte_def)

lemma ack_kind_from_byte_Some: "ack_kind_from_byte b = Some k \<Longrightarrow> ack_kind_as_byte k = b"
  by (auto simp: ack_kind_as_byte_def ack_kind_from_byte_def split: if_splits)

lemma reject_reason_byte_inverse [simp]: "reject_reason_from_byte (reject_reason_as_byte r) = Some r"
  by (cases r) (simp_all add: reject_reason_as_byte_def reject_reason_from_byte_def)

lemma reject_reason_from_byte_Some:
  "reject_reason_from_byte b = Some r \<Longrightarrow> reject_reason_as_byte r = b"
  by (auto simp: reject_reason_as_byte_def reject_reason_from_byte_def split: if_splits)

lemma message_type_byte_inverse [simp]: "message_type_from_byte (message_type_as_byte t) = Some t"
  by (cases t) (simp_all add: message_type_as_byte_def message_type_from_byte_def)

lemma message_type_from_byte_Some:
  "message_type_from_byte b = Some t \<Longrightarrow> message_type_as_byte t = b"
  by (auto simp: message_type_as_byte_def message_type_from_byte_def split: if_splits)

lemma message_len_bounds: "message_len t = Some n \<Longrightarrow> 0 < n \<and> n \<le> kMaxMessageLen"
  by (auto simp: message_len_def wire_lengths split: MessageType.splits)

end
