(* ===== verification/Binary_Message.thy ===== *)
theory Binary_Message
  imports Wire_Protocol
begin

text \<open>
  The message structs of \<open>binary_message.hpp\<close> (one record per struct, the \<open>std::variant\<close> as a
  datatype over them), the typed codec error and the result type \<open>CodecResult\<close>.
\<close>

record NewOrder =
  no_order_id :: u64
  no_side :: Side
  no_price_ticks :: u64
  no_quantity :: u32
  no_seq :: u64

record CancelOrder =
  co_order_id :: u64

record Trade =
  tr_exec_seq :: u64
  tr_price_ticks :: u64
  tr_quantity :: u32
  tr_incoming_id :: u64
  tr_resting_id :: u64

record Ack =
  ack_order_id :: u64
  ack_kind :: AckKind

record Reject =
  rej_order_id :: u64
  rej_reason :: RejectReason

datatype BinaryMessage =
    BM_NewOrder NewOrder
  | BM_CancelOrder CancelOrder
  | BM_Trade Trade
  | BM_Ack Ack
  | BM_Reject Reject

text \<open>\<open>std::variant::index\<close>, and the cast of the index to the enumeration.\<close>

definition variant_index :: "BinaryMessage \<Rightarrow> nat" where
  "variant_index msg = (case msg of BM_NewOrder _ \<Rightarrow> 0 | BM_CancelOrder _ \<Rightarrow> 1 | BM_Trade _ \<Rightarrow> 2 | BM_Ack _ \<Rightarrow> 3 | BM_Reject _ \<Rightarrow> 4)"

definition message_type_of :: "BinaryMessage \<Rightarrow> MessageType" where
  "message_type_of msg = [MT_NewOrder, MT_CancelOrder, MT_Trade, MT_Ack, MT_Reject] ! variant_index msg"

definition encoded_len_of :: "BinaryMessage \<Rightarrow> nat" where
  "encoded_len_of msg =
     (case msg of BM_NewOrder _ \<Rightarrow> kNewOrderLen | BM_CancelOrder _ \<Rightarrow> kCancelOrderLen
                | BM_Trade _ \<Rightarrow> kTradeLen | BM_Ack _ \<Rightarrow> kAckLen | BM_Reject _ \<Rightarrow> kRejectLen)"

text \<open>The compile-time assertions of \<open>codec.cpp\<close>.\<close>

definition layout_asserts :: "NewOrder \<Rightarrow> CancelOrder \<Rightarrow> Trade \<Rightarrow> Ack \<Rightarrow> Reject \<Rightarrow> bool" where
  "layout_asserts n c t a r \<longleftrightarrow>
     kNewOrderLen = 30 \<and> kCancelOrderLen = 9 \<and> kTradeLen = 37 \<and> kAckLen = 10 \<and> kRejectLen = 10 \<and> kMaxMessageLen = kTradeLen
     \<and> variant_index (BM_NewOrder n) = 0 \<and> variant_index (BM_CancelOrder c) = 1 \<and> variant_index (BM_Trade t) = 2
     \<and> variant_index (BM_Ack a) = 3 \<and> variant_index (BM_Reject r) = 4
     \<and> message_type_of (BM_NewOrder n) = MT_NewOrder \<and> message_type_of (BM_CancelOrder c) = MT_CancelOrder
     \<and> message_type_of (BM_Trade t) = MT_Trade \<and> message_type_of (BM_Ack a) = MT_Ack \<and> message_type_of (BM_Reject r) = MT_Reject
     \<and> encoded_len_of (BM_NewOrder n) = kNewOrderLen \<and> encoded_len_of (BM_CancelOrder c) = kCancelOrderLen
     \<and> encoded_len_of (BM_Trade t) = kTradeLen \<and> encoded_len_of (BM_Ack a) = kAckLen \<and> encoded_len_of (BM_Reject r) = kRejectLen"

lemma message_type_of_eq:
  "message_type_of msg = (case msg of BM_NewOrder _ \<Rightarrow> MT_NewOrder | BM_CancelOrder _ \<Rightarrow> MT_CancelOrder
     | BM_Trade _ \<Rightarrow> MT_Trade | BM_Ack _ \<Rightarrow> MT_Ack | BM_Reject _ \<Rightarrow> MT_Reject)"
  by (cases msg) (simp_all add: message_type_of_def variant_index_def)

text \<open>They hold, and not only for the default messages they are stated for: the build succeeds.\<close>

lemma layout_asserts_hold: "layout_asserts n c t a r"
  by (simp add: layout_asserts_def wire_lengths variant_index_def message_type_of_eq encoded_len_of_def kMaxMessageLen_def)

datatype CodecErrorKind = UnknownType | InsufficientLength | ExcessTrailingBytes | FieldOutOfRange

text \<open>The \<open>const char*\<close> field name is an optional string, \<open>None\<close> for \<open>nullptr\<close>.\<close>

record CodecError =
  ce_kind :: CodecErrorKind
  ce_unknown_type :: u8
  ce_field :: "string option"

definition unknown_type_error :: "u8 \<Rightarrow> CodecError" where
  "unknown_type_error b = \<lparr>ce_kind = UnknownType, ce_unknown_type = b, ce_field = None\<rparr>"

definition insufficient_length :: CodecError where
  "insufficient_length = \<lparr>ce_kind = InsufficientLength, ce_unknown_type = 0, ce_field = None\<rparr>"

definition excess_trailing_bytes :: CodecError where
  "excess_trailing_bytes = \<lparr>ce_kind = ExcessTrailingBytes, ce_unknown_type = 0, ce_field = None\<rparr>"

definition field_out_of_range :: "string \<Rightarrow> CodecError" where
  "field_out_of_range f = \<lparr>ce_kind = FieldOutOfRange, ce_unknown_type = 0, ce_field = Some f\<rparr>"

type_synonym 'a CodecResult = "CodecError + 'a"

lemma message_len_of_type: "message_len (message_type_of m) = Some (encoded_len_of m)"
  by (cases m) (simp_all add: message_len_def message_type_of_eq encoded_len_of_def)

lemma encoded_len_bounds: "0 < encoded_len_of m" "encoded_len_of m \<le> kMaxMessageLen"
  using message_len_bounds [OF message_len_of_type] by auto

end
