(* ===== verification/Pool.thy ===== *)
theory Pool
  imports HME_Prelude
begin

text \<open>
  \<open>FreeListPool\<close> of \<open>order_book.hpp\<close>: a fixed array of slots and a singly-linked free list
  threaded through a parallel index array.  Node handles are 32-bit slot indices with the
  all-ones value as null; the code only copies and compares them, so they are natural numbers
  here.  \<open>in_use\<close> is a \<open>size_t\<close> and kept at its width: its decrement is unguarded in the code.

  \<open>pool_ok p used\<close> is the representation invariant: the free list is acyclic and holds exactly
  the slots outside \<open>used\<close>.  The locale \<open>slot_allocator\<close> is what the order book relies on.
\<close>

type_synonym NodeIndex = nat

definition kNullNode :: NodeIndex where "kNullNode = 4294967295"

record 'a FreeListPool =
  slots :: "'a list"
  next_free :: "NodeIndex list"
  free_head :: NodeIndex
  in_use :: u64

definition pool_capacity :: "'a FreeListPool \<Rightarrow> nat" where
  "pool_capacity p = length (slots p)"

definition pool_size :: "'a FreeListPool \<Rightarrow> u64" where
  "pool_size p = in_use p"

definition pool_empty :: "'a FreeListPool \<Rightarrow> bool" where
  "pool_empty p \<longleftrightarrow> in_use p = 0"

definition pool_full :: "'a FreeListPool \<Rightarrow> bool" where
  "pool_full p \<longleftrightarrow> in_use p = of_nat (pool_capacity p)"

definition pool_acquire :: "'a FreeListPool \<Rightarrow> (NodeIndex \<times> 'a FreeListPool) option" where
  "pool_acquire p =
     (if free_head p = kNullNode then Some (kNullNode, p)
      else do {
        nf \<leftarrow> arr_get (next_free p) (free_head p);
        Some (free_head p, p\<lparr>free_head := nf, in_use := in_use p + 1\<rparr>)
      })"

definition pool_release :: "NodeIndex \<Rightarrow> 'a FreeListPool \<Rightarrow> 'a FreeListPool option" where
  "pool_release i p = do {
     nf \<leftarrow> arr_set (next_free p) i (free_head p);
     Some (p\<lparr>next_free := nf, free_head := i, in_use := in_use p - 1\<rparr>)
   }"

definition pool_reset :: "'a FreeListPool \<Rightarrow> 'a FreeListPool" where
  "pool_reset p = p\<lparr>
     next_free := map (\<lambda>i. if i + 1 = pool_capacity p then kNullNode else i + 1) [0..<pool_capacity p],
     free_head := 0,
     in_use := 0\<rparr>"

definition pool_get :: "'a FreeListPool \<Rightarrow> NodeIndex \<Rightarrow> 'a option" where
  "pool_get p i = arr_get (slots p) i"

text \<open>Assignment through the reference that \<open>operator[]\<close> returns.\<close>

definition pool_modify :: "NodeIndex \<Rightarrow> ('a \<Rightarrow> 'a) \<Rightarrow> 'a FreeListPool \<Rightarrow> 'a FreeListPool option" where
  "pool_modify i f p = do {
     x \<leftarrow> arr_get (slots p) i;
     xs \<leftarrow> arr_set (slots p) i (f x);
     Some (p\<lparr>slots := xs\<rparr>)
   }"

definition pool_new :: "'a \<Rightarrow> nat \<Rightarrow> 'a FreeListPool" where
  "pool_new d n = pool_reset
     \<lparr>slots = replicate n d, next_free = replicate n 0, free_head = kNullNode, in_use = 0\<rparr>"

fun free_chain :: "NodeIndex list \<Rightarrow> NodeIndex \<Rightarrow> NodeIndex list \<Rightarrow> bool" where
  "free_chain nf h [] \<longleftrightarrow> h = kNullNode"
| "free_chain nf h (x # xs) \<longleftrightarrow> h = x \<and> x < length nf \<and> free_chain nf (nf ! x) xs"

definition pool_ok :: "'a FreeListPool \<Rightarrow> nat set \<Rightarrow> bool" where
  "pool_ok p used \<longleftrightarrow>
     0 < pool_capacity p \<and> pool_capacity p \<le> kNullNode
     \<and> length (next_free p) = pool_capacity p
     \<and> in_use p = of_nat (card used)
     \<and> used \<subseteq> {..<pool_capacity p}
     \<and> (\<exists>fs. free_chain (next_free p) (free_head p) fs \<and> distinct fs
           \<and> set fs = {..<pool_capacity p} - used)"

locale slot_allocator =
  fixes ok :: "'p \<Rightarrow> nat set \<Rightarrow> bool"
    and cap :: "'p \<Rightarrow> nat"
    and full :: "'p \<Rightarrow> bool"
    and acquire :: "'p \<Rightarrow> (nat \<times> 'p) option"
    and release :: "nat \<Rightarrow> 'p \<Rightarrow> 'p option"
    and null :: nat
    and contents :: "'p \<Rightarrow> 'a list"
  assumes used_bounded: "ok p U \<Longrightarrow> U \<subseteq> {..<cap p}"
    and cap_contents: "ok p U \<Longrightarrow> length (contents p) = cap p"
    and null_outside: "ok p U \<Longrightarrow> cap p \<le> null"
    and full_iff: "ok p U \<Longrightarrow> full p \<longleftrightarrow> card U = cap p"
    and acquire_full: "ok p U \<Longrightarrow> full p \<Longrightarrow> acquire p = Some (null, p)"
    and acquire_fresh: "ok p U \<Longrightarrow> \<not> full p \<Longrightarrow>
      \<exists>i p'. acquire p = Some (i, p') \<and> i < cap p \<and> i \<notin> U \<and> ok p' (insert i U)
        \<and> contents p' = contents p"
    and release_used: "ok p U \<Longrightarrow> i \<in> U \<Longrightarrow>
      \<exists>p'. release i p = Some p' \<and> ok p' (U - {i}) \<and> contents p' = contents p"
begin

lemma used_finite: "ok p U \<Longrightarrow> finite U"
  using used_bounded finite_subset by blast

lemma used_card: "ok p U \<Longrightarrow> card U \<le> cap p"
  using used_bounded card_mono [of "{..<cap p}" U] by fastforce

text \<open>A slot handed out is never the null handle, so it can be linked.\<close>

lemma used_not_null: "ok p U \<Longrightarrow> i \<in> U \<Longrightarrow> i < length (contents p) \<and> i \<noteq> null"
  using used_bounded [of p U] null_outside [of p U] cap_contents [of p U] by auto

text \<open>Acquire then release returns to the same set of live slots.\<close>

lemma acquire_release:
  assumes "ok p U" "\<not> full p"
  shows "\<exists>i p' p''. acquire p = Some (i, p') \<and> release i p' = Some p'' \<and> ok p'' U
    \<and> contents p'' = contents p"
proof -
  from acquire_fresh [OF assms] obtain i p' where
    a: "acquire p = Some (i, p')" "i \<notin> U" "ok p' (insert i U)" "contents p' = contents p" by auto
  from release_used [OF a(3), of i] obtain p'' where
    "release i p' = Some p''" "ok p'' (insert i U - {i})" "contents p'' = contents p'" by auto
  with a show ?thesis by auto
qed

end

lemma pool_get_in [simp, arr_simps]: "i < length (slots p) \<Longrightarrow> pool_get p i = Some (slots p ! i)"
  by (simp add: pool_get_def)

lemma pool_modify_in [simp, arr_simps]:
  "i < length (slots p) \<Longrightarrow> pool_modify i f p = Some (p\<lparr>slots := (slots p)[i := f (slots p ! i)]\<rparr>)"
  by (simp add: pool_modify_def)

text \<open>The invariant does not read the slot contents.\<close>

lemma pool_ok_slots [simp]: "length xs = length (slots p) \<Longrightarrow> pool_ok (p\<lparr>slots := xs\<rparr>) U = pool_ok p U"
  by (simp add: pool_ok_def pool_capacity_def)

lemma free_chain_update: "x \<notin> set xs \<Longrightarrow> free_chain (nf[x := v]) h xs = free_chain nf h xs"
  by (induction xs arbitrary: h) auto

lemma pool_full_iff:
  assumes "pool_ok p U"
  shows "pool_full p \<longleftrightarrow> card U = pool_capacity p"
proof -
  have "card U \<le> pool_capacity p"
    using assms card_mono [of "{..<pool_capacity p}" U] by (auto simp: pool_ok_def)
  moreover have "pool_capacity p < 2 ^ 64" using assms by (simp add: pool_ok_def kNullNode_def)
  ultimately show ?thesis
    using assms by (auto simp: pool_full_def pool_ok_def word_of_nat_eq_iff take_bit_nat_eq_self)
qed

lemma pool_acquire_full:
  assumes "pool_ok p U" "pool_full p"
  shows "pool_acquire p = Some (kNullNode, p)"
proof -
  from assms have "card U = card {..<pool_capacity p}" by (simp add: pool_full_iff)
  then have "U = {..<pool_capacity p}" using assms by (intro card_subset_eq) (auto simp: pool_ok_def)
  with assms obtain fs where "free_chain (next_free p) (free_head p) fs" "set fs = {}"
    by (auto simp: pool_ok_def)
  then show ?thesis by (simp add: pool_acquire_def)
qed

lemma pool_acquire_fresh:
  assumes "pool_ok p U" "\<not> pool_full p"
  shows "\<exists>i p'. pool_acquire p = Some (i, p') \<and> i < pool_capacity p \<and> i \<notin> U
    \<and> pool_ok p' (insert i U) \<and> slots p' = slots p"
proof -
  from assms obtain fs where fs: "free_chain (next_free p) (free_head p) fs" "distinct fs"
    "set fs = {..<pool_capacity p} - U" by (auto simp: pool_ok_def)
  have "fs \<noteq> []"
    using fs assms by (auto simp: pool_ok_def pool_full_iff [OF assms(1)] dest: equalityI [of U])
  then obtain i js where i: "fs = i # js" by (cases fs) auto
  let ?p = "p\<lparr>free_head := next_free p ! i, in_use := in_use p + 1\<rparr>"
  have bnd: "i < pool_capacity p" "i \<notin> U" "i \<noteq> kNullNode"
    using fs i assms by (auto simp: pool_ok_def)
  have fin: "finite U" using assms by (auto simp: pool_ok_def intro: finite_subset)
  have "free_chain (next_free p) (next_free p ! i) js" "distinct js"
    "set js = {..<pool_capacity p} - insert i U"
    using fs i by auto
  then have "pool_ok ?p (insert i U)"
    using assms(1) bnd fin by (auto simp: pool_ok_def pool_capacity_def)
  moreover have "pool_acquire p = Some (i, ?p)"
    using fs i bnd assms by (simp add: pool_acquire_def pool_ok_def)
  ultimately show ?thesis using bnd by auto
qed

lemma pool_release_used:
  assumes "pool_ok p U" "i \<in> U"
  shows "\<exists>p'. pool_release i p = Some p' \<and> pool_ok p' (U - {i}) \<and> slots p' = slots p"
proof -
  from assms obtain fs where fs: "free_chain (next_free p) (free_head p) fs" "distinct fs"
    "set fs = {..<pool_capacity p} - U" by (auto simp: pool_ok_def)
  let ?p = "p\<lparr>next_free := (next_free p)[i := free_head p], free_head := i, in_use := in_use p - 1\<rparr>"
  have i: "i < pool_capacity p" "i \<notin> set fs" using assms fs by (auto simp: pool_ok_def)
  have fin: "finite U" using assms by (auto simp: pool_ok_def intro: finite_subset)
  then have "0 < card U" using assms card_gt_0_iff by blast
  then have "of_nat (card U) - 1 = (of_nat (card (U - {i})) :: u64)"
    using assms fin by (simp add: card_Diff_singleton)
  moreover have "free_chain (next_free ?p) i (i # fs)"
    using fs i assms by (simp add: free_chain_update pool_ok_def)
  moreover have "distinct (i # fs)" "set (i # fs) = {..<pool_capacity p} - (U - {i})"
    using fs i by auto
  ultimately have "pool_ok ?p (U - {i})"
    using assms(1) by (auto simp: pool_ok_def pool_capacity_def simp del: free_chain.simps)
  moreover have "pool_release i p = Some ?p"
    using i assms by (simp add: pool_release_def pool_ok_def)
  ultimately show ?thesis by auto
qed

interpretation pool: slot_allocator pool_ok pool_capacity pool_full pool_acquire pool_release
  kNullNode slots
  by unfold_locales
    (auto simp: pool_full_iff pool_acquire_full pool_acquire_fresh pool_release_used,
     auto simp: pool_ok_def pool_capacity_def)

lemma reset_chain:
  "k \<le> n \<Longrightarrow> free_chain (map (\<lambda>i. if i + 1 = n then kNullNode else i + 1) [0..<n])
     (if k = n then kNullNode else k) [k..<n]"
proof (induction "n - k" arbitrary: k)
  case 0
  then show ?case by simp
next
  case (Suc d)
  then have k: "k < n" "[k..<n] = k # [Suc k..<n]" "d = n - Suc k" by (auto simp: upt_rec)
  with Suc(1) [of "Suc k"] show ?case by auto
qed

lemma pool_reset_ok:
  assumes "0 < pool_capacity p" "pool_capacity p \<le> kNullNode"
  shows "pool_ok (pool_reset p) {}" "slots (pool_reset p) = slots p"
proof -
  have "\<exists>fs. free_chain (next_free (pool_reset p)) 0 fs \<and> distinct fs \<and> set fs = {..<pool_capacity p}"
    using reset_chain [of 0 "pool_capacity p"] assms
    by (intro exI [of _ "[0..<pool_capacity p]"]) (auto simp: pool_reset_def)
  then show "pool_ok (pool_reset p) {}"
    using assms by (simp add: pool_ok_def pool_reset_def pool_capacity_def)
qed (simp add: pool_reset_def)

end
