(* ===== verification/Linked_List.thy ===== *)
theory Linked_List
  imports HME_Prelude
begin

text \<open>
  Intrusive doubly-linked lists, stated over the two link fields viewed as functions from slot
  indices.  \<open>dseg N P p h as l n\<close>: following \<open>N\<close> from \<open>h\<close> visits exactly \<open>as\<close> and then \<open>n\<close>, the
  \<open>P\<close> links run backwards with \<open>p\<close> before the first node, and \<open>l\<close> is the last node.  The order
  book uses it twice: for the levels of a side and for the orders of a level.
\<close>

fun dseg :: "(nat \<Rightarrow> nat) \<Rightarrow> (nat \<Rightarrow> nat) \<Rightarrow> nat \<Rightarrow> nat \<Rightarrow> nat list \<Rightarrow> nat \<Rightarrow> nat \<Rightarrow> bool" where
  "dseg N P p h [] l n \<longleftrightarrow> h = n \<and> l = p"
| "dseg N P p h (a # as) l n \<longleftrightarrow> h = a \<and> P a = p \<and> dseg N P a (N a) as l n"

lemma dseg_append:
  "dseg N P p h (as @ bs) l n \<longleftrightarrow> (\<exists>m k. dseg N P p h as m k \<and> dseg N P m k bs l n)"
  by (induction as arbitrary: p h) auto

lemma dseg_cong:
  "(\<And>a. a \<in> set as \<Longrightarrow> N a = N' a \<and> P a = P' a) \<Longrightarrow> dseg N P p h as l n = dseg N' P' p h as l n"
  by (induction as arbitrary: p h) auto

lemma dseg_frame_next: "x \<notin> set as \<Longrightarrow> dseg (N(x := v)) P p h as l n = dseg N P p h as l n"
  by (rule dseg_cong) auto

lemma dseg_frame_prev: "x \<notin> set as \<Longrightarrow> dseg N (P(x := v)) p h as l n = dseg N P p h as l n"
  by (rule dseg_cong) auto

lemma dseg_first: "dseg N P p h as l n \<Longrightarrow> h = (if as = [] then n else hd as)"
  by (cases as) auto

lemma dseg_last: "dseg N P p h as l n \<Longrightarrow> l = (if as = [] then p else last as)"
  by (induction as arbitrary: p h) auto

lemma dseg_set_next_of_last:
  "dseg N P p h as l n \<Longrightarrow> as \<noteq> [] \<Longrightarrow> distinct as \<Longrightarrow> dseg (N(l := n')) P p h as l n'"
proof (induction as arbitrary: p h)
  case (Cons a as)
  show ?case
  proof (cases "as = []")
    case False
    with Cons have "l \<in> set as" by (auto dest!: dseg_last)
    with Cons False show ?thesis by auto
  qed (use Cons in auto)
qed simp

lemma dseg_set_prev_of_first:
  "dseg N P p h as l n \<Longrightarrow> as \<noteq> [] \<Longrightarrow> distinct as \<Longrightarrow> dseg N (P(h := p')) p' h as l n"
  by (cases as) (auto simp: dseg_frame_prev)

text \<open>Splicing a fresh node \<open>x\<close> in between \<open>m\<close> and \<open>k\<close>.\<close>

lemma dseg_insert:
  assumes "dseg N P z h as m k" "dseg N P m k bs t z"
    and "distinct (as @ bs)" "x \<notin> set (as @ bs)"
    and "N' = (if as = [] then N else N(m := x))(x := k)"
    and "P' = (if bs = [] then P else P(k := x))(x := m)"
  shows "dseg N' P' z (if as = [] then x else h) (as @ x # bs) (if bs = [] then x else t) z"
proof -
  have "dseg N' P' z (if as = [] then x else h) as m x"
  proof (cases "as = []")
    case True
    with assms show ?thesis by auto
  next
    case False
    have "dseg (N(m := x)) P z h as m x"
      using assms(1,3) False by (intro dseg_set_next_of_last) auto
    moreover have "k \<notin> set as" if "bs \<noteq> []"
      using assms(2,3) that by (auto dest: dseg_first)
    ultimately show ?thesis
      using assms False by (simp add: dseg_frame_next dseg_frame_prev)
  qed
  moreover have "dseg N' P' x k bs (if bs = [] then x else t) z"
  proof (cases "bs = []")
    case True
    with assms show ?thesis by auto
  next
    case False
    have "dseg N (P(k := x)) x k bs t z"
      using assms(2,3) False by (intro dseg_set_prev_of_first) auto
    moreover have "m \<notin> set bs" if "as \<noteq> []"
      using assms(1,3) that by (auto simp: disjoint_iff dest!: dseg_last)
    ultimately show ?thesis
      using assms False by (simp add: dseg_frame_next dseg_frame_prev)
  qed
  moreover have "P' x = m" "N' x = k" using assms by auto
  ultimately show ?thesis unfolding dseg_append by auto
qed

text \<open>Splicing a node out.\<close>

lemma dseg_remove:
  assumes "dseg N P z h (as @ x # bs) t z" "distinct (as @ x # bs)"
    and "N' = (if as = [] then N else N(P x := N x))"
    and "P' = (if bs = [] then P else P(N x := P x))"
  shows "dseg N' P' z (if as = [] then N x else h) (as @ bs) (if bs = [] then P x else t) z"
proof -
  from assms(1) have a: "dseg N P z h as (P x) x" and b: "dseg N P x (N x) bs t z"
    by (auto simp: dseg_append dest: dseg_first)
  have "dseg N' P' z (if as = [] then N x else h) as (P x) (N x)"
  proof (cases "as = []")
    case True
    with a assms show ?thesis by auto
  next
    case False
    have "dseg (N(P x := N x)) P z h as (P x) (N x)"
      using a False assms by (intro dseg_set_next_of_last [OF a]) auto
    moreover have "N x \<notin> set as" if "bs \<noteq> []"
      using b assms(2) that by (auto dest!: dseg_first)
    ultimately show ?thesis using False assms by (simp add: dseg_frame_prev)
  qed
  moreover have "dseg N' P' (P x) (N x) bs (if bs = [] then P x else t) z"
  proof (cases "bs = []")
    case True
    with b assms show ?thesis by auto
  next
    case False
    have "dseg N (P(N x := P x)) (P x) (N x) bs t z"
      using b False assms by (intro dseg_set_prev_of_first [OF b]) auto
    moreover have "P x \<notin> set bs" if "as \<noteq> []"
      using a assms(2) that by (auto simp: disjoint_iff dest!: dseg_last)
    ultimately show ?thesis using False assms by (simp add: dseg_frame_next)
  qed
  ultimately show ?thesis unfolding dseg_append by blast
qed

text \<open>The neighbours of a node in the list.\<close>

lemma dseg_neighbours:
  assumes "dseg N P z h (as @ x # bs) t z"
  shows "P x = (if as = [] then z else last as)" "N x = (if bs = [] then z else hd bs)"
    "as = [] \<Longrightarrow> h = x" "bs = [] \<Longrightarrow> t = x"
proof -
  from assms have a: "dseg N P z h as (P x) x" and b: "dseg N P x (N x) bs t z"
    by (auto simp: dseg_append dest: dseg_first)
  from dseg_last [OF a] show "P x = (if as = [] then z else last as)" .
  from dseg_first [OF b] show "N x = (if bs = [] then z else hd bs)" .
  from dseg_first [OF a] show "as = [] \<Longrightarrow> h = x" by simp
  from dseg_last [OF b] show "bs = [] \<Longrightarrow> t = x" by simp
qed

end
