(* ===== verification/Order_Book.thy ===== *)
theory Order_Book
  imports Wire_Protocol Pool Linked_List
begin

text \<open>
  \<open>OrderBook\<close> of \<open>order_book.hpp\<close>, operation by operation: resting orders and price levels live in
  two pools, threaded by intrusive links; each side is a list of levels sorted best first and each
  level a FIFO list of orders sorted by (seq, order id).  A reference into a pool
  (\<open>RestingOrder& ro = orders_[node]\<close>) is a handle here, and an assignment through it is
  \<open>modify_order\<close> or \<open>modify_level\<close>.  The loops over links are \<open>partial_function (option)\<close>: a cyclic
  list would make them \<open>None\<close>.
\<close>

record RestingOrder =
  ro_order_id :: u64
  ro_seq :: u64
  ro_price_ticks :: u64
  ro_remaining_qty :: u32
  ro_side :: Side
  ro_next :: NodeIndex
  ro_prev :: NodeIndex

definition has_priority_over :: "u64 \<Rightarrow> u64 \<Rightarrow> u64 \<Rightarrow> u64 \<Rightarrow> bool" where
  "has_priority_over a_seq a_id b_seq b_id \<longleftrightarrow>
     a_seq < b_seq \<or> (a_seq = b_seq \<and> a_id < b_id)"

record PriceLevel =
  lv_price_ticks :: u64
  lv_order_count :: u32
  lv_head :: NodeIndex
  lv_tail :: NodeIndex
  lv_next_level :: NodeIndex
  lv_prev_level :: NodeIndex

record OrderBook =
  orders :: "RestingOrder FreeListPool"
  levels :: "PriceLevel FreeListPool"
  bid_head :: NodeIndex
  ask_head :: NodeIndex

definition order_count :: "OrderBook \<Rightarrow> u64" where
  "order_count b = pool_size (orders b)"

definition level_count :: "OrderBook \<Rightarrow> u64" where
  "level_count b = pool_size (levels b)"

definition book_empty :: "OrderBook \<Rightarrow> bool" where
  "book_empty b = pool_empty (orders b)"

definition order_at :: "OrderBook \<Rightarrow> NodeIndex \<Rightarrow> RestingOrder option" where
  "order_at b node = pool_get (orders b) node"

definition level_at :: "OrderBook \<Rightarrow> NodeIndex \<Rightarrow> PriceLevel option" where
  "level_at b l = pool_get (levels b) l"

definition modify_order :: "NodeIndex \<Rightarrow> (RestingOrder \<Rightarrow> RestingOrder) \<Rightarrow> OrderBook \<Rightarrow> OrderBook option" where
  "modify_order node f b = do { p \<leftarrow> pool_modify node f (orders b); Some (b\<lparr>orders := p\<rparr>) }"

definition modify_level :: "NodeIndex \<Rightarrow> (PriceLevel \<Rightarrow> PriceLevel) \<Rightarrow> OrderBook \<Rightarrow> OrderBook option" where
  "modify_level l f b = do { p \<leftarrow> pool_modify l f (levels b); Some (b\<lparr>levels := p\<rparr>) }"

text \<open>\<open>best_bid\<close> and \<open>best_ask\<close>: the inner \<open>None\<close> is the null pointer.\<close>

definition best_bid :: "OrderBook \<Rightarrow> PriceLevel option option" where
  "best_bid b = (if bid_head b = kNullNode then Some None else map_option Some (level_at b (bid_head b)))"

definition best_ask :: "OrderBook \<Rightarrow> PriceLevel option option" where
  "best_ask b = (if ask_head b = kNullNode then Some None else map_option Some (level_at b (ask_head b)))"

definition side_head :: "Side \<Rightarrow> OrderBook \<Rightarrow> NodeIndex" where
  "side_head s b = (if s = Buy then bid_head b else ask_head b)"

definition set_side_head :: "Side \<Rightarrow> NodeIndex \<Rightarrow> OrderBook \<Rightarrow> OrderBook" where
  "set_side_head s i b = (if s = Buy then b\<lparr>bid_head := i\<rparr> else b\<lparr>ask_head := i\<rparr>)"

definition front_order :: "Side \<Rightarrow> OrderBook \<Rightarrow> RestingOrder option option" where
  "front_order s b =
     (let level = side_head s b in
      if level = kNullNode then Some None
      else do {
        lv \<leftarrow> level_at b level;
        if lv_head lv = kNullNode then Some None else map_option Some (order_at b (lv_head lv))
      })"

definition level_head :: "PriceLevel \<Rightarrow> NodeIndex" where
  "level_head lv = lv_head lv"

definition level_after :: "OrderBook \<Rightarrow> PriceLevel \<Rightarrow> PriceLevel option option" where
  "level_after b lv =
     (if lv_next_level lv = kNullNode then Some None
      else map_option Some (level_at b (lv_next_level lv)))"

definition book_clear :: "OrderBook \<Rightarrow> OrderBook" where
  "book_clear b = b\<lparr>orders := pool_reset (orders b), levels := pool_reset (levels b),
                     bid_head := kNullNode, ask_head := kNullNode\<rparr>"

definition price_ranks_first :: "Side \<Rightarrow> u64 \<Rightarrow> u64 \<Rightarrow> bool" where
  "price_ranks_first s a b = (if s = Buy then a > b else a < b)"

partial_function (option) locate_level_from ::
  "OrderBook \<Rightarrow> Side \<Rightarrow> u64 \<Rightarrow> NodeIndex \<Rightarrow> NodeIndex option" where
  "locate_level_from b s price level =
     (if level = kNullNode then Some kNullNode
      else do {
        lv \<leftarrow> level_at b level;
        if lv_price_ticks lv = price then Some level
        else if price_ranks_first s price (lv_price_ticks lv) then Some kNullNode
        else locate_level_from b s price (lv_next_level lv)
      })"

definition locate_level :: "OrderBook \<Rightarrow> Side \<Rightarrow> u64 \<Rightarrow> NodeIndex option" where
  "locate_level b s price = locate_level_from b s price (side_head s b)"

text \<open>
  The walk of \<open>find_or_create_level\<close>: the result is \<open>prev\<close>, \<open>cur\<close> and whether \<open>cur\<close> is an existing
  level of the wanted price.
\<close>

partial_function (option) walk_levels ::
  "OrderBook \<Rightarrow> Side \<Rightarrow> u64 \<Rightarrow> NodeIndex \<Rightarrow> NodeIndex \<Rightarrow> (NodeIndex \<times> NodeIndex \<times> bool) option" where
  "walk_levels b s price prev cur =
     (if cur = kNullNode then Some (prev, cur, False)
      else do {
        lv \<leftarrow> level_at b cur;
        if lv_price_ticks lv = price then Some (prev, cur, True)
        else if price_ranks_first s price (lv_price_ticks lv) then Some (prev, cur, False)
        else walk_levels b s price cur (lv_next_level lv)
      })"

definition find_or_create_level :: "Side \<Rightarrow> u64 \<Rightarrow> OrderBook \<Rightarrow> (NodeIndex \<times> OrderBook) option" where
  "find_or_create_level s price b = do {
     (prev, cur, found) \<leftarrow> walk_levels b s price kNullNode (side_head s b);
     if found then Some (cur, b)
     else if pool_full (levels b) then Some (kNullNode, b)
     else do {
       (node, ls) \<leftarrow> pool_acquire (levels b);
       b \<leftarrow> modify_level node (\<lambda>l. l\<lparr>lv_price_ticks := price, lv_order_count := 0,
              lv_head := kNullNode, lv_tail := kNullNode,
              lv_prev_level := prev, lv_next_level := cur\<rparr>) (b\<lparr>levels := ls\<rparr>);
       b \<leftarrow> (if prev = kNullNode then Some (set_side_head s node b)
             else modify_level prev (\<lambda>l. l\<lparr>lv_next_level := node\<rparr>) b);
       b \<leftarrow> (if cur \<noteq> kNullNode then modify_level cur (\<lambda>l. l\<lparr>lv_prev_level := node\<rparr>) b else Some b);
       Some (node, b)
     }
   }"

definition remove_level :: "Side \<Rightarrow> NodeIndex \<Rightarrow> OrderBook \<Rightarrow> OrderBook option" where
  "remove_level s level b = do {
     lv \<leftarrow> level_at b level;
     b \<leftarrow> (if lv_prev_level lv = kNullNode then Some (set_side_head s (lv_next_level lv) b)
           else modify_level (lv_prev_level lv) (\<lambda>l. l\<lparr>lv_next_level := lv_next_level lv\<rparr>) b);
     b \<leftarrow> (if lv_next_level lv \<noteq> kNullNode
           then modify_level (lv_next_level lv) (\<lambda>l. l\<lparr>lv_prev_level := lv_prev_level lv\<rparr>) b
           else Some b);
     ls \<leftarrow> pool_release level (levels b);
     Some (b\<lparr>levels := ls\<rparr>)
   }"

text \<open>The backward scan of \<open>insert_into_level\<close>.\<close>

partial_function (option) scan_back ::
  "OrderBook \<Rightarrow> u64 \<Rightarrow> u64 \<Rightarrow> NodeIndex \<Rightarrow> NodeIndex option" where
  "scan_back b seq order_id cur =
     (if cur = kNullNode then Some cur
      else do {
        c \<leftarrow> order_at b cur;
        if has_priority_over seq order_id (ro_seq c) (ro_order_id c)
        then scan_back b seq order_id (ro_prev c)
        else Some cur
      })"

definition insert_into_level :: "NodeIndex \<Rightarrow> NodeIndex \<Rightarrow> OrderBook \<Rightarrow> OrderBook option" where
  "insert_into_level level node b = do {
     lv \<leftarrow> level_at b level;
     ro \<leftarrow> order_at b node;
     cur \<leftarrow> scan_back b (ro_seq ro) (ro_order_id ro) (lv_tail lv);
     b \<leftarrow> (if cur = kNullNode then do {
             b \<leftarrow> modify_order node (\<lambda>r. r\<lparr>ro_prev := kNullNode, ro_next := lv_head lv\<rparr>) b;
             b \<leftarrow> (if lv_head lv \<noteq> kNullNode
                   then modify_order (lv_head lv) (\<lambda>r. r\<lparr>ro_prev := node\<rparr>) b else Some b);
             b \<leftarrow> modify_level level (\<lambda>l. l\<lparr>lv_head := node\<rparr>) b;
             (if lv_tail lv = kNullNode then modify_level level (\<lambda>l. l\<lparr>lv_tail := node\<rparr>) b else Some b)
           }
           else do {
             c \<leftarrow> order_at b cur;
             b \<leftarrow> modify_order node (\<lambda>r. r\<lparr>ro_prev := cur, ro_next := ro_next c\<rparr>) b;
             c \<leftarrow> order_at b cur;
             b \<leftarrow> (if ro_next c \<noteq> kNullNode
                   then modify_order (ro_next c) (\<lambda>r. r\<lparr>ro_prev := node\<rparr>) b
                   else modify_level level (\<lambda>l. l\<lparr>lv_tail := node\<rparr>) b);
             modify_order cur (\<lambda>r. r\<lparr>ro_next := node\<rparr>) b
           });
     modify_level level (\<lambda>l. l\<lparr>lv_order_count := lv_order_count l + 1\<rparr>) b
   }"

definition unlink_from_level :: "NodeIndex \<Rightarrow> NodeIndex \<Rightarrow> OrderBook \<Rightarrow> OrderBook option" where
  "unlink_from_level level node b = do {
     ro \<leftarrow> order_at b node;
     b \<leftarrow> (if ro_prev ro = kNullNode then modify_level level (\<lambda>l. l\<lparr>lv_head := ro_next ro\<rparr>) b
           else modify_order (ro_prev ro) (\<lambda>r. r\<lparr>ro_next := ro_next ro\<rparr>) b);
     b \<leftarrow> (if ro_next ro = kNullNode then modify_level level (\<lambda>l. l\<lparr>lv_tail := ro_prev ro\<rparr>) b
           else modify_order (ro_next ro) (\<lambda>r. r\<lparr>ro_prev := ro_prev ro\<rparr>) b);
     modify_level level (\<lambda>l. l\<lparr>lv_order_count := lv_order_count l - 1\<rparr>) b
   }"

definition insert_order ::
  "u64 \<Rightarrow> Side \<Rightarrow> u64 \<Rightarrow> u64 \<Rightarrow> u32 \<Rightarrow> OrderBook \<Rightarrow> (bool \<times> OrderBook) option" where
  "insert_order order_id s price_ticks seq remaining_qty b =
     (if pool_full (orders b) then Some (False, b)
      else do {
        (level, b) \<leftarrow> find_or_create_level s price_ticks b;
        if level = kNullNode then Some (False, b)
        else do {
          (node, os) \<leftarrow> pool_acquire (orders b);
          b \<leftarrow> modify_order node (\<lambda>r. r\<lparr>ro_order_id := order_id, ro_seq := seq,
                 ro_price_ticks := price_ticks, ro_remaining_qty := remaining_qty, ro_side := s,
                 ro_next := kNullNode, ro_prev := kNullNode\<rparr>) (b\<lparr>orders := os\<rparr>);
          b \<leftarrow> insert_into_level level node b;
          Some (True, b)
        }
      })"

text \<open>\<open>ro\<close> refers to the slot: it is read again after the slot has been released.\<close>

definition remove_order :: "NodeIndex \<Rightarrow> OrderBook \<Rightarrow> OrderBook option" where
  "remove_order node b = do {
     ro \<leftarrow> order_at b node;
     level \<leftarrow> locate_level b (ro_side ro) (ro_price_ticks ro);
     b \<leftarrow> unlink_from_level level node b;
     os \<leftarrow> pool_release node (orders b);
     b \<leftarrow> Some (b\<lparr>orders := os\<rparr>);
     lv \<leftarrow> level_at b level;
     if lv_order_count lv = 0 then do {
       ro \<leftarrow> order_at b node;
       remove_level (ro_side ro) level b
     }
     else Some b
   }"

partial_function (option) find_in_level_from :: "OrderBook \<Rightarrow> u64 \<Rightarrow> NodeIndex \<Rightarrow> NodeIndex option" where
  "find_in_level_from b order_id node =
     (if node = kNullNode then Some kNullNode
      else do {
        ro \<leftarrow> order_at b node;
        if ro_order_id ro = order_id then Some node
        else find_in_level_from b order_id (ro_next ro)
      })"

definition find_in_level :: "OrderBook \<Rightarrow> NodeIndex \<Rightarrow> u64 \<Rightarrow> NodeIndex option" where
  "find_in_level b level order_id = do {
     lv \<leftarrow> level_at b level;
     find_in_level_from b order_id (lv_head lv)
   }"

partial_function (option) find_order_from :: "OrderBook \<Rightarrow> u64 \<Rightarrow> NodeIndex \<Rightarrow> NodeIndex option" where
  "find_order_from b order_id level =
     (if level = kNullNode then Some kNullNode
      else do {
        found \<leftarrow> find_in_level b level order_id;
        if found \<noteq> kNullNode then Some found
        else do {
          lv \<leftarrow> level_at b level;
          find_order_from b order_id (lv_next_level lv)
        }
      })"

definition find_order :: "OrderBook \<Rightarrow> u64 \<Rightarrow> NodeIndex option" where
  "find_order b order_id = do {
     found \<leftarrow> find_order_from b order_id (bid_head b);
     if found \<noteq> kNullNode then Some found
     else find_order_from b order_id (ask_head b)
   }"

definition default_order :: RestingOrder where
  "default_order = \<lparr>ro_order_id = 0, ro_seq = 0, ro_price_ticks = 0, ro_remaining_qty = 0,
     ro_side = Buy, ro_next = kNullNode, ro_prev = kNullNode\<rparr>"

definition default_level :: PriceLevel where
  "default_level = \<lparr>lv_price_ticks = 0, lv_order_count = 0, lv_head = kNullNode, lv_tail = kNullNode,
     lv_next_level = kNullNode, lv_prev_level = kNullNode\<rparr>"

text \<open>A freshly constructed book with room for \<open>n\<close> orders and \<open>m\<close> price levels.\<close>

definition book_new :: "nat \<Rightarrow> nat \<Rightarrow> OrderBook" where
  "book_new n m = \<lparr>orders = pool_new default_order n, levels = pool_new default_level m,
     bid_head = kNullNode, ask_head = kNullNode\<rparr>"

declare locate_level_from.simps [code] walk_levels.simps [code] scan_back.simps [code]
  find_in_level_from.simps [code] find_order_from.simps [code]

end
