(* ===== verification/Abstract_Book.thy ===== *)
theory Abstract_Book
  imports Order_Book
begin

text \<open>
  The specification of the order book: per side, one list of resting orders in strict price-time
  priority, the order that must match next at the head.  Pools, levels and links are gone; a price
  level is a maximal run of equal prices.
\<close>

record AOrder =
  ao_id :: u64
  ao_seq :: u64
  ao_price :: u64
  ao_qty :: u32

type_synonym ABook = "Side \<Rightarrow> AOrder list"

definition ao_prio :: "AOrder \<Rightarrow> AOrder \<Rightarrow> bool" where
  "ao_prio a b = has_priority_over (ao_seq a) (ao_id a) (ao_seq b) (ao_id b)"

text \<open>\<open>ao_before s a b\<close>: on side \<open>s\<close>, \<open>a\<close> must match strictly before \<open>b\<close>.\<close>

definition ao_before :: "Side \<Rightarrow> AOrder \<Rightarrow> AOrder \<Rightarrow> bool" where
  "ao_before s a b \<longleftrightarrow> price_ranks_first s (ao_price a) (ao_price b)
     \<or> (ao_price a = ao_price b \<and> ao_prio a b)"

definition priority_sorted :: "Side \<Rightarrow> AOrder list \<Rightarrow> bool" where
  "priority_sorted s = sorted_wrt (\<lambda>a b. \<not> ao_before s b a)"

definition a_insert :: "Side \<Rightarrow> AOrder \<Rightarrow> AOrder list \<Rightarrow> AOrder list" where
  "a_insert s x xs = takeWhile (\<lambda>y. \<not> ao_before s x y) xs @ x # dropWhile (\<lambda>y. \<not> ao_before s x y) xs"

definition a_prices :: "AOrder list \<Rightarrow> u64 set" where
  "a_prices xs = ao_price ` set xs"

definition a_order_count :: "ABook \<Rightarrow> nat" where
  "a_order_count A = length (A Buy) + length (A Sell)"

definition a_level_count :: "ABook \<Rightarrow> nat" where
  "a_level_count A = card (a_prices (A Buy)) + card (a_prices (A Sell))"

text \<open>Removing the first order with a given identifier.\<close>

fun a_delete :: "u64 \<Rightarrow> AOrder list \<Rightarrow> AOrder list" where
  "a_delete i [] = []"
| "a_delete i (x # xs) = (if ao_id x = i then xs else x # a_delete i xs)"

definition a_ids :: "AOrder list \<Rightarrow> u64 set" where
  "a_ids xs = ao_id ` set xs"

text \<open>The bids are scanned first, then the asks.\<close>

definition a_cancel :: "u64 \<Rightarrow> ABook \<Rightarrow> ABook" where
  "a_cancel i A =
     (if i \<in> a_ids (A Buy) then A(Buy := a_delete i (A Buy))
      else A(Sell := a_delete i (A Sell)))"

lemma price_ranks_first_irrefl [simp]: "\<not> price_ranks_first s p p"
  by (simp add: price_ranks_first_def)

lemma price_ranks_first_trans:
  "price_ranks_first s p q \<Longrightarrow> price_ranks_first s q r \<Longrightarrow> price_ranks_first s p r"
  by (auto simp: price_ranks_first_def split: if_splits)

lemma price_ranks_first_asym: "price_ranks_first s p q \<Longrightarrow> \<not> price_ranks_first s q p"
  by (auto simp: price_ranks_first_def split: if_splits)

lemma price_ranks_first_total: "p \<noteq> q \<Longrightarrow> price_ranks_first s p q \<or> price_ranks_first s q p"
  by (auto simp: price_ranks_first_def)

lemma ao_prio_irrefl [simp]: "\<not> ao_prio a a"
  by (simp add: ao_prio_def has_priority_over_def)

lemma ao_prio_neg_trans: "\<not> ao_prio a b \<Longrightarrow> \<not> ao_prio b c \<Longrightarrow> \<not> ao_prio a c"
  by (auto simp: ao_prio_def has_priority_over_def)

lemma ao_prio_asym: "ao_prio a b \<Longrightarrow> \<not> ao_prio b a"
  by (auto simp: ao_prio_def has_priority_over_def)

lemma ao_before_asym: "ao_before s a b \<Longrightarrow> \<not> ao_before s b a"
  by (auto simp: ao_before_def dest: price_ranks_first_asym ao_prio_asym)

lemma ao_before_neg_trans: "\<not> ao_before s a b \<Longrightarrow> \<not> ao_before s b c \<Longrightarrow> \<not> ao_before s a c"
  unfolding ao_before_def
  by (metis ao_prio_neg_trans price_ranks_first_total price_ranks_first_trans price_ranks_first_asym)

text \<open>Where the insertion point splits the list, insertion goes there.\<close>

lemma a_insert_split:
  assumes "\<And>y. y \<in> set xs \<Longrightarrow> \<not> ao_before s x y" "ys \<noteq> [] \<Longrightarrow> ao_before s x (hd ys)"
  shows "a_insert s x (xs @ ys) = xs @ x # ys"
  using assms by (cases ys) (auto simp: a_insert_def takeWhile_tail)

lemma mset_a_insert: "set (a_insert s x xs) = insert x (set xs)" "length (a_insert s x xs) = Suc (length xs)"
proof -
  have "xs = takeWhile (\<lambda>y. \<not> ao_before s x y) xs @ dropWhile (\<lambda>y. \<not> ao_before s x y) xs" by simp
  then show "set (a_insert s x xs) = insert x (set xs)" "length (a_insert s x xs) = Suc (length xs)"
    unfolding a_insert_def by (metis Un_insert_right list.simps(15) set_append,
      metis add_Suc_right length_Cons length_append)
qed

lemma priority_sorted_append:
  "priority_sorted s (xs @ ys) \<longleftrightarrow>
     priority_sorted s xs \<and> priority_sorted s ys \<and> (\<forall>x\<in>set xs. \<forall>y\<in>set ys. \<not> ao_before s y x)"
  by (simp add: priority_sorted_def sorted_wrt_append)

lemma priority_sorted_Cons:
  "priority_sorted s (x # xs) \<longleftrightarrow> (\<forall>y\<in>set xs. \<not> ao_before s y x) \<and> priority_sorted s xs"
  by (simp add: priority_sorted_def)

lemma priority_sorted_Nil [simp]: "priority_sorted s []"
  by (simp add: priority_sorted_def)

lemma priority_sorted_splice:
  assumes "priority_sorted s (as @ bs)" "\<And>y. y \<in> set as \<Longrightarrow> \<not> ao_before s x y"
    and "bs \<noteq> [] \<Longrightarrow> ao_before s x (hd bs)"
  shows "priority_sorted s (as @ x # bs)"
proof -
  have "\<not> ao_before s y x" if y: "y \<in> set bs" for y
  proof -
    from y have "ao_before s x (hd bs)" using assms(3) by (cases bs) auto
    moreover from y assms(1) have "y = hd bs \<or> \<not> ao_before s y (hd bs)"
      by (cases bs) (auto simp: priority_sorted_append priority_sorted_Cons)
    ultimately show ?thesis using ao_before_asym ao_before_neg_trans by blast
  qed
  with assms(1,2) show ?thesis by (simp add: priority_sorted_append priority_sorted_Cons)
qed

lemma a_insert_sorted:
  assumes "priority_sorted s xs"
  shows "priority_sorted s (a_insert s x xs)"
  unfolding a_insert_def
proof (rule priority_sorted_splice)
  let ?P = "\<lambda>y. \<not> ao_before s x y"
  show "priority_sorted s (takeWhile ?P xs @ dropWhile ?P xs)" using assms by simp
  show "y \<in> set (takeWhile ?P xs) \<Longrightarrow> \<not> ao_before s x y" for y by (auto dest: set_takeWhileD)
  show "dropWhile ?P xs \<noteq> [] \<Longrightarrow> ao_before s x (hd (dropWhile ?P xs))"
    using hd_dropWhile [of ?P xs] by blast
qed

lemma a_delete_split: "i \<notin> a_ids xs \<Longrightarrow> ao_id x = i \<Longrightarrow> a_delete i (xs @ x # ys) = xs @ ys"
  by (induction xs) (auto simp: a_ids_def)

lemma set_a_delete: "set (a_delete i xs) \<subseteq> set xs"
  by (induction xs) auto

lemma a_delete_sorted: "priority_sorted s xs \<Longrightarrow> priority_sorted s (a_delete i xs)"
proof (induction xs)
  case (Cons x xs)
  then show ?case using set_a_delete [of i xs] by (auto simp: priority_sorted_Cons)
qed simp

end
