(* ===== verification/Book_Shape.thy ===== *)
theory Book_Shape
  imports Abstract_Book
begin

text \<open>
  The representation invariant of the order book, and what each link operation does to the two
  slot arrays.  A \<open>shape\<close> lists, best level first, each level's handle with the handles of its
  orders in FIFO order; it is the ghost state that connects the pools to the abstract book.
\<close>

type_synonym shape = "(NodeIndex \<times> NodeIndex list) list"

definition abs_order :: "RestingOrder \<Rightarrow> AOrder" where
  "abs_order r = \<lparr>ao_id = ro_order_id r, ao_seq = ro_seq r, ao_price = ro_price_ticks r,
     ao_qty = ro_remaining_qty r\<rparr>"

definition level_ok :: "RestingOrder list \<Rightarrow> PriceLevel \<Rightarrow> Side \<Rightarrow> NodeIndex list \<Rightarrow> bool" where
  "level_ok Os lv s ns \<longleftrightarrow>
     dseg (field ro_next Os) (field ro_prev Os) kNullNode (lv_head lv) ns (lv_tail lv) kNullNode
     \<and> lv_order_count lv = of_nat (length ns)
     \<and> (\<forall>n\<in>set ns. ro_price_ticks (Os ! n) = lv_price_ticks lv \<and> ro_side (Os ! n) = s)
     \<and> sorted_wrt (\<lambda>m n. \<not> ao_prio (abs_order (Os ! n)) (abs_order (Os ! m))) ns"

definition side_ok ::
  "RestingOrder list \<Rightarrow> PriceLevel list \<Rightarrow> Side \<Rightarrow> NodeIndex \<Rightarrow> shape \<Rightarrow> bool" where
  "side_ok Os Ls s h ls \<longleftrightarrow>
     (\<exists>t. dseg (field lv_next_level Ls) (field lv_prev_level Ls) kNullNode h (map fst ls) t kNullNode)
     \<and> sorted_wrt (\<lambda>l k. price_ranks_first s (lv_price_ticks (Ls ! l)) (lv_price_ticks (Ls ! k)))
         (map fst ls)
     \<and> (\<forall>(l, ns)\<in>set ls. level_ok Os (Ls ! l) s ns)"

abbreviation nodes_of :: "shape \<Rightarrow> NodeIndex list" where
  "nodes_of ls \<equiv> concat (map snd ls)"

definition shape_levels :: "(Side \<Rightarrow> shape) \<Rightarrow> NodeIndex list" where
  "shape_levels sh = map fst (sh Buy) @ map fst (sh Sell)"

definition shape_nodes :: "(Side \<Rightarrow> shape) \<Rightarrow> NodeIndex list" where
  "shape_nodes sh = nodes_of (sh Buy) @ nodes_of (sh Sell)"

definition abs_side :: "RestingOrder list \<Rightarrow> shape \<Rightarrow> AOrder list" where
  "abs_side Os ls = map (\<lambda>n. abs_order (Os ! n)) (nodes_of ls)"

definition book_links :: "OrderBook \<Rightarrow> (Side \<Rightarrow> shape) \<Rightarrow> bool" where
  "book_links b sh \<longleftrightarrow>
     distinct (shape_nodes sh) \<and> distinct (shape_levels sh)
     \<and> (\<forall>s. side_ok (slots (orders b)) (slots (levels b)) s (side_head s b) (sh s))"

definition book_pools :: "OrderBook \<Rightarrow> nat set \<Rightarrow> nat set \<Rightarrow> bool" where
  "book_pools b U V \<longleftrightarrow> pool_ok (orders b) U \<and> pool_ok (levels b) V"

definition no_empty_level :: "(Side \<Rightarrow> shape) \<Rightarrow> bool" where
  "no_empty_level sh \<longleftrightarrow> (\<forall>s. \<forall>(l, ns)\<in>set (sh s). ns \<noteq> [])"

definition book_ok :: "OrderBook \<Rightarrow> (Side \<Rightarrow> shape) \<Rightarrow> bool" where
  "book_ok b sh \<longleftrightarrow> book_pools b (set (shape_nodes sh)) (set (shape_levels sh))
     \<and> book_links b sh \<and> no_empty_level sh"

definition abs_book :: "OrderBook \<Rightarrow> (Side \<Rightarrow> shape) \<Rightarrow> ABook" where
  "abs_book b sh = (\<lambda>s. abs_side (slots (orders b)) (sh s))"

definition last_or_null :: "NodeIndex list \<Rightarrow> NodeIndex" where
  "last_or_null xs = (if xs = [] then kNullNode else last xs)"

definition hd_or_null :: "NodeIndex list \<Rightarrow> NodeIndex" where
  "hd_or_null xs = (if xs = [] then kNullNode else hd xs)"

text \<open>The book with both slot arrays replaced: what a sequence of link updates produces.\<close>

definition with_slots :: "RestingOrder list \<Rightarrow> PriceLevel list \<Rightarrow> OrderBook \<Rightarrow> OrderBook" where
  "with_slots Os Ls b = b\<lparr>orders := (orders b)\<lparr>slots := Os\<rparr>, levels := (levels b)\<lparr>slots := Ls\<rparr>\<rparr>"

definition link_orders :: "NodeIndex \<Rightarrow> NodeIndex \<Rightarrow> NodeIndex \<Rightarrow> RestingOrder list \<Rightarrow> RestingOrder list" where
  "link_orders x m k Os =
     (let Os = Os[x := (Os ! x)\<lparr>ro_prev := m, ro_next := k\<rparr>];
          Os = (if k = kNullNode then Os else Os[k := (Os ! k)\<lparr>ro_prev := x\<rparr>])
      in if m = kNullNode then Os else Os[m := (Os ! m)\<lparr>ro_next := x\<rparr>])"

definition unlink_orders :: "NodeIndex \<Rightarrow> NodeIndex \<Rightarrow> RestingOrder list \<Rightarrow> RestingOrder list" where
  "unlink_orders m k Os =
     (let Os = (if m = kNullNode then Os else Os[m := (Os ! m)\<lparr>ro_next := k\<rparr>])
      in if k = kNullNode then Os else Os[k := (Os ! k)\<lparr>ro_prev := m\<rparr>])"

definition link_levels :: "NodeIndex \<Rightarrow> NodeIndex \<Rightarrow> NodeIndex \<Rightarrow> PriceLevel list \<Rightarrow> PriceLevel list" where
  "link_levels x m k Ls =
     (let Ls = Ls[x := (Ls ! x)\<lparr>lv_prev_level := m, lv_next_level := k\<rparr>];
          Ls = (if m = kNullNode then Ls else Ls[m := (Ls ! m)\<lparr>lv_next_level := x\<rparr>])
      in if k = kNullNode then Ls else Ls[k := (Ls ! k)\<lparr>lv_prev_level := x\<rparr>])"

definition unlink_levels :: "NodeIndex \<Rightarrow> NodeIndex \<Rightarrow> PriceLevel list \<Rightarrow> PriceLevel list" where
  "unlink_levels m k Ls =
     (let Ls = (if m = kNullNode then Ls else Ls[m := (Ls ! m)\<lparr>lv_next_level := k\<rparr>])
      in if k = kNullNode then Ls else Ls[k := (Ls ! k)\<lparr>lv_prev_level := m\<rparr>])"

subsection \<open>Book accessors in range\<close>

lemma with_slots_id [simp]: "with_slots (slots (orders b)) (slots (levels b)) b = b"
  by (simp add: with_slots_def)

lemma with_slots_sel [simp]:
  "slots (orders (with_slots Os Ls b)) = Os" "slots (levels (with_slots Os Ls b)) = Ls"
  "bid_head (with_slots Os Ls b) = bid_head b" "ask_head (with_slots Os Ls b) = ask_head b"
  "side_head s (with_slots Os Ls b) = side_head s b"
  "with_slots Os' Ls' (with_slots Os Ls b) = with_slots Os' Ls' b"
  by (simp_all add: with_slots_def side_head_def)

lemma set_side_head_sel [simp]:
  "orders (set_side_head s i b) = orders b" "levels (set_side_head s i b) = levels b"
  "side_head s' (set_side_head s i b) = (if s' = s then i else side_head s' b)"
  "with_slots Os Ls (set_side_head s i b) = set_side_head s i (with_slots Os Ls b)"
  by (cases s; cases s'; simp add: set_side_head_def side_head_def with_slots_def)+

lemma order_at_in [simp, arr_simps]:
  "n < length (slots (orders b)) \<Longrightarrow> order_at b n = Some (slots (orders b) ! n)"
  by (simp add: order_at_def)

lemma level_at_in [simp, arr_simps]:
  "l < length (slots (levels b)) \<Longrightarrow> level_at b l = Some (slots (levels b) ! l)"
  by (simp add: level_at_def)

lemma modify_order_in [arr_simps]:
  "n < length (slots (orders b)) \<Longrightarrow> modify_order n f b =
     Some (with_slots ((slots (orders b))[n := f (slots (orders b) ! n)]) (slots (levels b)) b)"
  by (simp add: modify_order_def with_slots_def)

lemma modify_level_in [arr_simps]:
  "l < length (slots (levels b)) \<Longrightarrow> modify_level l f b =
     Some (with_slots (slots (orders b)) ((slots (levels b))[l := f (slots (levels b) ! l)]) b)"
  by (simp add: modify_level_def with_slots_def)

subsection \<open>Link updates, field by field\<close>

lemma link_orders_length [simp]: "length (link_orders x m k Os) = length Os"
  by (simp add: link_orders_def Let_def)

lemma unlink_orders_length [simp]: "length (unlink_orders m k Os) = length Os"
  by (simp add: unlink_orders_def Let_def)

lemma link_levels_length [simp]: "length (link_levels x m k Ls) = length Ls"
  by (simp add: link_levels_def Let_def)

lemma unlink_levels_length [simp]: "length (unlink_levels m k Ls) = length Ls"
  by (simp add: unlink_levels_def Let_def)

definition ptr_ok :: "nat \<Rightarrow> NodeIndex \<Rightarrow> bool" where
  "ptr_ok n p \<longleftrightarrow> p = kNullNode \<or> p < n"

lemma link_orders_fields:
  assumes "x < length Os" "ptr_ok (length Os) m" "ptr_ok (length Os) k" "m \<noteq> x" "k \<noteq> x"
  shows "field ro_next (link_orders x m k Os)
       = (if m = kNullNode then field ro_next Os else (field ro_next Os)(m := x))(x := k)"
    and "field ro_prev (link_orders x m k Os)
       = (if k = kNullNode then field ro_prev Os else (field ro_prev Os)(k := x))(x := m)"
  using assms by (auto simp: link_orders_def Let_def ptr_ok_def fun_eq_iff nth_list_update)

lemma unlink_orders_fields:
  assumes "ptr_ok (length Os) m" "ptr_ok (length Os) k"
  shows "field ro_next (unlink_orders m k Os)
       = (if m = kNullNode then field ro_next Os else (field ro_next Os)(m := k))"
    and "field ro_prev (unlink_orders m k Os)
       = (if k = kNullNode then field ro_prev Os else (field ro_prev Os)(k := m))"
  using assms by (auto simp: unlink_orders_def Let_def ptr_ok_def fun_eq_iff nth_list_update)

lemma link_levels_fields:
  assumes "x < length Ls" "ptr_ok (length Ls) m" "ptr_ok (length Ls) k" "m \<noteq> x" "k \<noteq> x"
  shows "field lv_next_level (link_levels x m k Ls)
       = (if m = kNullNode then field lv_next_level Ls else (field lv_next_level Ls)(m := x))(x := k)"
    and "field lv_prev_level (link_levels x m k Ls)
       = (if k = kNullNode then field lv_prev_level Ls else (field lv_prev_level Ls)(k := x))(x := m)"
  using assms by (auto simp: link_levels_def Let_def ptr_ok_def fun_eq_iff nth_list_update)

lemma unlink_levels_fields:
  assumes "ptr_ok (length Ls) m" "ptr_ok (length Ls) k"
  shows "field lv_next_level (unlink_levels m k Ls)
       = (if m = kNullNode then field lv_next_level Ls else (field lv_next_level Ls)(m := k))"
    and "field lv_prev_level (unlink_levels m k Ls)
       = (if k = kNullNode then field lv_prev_level Ls else (field lv_prev_level Ls)(k := m))"
  using assms by (auto simp: unlink_levels_def Let_def ptr_ok_def fun_eq_iff nth_list_update)

text \<open>Links carry no order data: the abstraction of every slot is unchanged.\<close>

lemma link_orders_data [simp]:
  "abs_order (link_orders x m k Os ! i) = abs_order (Os ! i)"
  "ro_side (link_orders x m k Os ! i) = ro_side (Os ! i)"
  "ro_price_ticks (link_orders x m k Os ! i) = ro_price_ticks (Os ! i)"
  "abs_order (unlink_orders m k Os ! i) = abs_order (Os ! i)"
  "ro_side (unlink_orders m k Os ! i) = ro_side (Os ! i)"
  "ro_price_ticks (unlink_orders m k Os ! i) = ro_price_ticks (Os ! i)"
  by (auto simp: link_orders_def unlink_orders_def Let_def nth_update_cases abs_order_def)

lemma link_orders_frame: "i \<notin> {x, m, k} \<Longrightarrow> link_orders x m k Os ! i = Os ! i"
  by (auto simp: link_orders_def Let_def)

lemma unlink_orders_frame: "i \<notin> {m, k} \<Longrightarrow> unlink_orders m k Os ! i = Os ! i"
  by (auto simp: unlink_orders_def Let_def)

definition same_level_data :: "PriceLevel \<Rightarrow> PriceLevel \<Rightarrow> bool" where
  "same_level_data a b \<longleftrightarrow> lv_price_ticks a = lv_price_ticks b \<and> lv_order_count a = lv_order_count b
     \<and> lv_head a = lv_head b \<and> lv_tail a = lv_tail b"

lemma link_levels_data [simp]:
  "same_level_data (link_levels x m k Ls ! i) (Ls ! i)" "same_level_data (unlink_levels m k Ls ! i) (Ls ! i)"
  by (auto simp: link_levels_def unlink_levels_def Let_def nth_update_cases same_level_data_def)

lemma level_ok_same_data: "same_level_data a b \<Longrightarrow> level_ok Os a s ns = level_ok Os b s ns"
  by (simp add: level_ok_def same_level_data_def)

lemma level_ok_cong:
  "(\<And>n. n \<in> set ns \<Longrightarrow> Os' ! n = Os ! n) \<Longrightarrow> level_ok Os' lv s ns = level_ok Os lv s ns"
proof -
  assume eq: "\<And>n. n \<in> set ns \<Longrightarrow> Os' ! n = Os ! n"
  then have "dseg (field ro_next Os') (field ro_prev Os') p h ns l n
      = dseg (field ro_next Os) (field ro_prev Os) p h ns l n" for p h l n
    by (intro dseg_cong) simp
  moreover have "sorted_wrt (\<lambda>m n. \<not> ao_prio (abs_order (Os' ! n)) (abs_order (Os' ! m))) ns
      = sorted_wrt (\<lambda>m n. \<not> ao_prio (abs_order (Os ! n)) (abs_order (Os ! m))) ns"
    using eq by (intro sorted_wrt_eq) simp
  ultimately show ?thesis using eq by (auto simp: level_ok_def)
qed

end
