(* ===== verification/Book_Loops.thy ===== *)
theory Book_Loops
  imports Book_Shape
begin

text \<open>
  The loops of the order book that follow links: on a well-linked list each of them returns, and
  its result is described by a split of the list.
\<close>

lemma locate_level_from_ok:
  assumes "dseg (field lv_next_level (slots (levels b))) P p h (xs @ l # ys) t kNullNode"
    and "\<forall>k\<in>set (xs @ [l]). k < length (slots (levels b)) \<and> k \<noteq> kNullNode"
    and "\<forall>x\<in>set xs. price_ranks_first s (lv_price_ticks (slots (levels b) ! x)) (lv_price_ticks (slots (levels b) ! l))"
  shows "locate_level_from b s (lv_price_ticks (slots (levels b) ! l)) h = Some l"
  using assms
proof (induction xs arbitrary: p h)
  case Nil
  then show ?case by (subst locate_level_from.simps) auto
next
  case (Cons x xs)
  then have "\<not> price_ranks_first s (lv_price_ticks (slots (levels b) ! l)) (lv_price_ticks (slots (levels b) ! x))"
    "lv_price_ticks (slots (levels b) ! x) \<noteq> lv_price_ticks (slots (levels b) ! l)"
    by (auto dest: price_ranks_first_asym)
  with Cons show ?case by (subst locate_level_from.simps) auto
qed

lemma walk_levels_ok:
  assumes "dseg (field lv_next_level (slots (levels b))) P p h ls t kNullNode"
    and "\<forall>k\<in>set ls. k < length (slots (levels b)) \<and> k \<noteq> kNullNode"
  shows "\<exists>xs ys m k found. ls = xs @ ys \<and> walk_levels b s price p h = Some (m, k, found)
    \<and> dseg (field lv_next_level (slots (levels b))) P p h xs m k
    \<and> dseg (field lv_next_level (slots (levels b))) P m k ys t kNullNode
    \<and> (\<forall>x\<in>set xs. price_ranks_first s (lv_price_ticks (slots (levels b) ! x)) price)
    \<and> (found \<longleftrightarrow> ys \<noteq> [] \<and> lv_price_ticks (slots (levels b) ! hd ys) = price)
    \<and> (ys \<noteq> [] \<and> \<not> found \<longrightarrow> price_ranks_first s price (lv_price_ticks (slots (levels b) ! hd ys)))"
  using assms
proof (induction ls arbitrary: p h)
  case Nil
  then show ?case
    by (intro exI [of _ "[]"]) (auto simp: walk_levels.simps)
next
  case (Cons l ls)
  let ?pr = "lv_price_ticks (slots (levels b) ! l)"
  from Cons.prems have l: "h = l" "l < length (slots (levels b))" "l \<noteq> kNullNode" by auto
  show ?case
  proof (cases "?pr = price \<or> price_ranks_first s price ?pr")
    case True
    with l Cons.prems show ?thesis
      by (intro exI [of _ "[]"] exI [of _ "l # ls"] exI [of _ p] exI [of _ l] exI [of _ "?pr = price"])
        (auto simp: walk_levels.simps [of b s price p l])
  next
    case False
    then have before: "price_ranks_first s ?pr price" using price_ranks_first_total by blast
    have ih: "dseg (field lv_next_level (slots (levels b))) P l (lv_next_level (slots (levels b) ! l)) ls t kNullNode"
      using Cons.prems by (simp add: field_def)
    have "\<forall>k\<in>set ls. k < length (slots (levels b)) \<and> k \<noteq> kNullNode" using Cons.prems by simp
    from Cons.IH [OF ih this] obtain xs ys m k found where IH: "ls = xs @ ys"
      "walk_levels b s price l (lv_next_level (slots (levels b) ! l)) = Some (m, k, found)"
      "dseg (field lv_next_level (slots (levels b))) P l (lv_next_level (slots (levels b) ! l)) xs m k"
      "dseg (field lv_next_level (slots (levels b))) P m k ys t kNullNode"
      "\<forall>x\<in>set xs. price_ranks_first s (lv_price_ticks (slots (levels b) ! x)) price"
      "found \<longleftrightarrow> ys \<noteq> [] \<and> lv_price_ticks (slots (levels b) ! hd ys) = price"
      "ys \<noteq> [] \<and> \<not> found \<longrightarrow> price_ranks_first s price (lv_price_ticks (slots (levels b) ! hd ys))"
      by blast
    have "walk_levels b s price p l = Some (m, k, found)"
      using l False IH(2) by (subst walk_levels.simps) auto
    moreover have "P l = p" using Cons.prems by simp
    then have "dseg (field lv_next_level (slots (levels b))) P p l (l # xs) m k"
      using IH(3) by (simp add: field_def)
    moreover have "\<forall>x\<in>set (l # xs). price_ranks_first s (lv_price_ticks (slots (levels b) ! x)) price"
      using IH(5) before by simp
    moreover have "l # ls = (l # xs) @ ys" using IH(1) by simp
    ultimately show ?thesis using IH(4,6,7) l(1) by blast
  qed
qed

lemma scan_back_ok:
  assumes "dseg N (field ro_prev (slots (orders b))) kNullNode h ns m k"
    and "\<forall>n\<in>set ns. n < length (slots (orders b)) \<and> n \<noteq> kNullNode"
  shows "\<exists>xs ys. ns = xs @ ys
    \<and> scan_back b seq order_id m = Some (if xs = [] then kNullNode else last xs)
    \<and> (\<forall>y\<in>set ys. has_priority_over seq order_id (ro_seq (slots (orders b) ! y)) (ro_order_id (slots (orders b) ! y)))
    \<and> (xs \<noteq> [] \<longrightarrow> \<not> has_priority_over seq order_id
         (ro_seq (slots (orders b) ! last xs)) (ro_order_id (slots (orders b) ! last xs)))"
  using assms
proof (induction ns arbitrary: m k rule: rev_induct)
  case Nil
  then show ?case by (auto simp: scan_back.simps)
next
  case (snoc x ns)
  let ?c = "slots (orders b) ! x"
  from snoc.prems have x: "m = x" "x < length (slots (orders b))" "x \<noteq> kNullNode"
    and ns: "dseg N (field ro_prev (slots (orders b))) kNullNode h ns (ro_prev ?c) x"
    by (auto simp: dseg_append field_def)
  show ?case
  proof (cases "has_priority_over seq order_id (ro_seq ?c) (ro_order_id ?c)")
    case True
    from snoc.IH [OF ns] snoc.prems obtain xs ys where IH: "ns = xs @ ys"
      "scan_back b seq order_id (ro_prev ?c) = Some (if xs = [] then kNullNode else last xs)"
      "\<forall>y\<in>set ys. has_priority_over seq order_id (ro_seq (slots (orders b) ! y)) (ro_order_id (slots (orders b) ! y))"
      "xs \<noteq> [] \<longrightarrow> \<not> has_priority_over seq order_id
         (ro_seq (slots (orders b) ! last xs)) (ro_order_id (slots (orders b) ! last xs))"
      by auto
    have "scan_back b seq order_id m = Some (if xs = [] then kNullNode else last xs)"
      using x True IH(2) by (subst scan_back.simps) auto
    with IH True show ?thesis by (intro exI [of _ xs] exI [of _ "ys @ [x]"]) auto
  next
    case False
    with x show ?thesis
      by (intro exI [of _ "ns @ [x]"] exI [of _ "[]"]) (auto simp: scan_back.simps [of b seq order_id x])
  qed
qed

text \<open>The search by identifier finds the first order of the level that carries it.\<close>

lemma find_in_level_from_ok:
  assumes "dseg (field ro_next (slots (orders b))) P p h ns t kNullNode"
    and "\<forall>n\<in>set ns. n < length (slots (orders b)) \<and> n \<noteq> kNullNode"
  shows "find_in_level_from b i h =
    Some (case find (\<lambda>n. ro_order_id (slots (orders b) ! n) = i) ns of None \<Rightarrow> kNullNode | Some n \<Rightarrow> n)"
  using assms
proof (induction ns arbitrary: p h)
  case Nil
  then show ?case by (simp add: find_in_level_from.simps)
next
  case (Cons n ns)
  then have n: "h = n" "n < length (slots (orders b))" "n \<noteq> kNullNode" by auto
  with Cons show ?case by (subst find_in_level_from.simps) auto
qed

lemma find_order_from_ok:
  assumes "dseg (field lv_next_level (slots (levels b))) P p h (map fst ls) t kNullNode"
    and "\<forall>(l, ns)\<in>set ls. l < length (slots (levels b)) \<and> l \<noteq> kNullNode
      \<and> level_ok (slots (orders b)) (slots (levels b) ! l) s ns
      \<and> (\<forall>n\<in>set ns. n < length (slots (orders b)) \<and> n \<noteq> kNullNode)"
  shows "find_order_from b i h =
    Some (case find (\<lambda>n. ro_order_id (slots (orders b) ! n) = i) (concat (map snd ls)) of
            None \<Rightarrow> kNullNode | Some n \<Rightarrow> n)"
  using assms
proof (induction ls arbitrary: p h)
  case Nil
  then show ?case by (simp add: find_order_from.simps)
next
  case (Cons x ls)
  obtain l ns where x: "x = (l, ns)" by (cases x)
  from Cons.prems x have l: "h = l" "l < length (slots (levels b))" "l \<noteq> kNullNode"
    and ok: "level_ok (slots (orders b)) (slots (levels b) ! l) s ns"
    and ns: "\<forall>n\<in>set ns. n < length (slots (orders b)) \<and> n \<noteq> kNullNode" by auto
  have f: "find_in_level b l i =
      Some (case find (\<lambda>n. ro_order_id (slots (orders b) ! n) = i) ns of None \<Rightarrow> kNullNode | Some n \<Rightarrow> n)"
    using ok ns l by (auto simp: find_in_level_def level_ok_def intro: find_in_level_from_ok)
  have IH: "find_order_from b i (lv_next_level (slots (levels b) ! l)) =
      Some (case find (\<lambda>n. ro_order_id (slots (orders b) ! n) = i) (concat (map snd ls)) of
            None \<Rightarrow> kNullNode | Some n \<Rightarrow> n)"
    using Cons.prems x by (intro Cons.IH) auto
  have "n \<noteq> kNullNode" if "find (\<lambda>n. ro_order_id (slots (orders b) ! n) = i) ns = Some n" for n
    using that ns by (auto simp: find_Some_iff)
  with f IH l x show ?case
    by (subst find_order_from.simps) (auto simp: find_append split: option.splits)
qed

end
