(* ===== verification/Book_Links.thy ===== *)
theory Book_Links
  imports Book_Loops
begin

text \<open>
  What the link operations of the order book do to the two slot arrays, and that they keep the
  links of a side well formed.
\<close>

subsection \<open>Execution\<close>

lemma null_or_member [simp]:
  "(\<forall>n\<in>set xs. n < N \<and> n \<noteq> kNullNode) \<Longrightarrow> ptr_ok N (last_or_null xs) \<and> ptr_ok N (hd_or_null xs)
     \<and> (last_or_null xs = kNullNode \<longleftrightarrow> xs = []) \<and> (hd_or_null xs = kNullNode \<longleftrightarrow> xs = [])"
  by (auto simp: ptr_ok_def last_or_null_def hd_or_null_def)

lemma same_tail: "lv_tail r = v \<Longrightarrow> r\<lparr>lv_head := h, lv_tail := v, lv_order_count := c\<rparr> = r\<lparr>lv_head := h, lv_order_count := c\<rparr>"
  by (cases r) simp

text \<open>The pointer updates of \<open>insert_into_level\<close>, once the scan has found the place between \<open>xs\<close> and \<open>ys\<close>.\<close>

lemma insert_at_exec:
  assumes l: "l < length (slots (levels b))" and x: "x < length (slots (orders b))" "x \<notin> set (xs @ ys)"
    and d: "dseg (field ro_next (slots (orders b))) (field ro_prev (slots (orders b))) kNullNode (lv_head (slots (levels b) ! l)) (xs @ ys)
      (lv_tail (slots (levels b) ! l)) kNullNode"
    and rng: "\<forall>n\<in>set (xs @ ys). n < length (slots (orders b)) \<and> n \<noteq> kNullNode"
    and sc: "scan_back b (ro_seq (slots (orders b) ! x)) (ro_order_id (slots (orders b) ! x)) (lv_tail (slots (levels b) ! l)) = Some (last_or_null xs)"
  shows "insert_into_level l x b =
       Some (with_slots (link_orders x (last_or_null xs) (hd_or_null ys) (slots (orders b)))
         ((slots (levels b))[l := (slots (levels b) ! l)\<lparr>
             lv_head := (if xs = [] then x else lv_head (slots (levels b) ! l)),
             lv_tail := (if ys = [] then x else lv_tail (slots (levels b) ! l)),
             lv_order_count := lv_order_count (slots (levels b) ! l) + 1\<rparr>]) b)"
proof -
  let ?O = "slots (orders b)" let ?lv = "slots (levels b) ! l"
  have ys: "\<forall>n\<in>set ys. n < length ?O \<and> n \<noteq> kNullNode \<and> n \<noteq> x" using rng x by auto
  show ?thesis
  proof (cases "xs = []")
    case True
    with d have "lv_head ?lv = hd_or_null ys" "lv_tail ?lv = last_or_null ys"
      by (auto simp: hd_or_null_def last_or_null_def dest: dseg_first dseg_last)
    then show ?thesis using True ys l x sc
      by (cases "ys = []")
        (auto simp: insert_into_level_def modify_order_in modify_level_in link_orders_def Let_def
            last_or_null_def hd_or_null_def same_tail)
  next
    case False
    then have lx: "last xs \<noteq> x" "last xs < length ?O" "last xs \<noteq> kNullNode" using x rng by (auto simp: last_in_set)
    have "xs @ ys = butlast xs @ last xs # ys" using False by simp
    with d have n: "ro_next (?O ! last xs) = hd_or_null ys"
      using dseg_neighbours(2) [of "field ro_next ?O" "field ro_prev ?O" kNullNode "lv_head ?lv" "butlast xs" "last xs" ys]
      by (auto simp: hd_or_null_def)
    show ?thesis using False ys l x sc lx n
      by (cases "ys = []")
        (auto simp: insert_into_level_def modify_order_in modify_level_in link_orders_def Let_def
            last_or_null_def hd_or_null_def)
  qed
qed

lemma insert_into_level_exec:
  assumes l: "l < length (slots (levels b))" and x: "x < length (slots (orders b))" "x \<notin> set ns"
    and ok: "level_ok (slots (orders b)) (slots (levels b) ! l) s ns"
    and rng: "\<forall>n\<in>set ns. n < length (slots (orders b)) \<and> n \<noteq> kNullNode"
  shows "\<exists>xs ys. ns = xs @ ys
    \<and> (\<forall>y\<in>set ys. ao_prio (abs_order (slots (orders b) ! x)) (abs_order (slots (orders b) ! y)))
    \<and> (xs \<noteq> [] \<longrightarrow> \<not> ao_prio (abs_order (slots (orders b) ! x)) (abs_order (slots (orders b) ! last xs)))
    \<and> insert_into_level l x b =
       Some (with_slots (link_orders x (last_or_null xs) (hd_or_null ys) (slots (orders b)))
         ((slots (levels b))[l := (slots (levels b) ! l)\<lparr>
             lv_head := (if xs = [] then x else lv_head (slots (levels b) ! l)),
             lv_tail := (if ys = [] then x else lv_tail (slots (levels b) ! l)),
             lv_order_count := lv_order_count (slots (levels b) ! l) + 1\<rparr>]) b)"
proof -
  let ?O = "slots (orders b)" let ?lv = "slots (levels b) ! l"
  from ok have d: "dseg (field ro_next ?O) (field ro_prev ?O) kNullNode (lv_head ?lv) ns (lv_tail ?lv) kNullNode"
    by (simp add: level_ok_def)
  from scan_back_ok [OF d rng, of "ro_seq (?O ! x)" "ro_order_id (?O ! x)"] obtain xs ys where
    ns: "ns = xs @ ys" and
    sc: "scan_back b (ro_seq (?O ! x)) (ro_order_id (?O ! x)) (lv_tail ?lv) = Some (last_or_null xs)" and
    "\<forall>y\<in>set ys. ao_prio (abs_order (?O ! x)) (abs_order (?O ! y))"
    "xs \<noteq> [] \<longrightarrow> \<not> ao_prio (abs_order (?O ! x)) (abs_order (?O ! last xs))"
    by (auto simp: ao_prio_def abs_order_def last_or_null_def)
  with insert_at_exec [OF l x(1) x(2) [unfolded ns] d [unfolded ns] rng [unfolded ns] sc] show ?thesis by blast
qed

lemma unlink_from_level_exec:
  assumes l: "l < length (slots (levels b))"
    and ok: "level_ok (slots (orders b)) (slots (levels b) ! l) s (xs @ x # ys)"
    and rng: "\<forall>n\<in>set (xs @ x # ys). n < length (slots (orders b)) \<and> n \<noteq> kNullNode"
  shows "unlink_from_level l x b =
       Some (with_slots (unlink_orders (last_or_null xs) (hd_or_null ys) (slots (orders b)))
         ((slots (levels b))[l := (slots (levels b) ! l)\<lparr>
             lv_head := (if xs = [] then hd_or_null ys else lv_head (slots (levels b) ! l)),
             lv_tail := (if ys = [] then last_or_null xs else lv_tail (slots (levels b) ! l)),
             lv_order_count := lv_order_count (slots (levels b) ! l) - 1\<rparr>]) b)"
proof -
  let ?O = "slots (orders b)" let ?L = "slots (levels b)" let ?lv = "?L ! l"
  from ok have d: "dseg (field ro_next ?O) (field ro_prev ?O) kNullNode (lv_head ?lv) (xs @ x # ys) (lv_tail ?lv) kNullNode"
    by (simp add: level_ok_def)
  from dseg_neighbours(1,2) [OF d] have nb: "ro_prev (?O ! x) = last_or_null xs" "ro_next (?O ! x) = hd_or_null ys"
    by (auto simp: last_or_null_def hd_or_null_def)
  have "\<forall>n\<in>set xs. n < length ?O \<and> n \<noteq> kNullNode" "\<forall>n\<in>set ys. n < length ?O \<and> n \<noteq> kNullNode"
    "x < length ?O" using rng by auto
  then have "xs = [] \<or> (last xs < length ?O \<and> last xs \<noteq> kNullNode)"
    "ys = [] \<or> (hd ys < length ?O \<and> hd ys \<noteq> kNullNode)" "x < length ?O" by auto
  with nb l show ?thesis
    by (cases "xs = []"; cases "ys = []")
      (auto simp: unlink_from_level_def modify_order_in modify_level_in unlink_orders_def Let_def
        last_or_null_def hd_or_null_def)
qed

definition fresh_level :: "u64 \<Rightarrow> PriceLevel \<Rightarrow> PriceLevel" where
  "fresh_level price lv = lv\<lparr>lv_price_ticks := price, lv_order_count := 0, lv_head := kNullNode,
     lv_tail := kNullNode\<rparr>"

lemma walk_side:
  assumes ok: "side_ok (slots (orders b)) (slots (levels b)) s (side_head s b) ls"
    and rng: "\<forall>k\<in>set (map fst ls). k < length (slots (levels b)) \<and> k \<noteq> kNullNode"
  shows "\<exists>A B found. ls = A @ B
    \<and> walk_levels b s price kNullNode (side_head s b)
        = Some (last_or_null (map fst A), hd_or_null (map fst B), found)
    \<and> (\<forall>k\<in>set (map fst A). price_ranks_first s (lv_price_ticks (slots (levels b) ! k)) price)
    \<and> (if found then B \<noteq> [] \<and> lv_price_ticks (slots (levels b) ! fst (hd B)) = price
       else \<forall>k\<in>set (map fst B). price_ranks_first s price (lv_price_ticks (slots (levels b) ! k)))"
proof -
  let ?L = "slots (levels b)"
  from ok obtain t where
    d: "dseg (field lv_next_level ?L) (field lv_prev_level ?L) kNullNode (side_head s b) (map fst ls) t kNullNode"
    and st: "sorted_wrt (\<lambda>l k. price_ranks_first s (lv_price_ticks (?L ! l)) (lv_price_ticks (?L ! k))) (map fst ls)"
    by (auto simp: side_ok_def)
  from walk_levels_ok [OF d rng, of s price] obtain xs ys m k found where w: "map fst ls = xs @ ys"
    "walk_levels b s price kNullNode (side_head s b) = Some (m, k, found)"
    "dseg (field lv_next_level ?L) (field lv_prev_level ?L) kNullNode (side_head s b) xs m k"
    "dseg (field lv_next_level ?L) (field lv_prev_level ?L) m k ys t kNullNode"
    "\<forall>x\<in>set xs. price_ranks_first s (lv_price_ticks (?L ! x)) price"
    "found \<longleftrightarrow> ys \<noteq> [] \<and> lv_price_ticks (?L ! hd ys) = price"
    "ys \<noteq> [] \<and> \<not> found \<longrightarrow> price_ranks_first s price (lv_price_ticks (?L ! hd ys))"
    by blast
  from w(1) obtain A B where AB: "ls = A @ B" "xs = map fst A" "ys = map fst B"
    by (auto simp: map_eq_append_conv)
  have "price_ranks_first s price (lv_price_ticks (?L ! z))" if z: "z \<in> set ys" and nf: "\<not> found" for z
  proof -
    from z have ne: "ys \<noteq> []" by auto
    with w(7) nf have h: "price_ranks_first s price (lv_price_ticks (?L ! hd ys))" by blast
    from st w(1) have "sorted_wrt (\<lambda>l k. price_ranks_first s (lv_price_ticks (?L ! l)) (lv_price_ticks (?L ! k))) ys"
      by (simp add: sorted_wrt_append)
    with z ne have "z = hd ys \<or> price_ranks_first s (lv_price_ticks (?L ! hd ys)) (lv_price_ticks (?L ! z))"
      by (cases ys) auto
    with h price_ranks_first_trans show ?thesis by blast
  qed
  moreover have "m = last_or_null xs" "k = hd_or_null ys"
    using dseg_last [OF w(3)] dseg_first [OF w(4)] by (auto simp: last_or_null_def hd_or_null_def)
  moreover have "found \<longrightarrow> B \<noteq> [] \<and> lv_price_ticks (?L ! fst (hd B)) = price"
    using w(6) AB by (auto simp: hd_map)
  ultimately show ?thesis using w(2,5) AB by (intro exI [of _ A] exI [of _ B] exI [of _ found]) auto
qed

text \<open>The book after a level was taken from the pool and linked between \<open>xs\<close> and \<open>ys\<close>.\<close>

definition created :: "Side \<Rightarrow> u64 \<Rightarrow> nat list \<Rightarrow> nat list \<Rightarrow> nat \<Rightarrow> PriceLevel FreeListPool \<Rightarrow> OrderBook \<Rightarrow> OrderBook" where
  "created s price xs ys l p b = (if xs = [] then set_side_head s l else id) (b\<lparr>levels := p\<lparr>slots :=
     link_levels l (last_or_null xs) (hd_or_null ys) ((slots (levels b))[l := fresh_level price (slots (levels b) ! l)])\<rparr>\<rparr>)"

lemma create_level_exec:
  assumes pool: "pool_ok (levels b) V" "set (xs @ ys) \<subseteq> V" and nf: "\<not> pool_full (levels b)"
    and w: "walk_levels b s price kNullNode (side_head s b) = Some (last_or_null xs, hd_or_null ys, False)"
  shows "\<exists>l p. pool_acquire (levels b) = Some (l, p) \<and> find_or_create_level s price b = Some (l, created s price xs ys l p b)"
proof -
  let ?L = "slots (levels b)"
  from pool.acquire_fresh [OF pool(1) nf] obtain l p where a: "pool_acquire (levels b) = Some (l, p)"
    "l < pool_capacity (levels b)" "l \<notin> V" "slots p = ?L" by blast
  have l: "l < length ?L" using a(2) by (simp add: pool_capacity_def)
  have "k < length ?L \<and> k \<noteq> kNullNode \<and> k \<noteq> l" if "k \<in> set (xs @ ys)" for k
    using that pool.used_not_null [OF pool(1)] pool(2) a(3) by blast
  from this [of "last xs"] this [of "hd ys"] have "xs = [] \<or> (last xs < length ?L \<and> last xs \<noteq> kNullNode \<and> last xs \<noteq> l)"
    "ys = [] \<or> (hd ys < length ?L \<and> hd ys \<noteq> kNullNode \<and> hd ys \<noteq> l)"
    by (cases "xs = []"; cases "ys = []"; simp)+
  then have "find_or_create_level s price b = Some (l, created s price xs ys l p b)"
    using w nf a(1,4) l by (cases "xs = []"; cases "ys = []")
      (auto simp: created_def find_or_create_level_def modify_level_in link_levels_def Let_def with_slots_def
        set_side_head_def fresh_level_def last_or_null_def hd_or_null_def)
  with a(1) show ?thesis by blast
qed

lemma find_or_create_level_exec:
  assumes ok: "side_ok (slots (orders b)) (slots (levels b)) s (side_head s b) ls"
    and pool: "pool_ok (levels b) V" and V: "set (map fst ls) \<subseteq> V"
  shows "(\<exists>A l ns B. ls = A @ (l, ns) # B \<and> lv_price_ticks (slots (levels b) ! l) = price
            \<and> find_or_create_level s price b = Some (l, b))
    \<or> price \<notin> (\<lambda>k. lv_price_ticks (slots (levels b) ! k)) ` set (map fst ls)
      \<and> (if pool_full (levels b) then find_or_create_level s price b = Some (kNullNode, b)
         else \<exists>A B l p. ls = A @ B \<and> pool_acquire (levels b) = Some (l, p)
          \<and> (\<forall>k\<in>set (map fst A). price_ranks_first s (lv_price_ticks (slots (levels b) ! k)) price)
          \<and> (\<forall>k\<in>set (map fst B). price_ranks_first s price (lv_price_ticks (slots (levels b) ! k)))
          \<and> find_or_create_level s price b = Some (l, created s price (map fst A) (map fst B) l p b))"
proof -
  let ?L = "slots (levels b)"
  have rng: "\<forall>k\<in>set (map fst ls). k < length ?L \<and> k \<noteq> kNullNode"
    using pool.used_not_null [OF pool] V by blast
  from walk_side [OF ok rng, of price] obtain A B found where AB: "ls = A @ B"
    and w: "walk_levels b s price kNullNode (side_head s b)
        = Some (last_or_null (map fst A), hd_or_null (map fst B), found)"
    and A: "\<forall>k\<in>set (map fst A). price_ranks_first s (lv_price_ticks (?L ! k)) price"
    and B: "if found then B \<noteq> [] \<and> lv_price_ticks (?L ! fst (hd B)) = price
       else \<forall>k\<in>set (map fst B). price_ranks_first s price (lv_price_ticks (?L ! k))"
    by blast
  show ?thesis
  proof (cases found)
    case True
    with B obtain l ns C where "B = (l, ns) # C" "lv_price_ticks (?L ! l) = price"
      by (cases B) auto
    with w True AB show ?thesis
      by (intro disjI1 exI [of _ A] exI [of _ l] exI [of _ ns] exI [of _ C])
        (simp add: find_or_create_level_def hd_or_null_def)
  next
    case False
    with B have B': "\<forall>k\<in>set (map fst B). price_ranks_first s price (lv_price_ticks (?L ! k))" by simp
    have new: "price \<notin> (\<lambda>k. lv_price_ticks (?L ! k)) ` set (map fst ls)" using A B' AB by auto
    show ?thesis
    proof (cases "pool_full (levels b)")
      case True
      with w False new show ?thesis by (simp add: find_or_create_level_def)
    next
      case nf: False
      have "set (map fst A @ map fst B) \<subseteq> V" using V AB by simp
      from create_level_exec [OF pool this nf, of s price] w False obtain l p where
        "pool_acquire (levels b) = Some (l, p)"
        "find_or_create_level s price b = Some (l, created s price (map fst A) (map fst B) l p b)" by auto
      with nf new AB A B' show ?thesis by auto
    qed
  qed
qed

lemma remove_level_exec:
  assumes ok: "side_ok (slots (orders b)) (slots (levels b)) s (side_head s b) (A @ (l, ns) # B)"
    and pool: "pool_ok (levels b) V" and V: "set (map fst (A @ (l, ns) # B)) \<subseteq> V"
  shows "\<exists>p. pool_release l (levels b) = Some p \<and> slots p = slots (levels b)
    \<and> remove_level s l b = Some ((if A = [] then set_side_head s (hd_or_null (map fst B)) else id)
        (b\<lparr>levels := p\<lparr>slots := unlink_levels (last_or_null (map fst A)) (hd_or_null (map fst B)) (slots (levels b))\<rparr>\<rparr>))"
proof -
  let ?L = "slots (levels b)"
  have rng: "\<forall>k\<in>set (map fst (A @ (l, ns) # B)). k < length ?L \<and> k \<noteq> kNullNode"
    using pool.used_not_null [OF pool] V by blast
  from ok obtain t where
    d: "dseg (field lv_next_level ?L) (field lv_prev_level ?L) kNullNode (side_head s b) (map fst A @ l # map fst B) t kNullNode"
    by (auto simp: side_ok_def)
  from dseg_neighbours(1,2) [OF d] have nb: "lv_prev_level (?L ! l) = last_or_null (map fst A)"
    "lv_next_level (?L ! l) = hd_or_null (map fst B)"
    by (auto simp: last_or_null_def hd_or_null_def)
  from pool.release_used [OF pool, of l] V obtain p where p: "pool_release l (levels b) = Some p" "slots p = ?L"
    by auto
  have rel: "pool_release l ((levels b)\<lparr>slots := xs\<rparr>) = Some (p\<lparr>slots := xs\<rparr>)" for xs
    using p(1) by (auto simp: pool_release_def split: Option.bind_splits)
  have l: "l < length ?L" using rng by simp
  have "\<forall>k\<in>set (map fst A). k < length ?L \<and> k \<noteq> kNullNode"
    "\<forall>k\<in>set (map fst B). k < length ?L \<and> k \<noteq> kNullNode" using rng by auto
  then have "A = [] \<or> (last (map fst A) < length ?L \<and> last (map fst A) \<noteq> kNullNode)"
    "B = [] \<or> (hd (map fst B) < length ?L \<and> hd (map fst B) \<noteq> kNullNode)"
    by (metis last_in_set map_is_Nil_conv, metis hd_in_set map_is_Nil_conv)
  then have "remove_level s l b = Some ((if A = [] then set_side_head s (hd_or_null (map fst B)) else id)
        (b\<lparr>levels := p\<lparr>slots := unlink_levels (last_or_null (map fst A)) (hd_or_null (map fst B)) ?L\<rparr>\<rparr>))"
    using l nb p rel rel [of ?L]
    by (cases "A = []"; cases "B = []")
      (auto simp: remove_level_def modify_level_in unlink_levels_def Let_def with_slots_def
        set_side_head_def last_or_null_def hd_or_null_def)
  with p show ?thesis by blast
qed

subsection \<open>Preservation\<close>

lemma level_ok_insert:
  assumes ok: "level_ok Os lv s (xs @ ys)" and di: "distinct (xs @ ys)" "x \<notin> set (xs @ ys)" "x < length Os"
    and rng: "\<forall>n\<in>set (x # xs @ ys). n < length Os \<and> n \<noteq> kNullNode"
    and x: "ro_price_ticks (Os ! x) = lv_price_ticks lv" "ro_side (Os ! x) = s"
    and hi: "\<forall>y\<in>set ys. ao_prio (abs_order (Os ! x)) (abs_order (Os ! y))"
    and lo: "xs \<noteq> [] \<longrightarrow> \<not> ao_prio (abs_order (Os ! x)) (abs_order (Os ! last xs))"
  shows "level_ok (link_orders x (last_or_null xs) (hd_or_null ys) Os)
    (lv\<lparr>lv_head := (if xs = [] then x else lv_head lv), lv_tail := (if ys = [] then x else lv_tail lv),
        lv_order_count := lv_order_count lv + 1\<rparr>) s (xs @ x # ys)"
proof -
  let ?m = "last_or_null xs" let ?k = "hd_or_null ys"
  have xs: "\<forall>n\<in>set xs. n < length Os \<and> n \<noteq> kNullNode" and ys: "\<forall>n\<in>set ys. n < length Os \<and> n \<noteq> kNullNode"
    using rng by auto
  have ne: "?m \<noteq> x" "?k \<noteq> x" using di rng by (auto simp: last_or_null_def hd_or_null_def)
  note fl = link_orders_fields [of x Os ?m ?k]
  from ok obtain m k where
    d: "dseg (field ro_next Os) (field ro_prev Os) kNullNode (lv_head lv) xs m k"
       "dseg (field ro_next Os) (field ro_prev Os) m k ys (lv_tail lv) kNullNode"
    unfolding level_ok_def dseg_append by blast
  have mk: "m = ?m" "k = ?k" using dseg_last [OF d(1)] dseg_first [OF d(2)]
    by (auto simp: last_or_null_def hd_or_null_def)
  have "dseg (field ro_next (link_orders x ?m ?k Os)) (field ro_prev (link_orders x ?m ?k Os)) kNullNode
      (if xs = [] then x else lv_head lv) (xs @ x # ys) (if ys = [] then x else lv_tail lv) kNullNode"
    by (rule dseg_insert [OF d di(1,2)])
      (use fl di(3) ne null_or_member [OF xs] null_or_member [OF ys] mk in auto)
  moreover have "\<not> ao_prio (abs_order (Os ! x)) (abs_order (Os ! y))" if y: "y \<in> set xs" for y
  proof -
    from y have n0: "xs \<noteq> []" by auto
    then have "xs = butlast xs @ [last xs]" by simp
    with y have "y = last xs \<or> y \<in> set (butlast xs)" by (metis UnE empty_iff list.set(1) set_ConsD set_append)
    moreover have "sorted_wrt (\<lambda>m n. \<not> ao_prio (abs_order (Os ! n)) (abs_order (Os ! m))) (butlast xs @ [last xs])"
      using ok n0 by (simp add: level_ok_def sorted_wrt_append)
    ultimately have "y = last xs \<or> \<not> ao_prio (abs_order (Os ! last xs)) (abs_order (Os ! y))"
      by (auto simp: sorted_wrt_append)
    with lo n0 ao_prio_neg_trans show ?thesis by blast
  qed
  moreover have "\<not> ao_prio (abs_order (Os ! y)) (abs_order (Os ! x))" if "y \<in> set ys" for y
    using hi that ao_prio_asym by blast
  ultimately show ?thesis using ok x by (auto simp: level_ok_def sorted_wrt_append)
qed

lemma level_ok_remove:
  assumes ok: "level_ok Os lv s (xs @ x # ys)" and di: "distinct (xs @ x # ys)"
    and rng: "\<forall>n\<in>set (xs @ x # ys). n < length Os \<and> n \<noteq> kNullNode"
  shows "level_ok (unlink_orders (last_or_null xs) (hd_or_null ys) Os)
    (lv\<lparr>lv_head := (if xs = [] then hd_or_null ys else lv_head lv),
        lv_tail := (if ys = [] then last_or_null xs else lv_tail lv),
        lv_order_count := lv_order_count lv - 1\<rparr>) s (xs @ ys)"
proof -
  let ?m = "last_or_null xs" let ?k = "hd_or_null ys"
  have xs: "\<forall>n\<in>set xs. n < length Os \<and> n \<noteq> kNullNode" and ys: "\<forall>n\<in>set ys. n < length Os \<and> n \<noteq> kNullNode"
    using rng by auto
  note fl = unlink_orders_fields [of Os ?m ?k]
  from ok have d: "dseg (field ro_next Os) (field ro_prev Os) kNullNode (lv_head lv) (xs @ x # ys) (lv_tail lv) kNullNode"
    by (simp add: level_ok_def)
  from dseg_neighbours(1,2) [OF d] have nb: "field ro_prev Os x = ?m" "field ro_next Os x = ?k"
    by (auto simp: last_or_null_def hd_or_null_def)
  have "dseg (field ro_next (unlink_orders ?m ?k Os)) (field ro_prev (unlink_orders ?m ?k Os)) kNullNode
      (if xs = [] then field ro_next Os x else lv_head lv) (xs @ ys) (if ys = [] then field ro_prev Os x else lv_tail lv) kNullNode"
    by (rule dseg_remove [OF d di])
      (use fl null_or_member [OF xs] null_or_member [OF ys] nb in auto)
  with ok nb show ?thesis by (auto simp: level_ok_def sorted_wrt_append)
qed

lemma side_ok_cong:
  assumes "\<And>n. n \<in> set (nodes_of ls) \<Longrightarrow> Os' ! n = Os ! n" "\<And>l. l \<in> set (map fst ls) \<Longrightarrow> Ls' ! l = Ls ! l"
  shows "side_ok Os' Ls' s h ls = side_ok Os Ls s h ls"
proof -
  have "dseg (field lv_next_level Ls') (field lv_prev_level Ls') p h (map fst ls) t n
      = dseg (field lv_next_level Ls) (field lv_prev_level Ls) p h (map fst ls) t n" for p t n
    using assms(2) by (intro dseg_cong) simp
  moreover have "sorted_wrt (\<lambda>l k. price_ranks_first s (lv_price_ticks (Ls' ! l)) (lv_price_ticks (Ls' ! k))) (map fst ls)
      = sorted_wrt (\<lambda>l k. price_ranks_first s (lv_price_ticks (Ls ! l)) (lv_price_ticks (Ls ! k))) (map fst ls)"
    using assms(2) by (intro sorted_wrt_eq) simp
  moreover have "level_ok Os' (Ls' ! l) s ns = level_ok Os (Ls ! l) s ns" if "(l, ns) \<in> set ls" for l ns
  proof -
    have "Ls' ! l = Ls ! l" using assms(2) that by force
    moreover have "level_ok Os' (Ls ! l) s ns = level_ok Os (Ls ! l) s ns"
      using assms(1) that by (intro level_ok_cong) force
    ultimately show ?thesis by simp
  qed
  ultimately show ?thesis unfolding side_ok_def by (auto 4 4)
qed

text \<open>Replacing one level of a side, its place in the list of levels untouched.\<close>

lemma side_ok_update_level:
  assumes ok: "side_ok Os Ls s h (A @ (l, ns) # B)" and di: "distinct (map fst (A @ (l, ns) # B))"
    and l: "l < length Ls" and lv: "level_ok Os' lv s ns'"
    and same: "lv_price_ticks lv = lv_price_ticks (Ls ! l)" "lv_next_level lv = lv_next_level (Ls ! l)"
      "lv_prev_level lv = lv_prev_level (Ls ! l)"
    and frame: "\<And>n. n \<in> set (nodes_of (A @ B)) \<Longrightarrow> Os' ! n = Os ! n"
  shows "side_ok Os' (Ls[l := lv]) s h (A @ (l, ns') # B)"
proof -
  have f: "field lv_next_level (Ls[l := lv]) = field lv_next_level Ls"
    "field lv_prev_level (Ls[l := lv]) = field lv_prev_level Ls"
    "(\<lambda>k. lv_price_ticks (Ls[l := lv] ! k)) = (\<lambda>k. lv_price_ticks (Ls ! k))"
    using l same by (auto simp: fun_eq_iff nth_update_cases)
  have "level_ok Os' (Ls[l := lv] ! k) s ms" if k: "(k, ms) \<in> set (A @ (l, ns') # B)" for k ms
  proof (cases "(k, ms) = (l, ns')")
    case True
    with lv l show ?thesis by simp
  next
    case False
    with k have k': "(k, ms) \<in> set (A @ B)" by auto
    with di have "k \<noteq> l" by force
    moreover have "level_ok Os (Ls ! k) s ms" using ok k' by (auto simp: side_ok_def)
    moreover have "level_ok Os' (Ls ! k) s ms = level_ok Os (Ls ! k) s ms"
      using frame k' by (intro level_ok_cong) force
    ultimately show ?thesis by simp
  qed
  moreover have "\<exists>t. dseg (field lv_next_level (Ls[l := lv])) (field lv_prev_level (Ls[l := lv])) kNullNode h
      (map fst (A @ (l, ns') # B)) t kNullNode"
    using ok f by (simp add: side_ok_def)
  moreover have "sorted_wrt (\<lambda>i k. price_ranks_first s (lv_price_ticks (Ls[l := lv] ! i)) (lv_price_ticks (Ls[l := lv] ! k)))
      (map fst (A @ (l, ns') # B))"
    using ok fun_cong [OF f(3)] by (simp add: side_ok_def)
  ultimately show ?thesis unfolding side_ok_def by blast
qed

lemma side_ok_relink:
  assumes ok: "side_ok Os Ls s h ls"
    and d: "dseg (field lv_next_level Ls') (field lv_prev_level Ls') kNullNode h' (map fst ls') t kNullNode"
    and st: "sorted_wrt (\<lambda>i k. price_ranks_first s (lv_price_ticks (Ls' ! i)) (lv_price_ticks (Ls' ! k))) (map fst ls')"
    and data: "\<And>k ms. (k, ms) \<in> set ls' \<Longrightarrow>
      (k, ms) \<in> set ls \<and> same_level_data (Ls' ! k) (Ls ! k) \<or> level_ok Os (Ls' ! k) s ms"
  shows "side_ok Os Ls' s h' ls'"
proof -
  have "level_ok Os (Ls' ! k) s ms" if k: "(k, ms) \<in> set ls'" for k ms
    using data [OF k] ok by (auto simp: side_ok_def level_ok_same_data)
  with d st show ?thesis unfolding side_ok_def by blast
qed

lemma same_level_data_price: "same_level_data a b \<Longrightarrow> lv_price_ticks a = lv_price_ticks b"
  by (simp add: same_level_data_def)

lemma link_prices [simp]:
  "lv_price_ticks (link_levels x m k Ls ! i) = lv_price_ticks (Ls ! i)"
  "lv_price_ticks (unlink_levels m k Ls ! i) = lv_price_ticks (Ls ! i)"
  by (rule same_level_data_price, simp)+

lemma sorted_splice_key:
  assumes "sorted_wrt (\<lambda>i k. R (p i) (p k)) (as @ bs)" "l \<notin> set (as @ bs)"
    "\<forall>i\<in>set as. R (p i) v" "\<forall>i\<in>set bs. R v (p i)" "\<And>i. q i = (if i = l then v else p i)"
  shows "sorted_wrt (\<lambda>i k. R (q i) (q k)) (as @ l # bs)"
proof -
  have "\<And>i. i \<in> set as \<union> set bs \<Longrightarrow> q i = p i" "q l = v" using assms(2,5) by auto
  then have "sorted_wrt (\<lambda>i k. R (q i) (q k)) as = sorted_wrt (\<lambda>i k. R (p i) (p k)) as"
    "sorted_wrt (\<lambda>i k. R (q i) (q k)) bs = sorted_wrt (\<lambda>i k. R (p i) (p k)) bs"
    by (auto intro!: sorted_wrt_eq)
  with assms(1,3,4) \<open>\<And>i. i \<in> set as \<union> set bs \<Longrightarrow> q i = p i\<close> \<open>q l = v\<close> show ?thesis
    by (simp add: sorted_wrt_append)
qed

lemma link_levels_dseg:
  assumes d: "dseg (field lv_next_level Ls) (field lv_prev_level Ls) p h (xs @ ys) t q" "p = kNullNode" "q = kNullNode"
    and di: "distinct (xs @ ys)" "l \<notin> set (xs @ ys)" and l: "l < length Ls" "l \<noteq> kNullNode"
    and rng: "\<forall>k\<in>set (xs @ ys). k < length Ls \<and> k \<noteq> kNullNode"
  defines "Ls' \<equiv> link_levels l (last_or_null xs) (hd_or_null ys) Ls"
  shows "dseg (field lv_next_level Ls') (field lv_prev_level Ls') kNullNode (if xs = [] then l else h)
    (xs @ l # ys) (if ys = [] then l else t) kNullNode"
proof -
  from d obtain m k where
    d2: "dseg (field lv_next_level Ls) (field lv_prev_level Ls) kNullNode h xs m k"
       "dseg (field lv_next_level Ls) (field lv_prev_level Ls) m k ys t kNullNode"
    unfolding dseg_append by blast
  have mk: "m = last_or_null xs" "k = hd_or_null ys" using dseg_last [OF d2(1)] dseg_first [OF d2(2)]
    by (auto simp: last_or_null_def hd_or_null_def)
  have "last_or_null xs \<noteq> l" using di l by (cases xs rule: rev_cases) (auto simp: last_or_null_def)
  moreover have "hd_or_null ys \<noteq> l" using di l by (cases ys) (auto simp: hd_or_null_def)
  moreover have "\<forall>n\<in>set xs. n < length Ls \<and> n \<noteq> kNullNode" "\<forall>n\<in>set ys. n < length Ls \<and> n \<noteq> kNullNode" using rng by auto
  note r = this [THEN null_or_member]
  ultimately show ?thesis unfolding Ls'_def
    by (intro dseg_insert [OF d2]) (use link_levels_fields [of l Ls "last_or_null xs" "hd_or_null ys"] di l r mk in auto)
qed

lemma side_ok_insert_level:
  assumes ok: "side_ok Os Ls s h (A @ B)" and di: "distinct (map fst (A @ B))" "l \<notin> set (map fst (A @ B))"
    and l: "l < length Ls" "l \<noteq> kNullNode"
    and rng: "\<forall>k\<in>set (map fst (A @ B)). k < length Ls \<and> k \<noteq> kNullNode"
    and hi: "\<forall>k\<in>set (map fst A). price_ranks_first s (lv_price_ticks (Ls ! k)) price"
    and lo: "\<forall>k\<in>set (map fst B). price_ranks_first s price (lv_price_ticks (Ls ! k))"
  shows "side_ok Os (link_levels l (last_or_null (map fst A)) (hd_or_null (map fst B)) (Ls[l := fresh_level price (Ls ! l)]))
    s (if A = [] then l else h) (A @ (l, []) # B)"
proof -
  let ?L1 = "Ls[l := fresh_level price (Ls ! l)]"
  let ?L2 = "link_levels l (last_or_null (map fst A)) (hd_or_null (map fst B)) ?L1"
  have f1: "field lv_next_level ?L1 = field lv_next_level Ls" "field lv_prev_level ?L1 = field lv_prev_level Ls"
    by (auto simp: fun_eq_iff nth_update_cases fresh_level_def)
  from ok obtain t where
    "dseg (field lv_next_level ?L1) (field lv_prev_level ?L1) kNullNode h (map fst A @ map fst B) t kNullNode"
    unfolding side_ok_def f1 map_append by blast
  from link_levels_dseg [OF this refl refl, of l] di l rng
  have d: "dseg (field lv_next_level ?L2) (field lv_prev_level ?L2) kNullNode
      (if A = [] then l else h) (map fst (A @ (l, []) # B)) (if map fst B = [] then l else t) kNullNode" by simp
  have p: "lv_price_ticks (?L2 ! i) = (if i = l then price else lv_price_ticks (Ls ! i))" for i
    using l by (simp add: nth_update_cases fresh_level_def)
  show ?thesis
  proof (rule side_ok_relink [OF ok d])
    have "sorted_wrt (\<lambda>i k. price_ranks_first s (lv_price_ticks (Ls ! i)) (lv_price_ticks (Ls ! k))) (map fst A @ map fst B)"
      using ok by (simp add: side_ok_def)
    from sorted_splice_key [of "price_ranks_first s" "\<lambda>i. lv_price_ticks (Ls ! i)", OF this _ hi lo p]
    show "sorted_wrt (\<lambda>i k. price_ranks_first s (lv_price_ticks (?L2 ! i)) (lv_price_ticks (?L2 ! k)))
        (map fst (A @ (l, []) # B))"
      using di by simp
  next
    fix k ms assume k: "(k, ms) \<in> set (A @ (l, []) # B)"
    have same: "same_level_data (?L2 ! k) (?L1 ! k)" by simp
    show "(k, ms) \<in> set (A @ B) \<and> same_level_data (?L2 ! k) (Ls ! k) \<or> level_ok Os (?L2 ! k) s ms"
    proof (cases "k = l")
      case True
      with k di have "ms = []" by force
      with True l same show ?thesis by (auto simp: level_ok_def same_level_data_def fresh_level_def)
    qed (use k same in auto)
  qed
qed

lemma side_ok_remove_level:
  assumes ok: "side_ok Os Ls s h (A @ (l, ns) # B)" and di: "distinct (map fst (A @ (l, ns) # B))"
    and rng: "\<forall>k\<in>set (map fst (A @ (l, ns) # B)). k < length Ls \<and> k \<noteq> kNullNode"
  shows "side_ok Os (unlink_levels (last_or_null (map fst A)) (hd_or_null (map fst B)) Ls) s
    (if A = [] then hd_or_null (map fst B) else h) (A @ B)"
proof -
  let ?m = "last_or_null (map fst A)" let ?k = "hd_or_null (map fst B)" let ?L2 = "unlink_levels ?m ?k Ls"
  have A: "\<forall>n\<in>set (map fst A). n < length Ls \<and> n \<noteq> kNullNode"
    and B: "\<forall>n\<in>set (map fst B). n < length Ls \<and> n \<noteq> kNullNode"
    using rng by auto
  note fl = unlink_levels_fields [of Ls ?m ?k]
  from ok obtain t where
    d: "dseg (field lv_next_level Ls) (field lv_prev_level Ls) kNullNode h (map fst A @ l # map fst B) t kNullNode"
    by (auto simp: side_ok_def)
  from dseg_neighbours(1,2) [OF d] have nb: "field lv_prev_level Ls l = ?m" "field lv_next_level Ls l = ?k"
    by (auto simp: last_or_null_def hd_or_null_def)
  have "dseg (field lv_next_level ?L2) (field lv_prev_level ?L2) kNullNode
      (if map fst A = [] then field lv_next_level Ls l else h) (map fst A @ map fst B)
      (if map fst B = [] then field lv_prev_level Ls l else t) kNullNode"
    by (rule dseg_remove [OF d])
      (use di fl null_or_member [OF A] null_or_member [OF B] nb in auto)
  then have d': "dseg (field lv_next_level ?L2) (field lv_prev_level ?L2) kNullNode
      (if A = [] then ?k else h) (map fst (A @ B)) (if map fst B = [] then ?m else t) kNullNode"
    unfolding nb by simp
  show ?thesis
    by (rule side_ok_relink [OF ok d']) (use ok in \<open>auto simp: side_ok_def sorted_wrt_append\<close>)
qed

end
