(* ===== verification/Book_Operations.thy ===== *)
theory Book_Operations
  imports Book_Links
begin

text \<open>
  The order book implements the abstract book: every operation keeps the representation invariant
  and acts on the two priority lists the way the specification says.
\<close>

definition opposite :: "Side \<Rightarrow> Side" where
  "opposite s = (case s of Buy \<Rightarrow> Sell | Sell \<Rightarrow> Buy)"

lemma opposite_simps [simp]: "opposite s \<noteq> s" "s \<noteq> opposite s" "opposite (opposite s) = s"
  by (cases s; simp add: opposite_def)+

lemma all_sides: "(\<forall>s'. P s') \<longleftrightarrow> P s \<and> P (opposite s)"
  by (metis (full_types) Side.exhaust opposite_simps(1))

lemma shape_split:
  "set (shape_nodes sh) = set (nodes_of (sh s)) \<union> set (nodes_of (sh (opposite s)))"
  "set (shape_levels sh) = set (map fst (sh s)) \<union> set (map fst (sh (opposite s)))"
  "distinct (shape_nodes sh) \<longleftrightarrow> distinct (nodes_of (sh s)) \<and> distinct (nodes_of (sh (opposite s)))
     \<and> set (nodes_of (sh s)) \<inter> set (nodes_of (sh (opposite s))) = {}"
  "distinct (shape_levels sh) \<longleftrightarrow> distinct (map fst (sh s)) \<and> distinct (map fst (sh (opposite s)))
     \<and> set (map fst (sh s)) \<inter> set (map fst (sh (opposite s))) = {}"
  by (cases s; auto simp: shape_nodes_def shape_levels_def opposite_def)+

lemma book_links_update:
  assumes ok: "book_links b sh"
    and side: "side_ok (slots (orders b')) (slots (levels b')) s (side_head s b') ls'"
    and di: "distinct (nodes_of ls')" "distinct (map fst ls')"
      "set (nodes_of ls') \<inter> set (nodes_of (sh (opposite s))) = {}"
      "set (map fst ls') \<inter> set (map fst (sh (opposite s))) = {}"
    and frame: "\<And>n. n \<in> set (nodes_of (sh (opposite s))) \<Longrightarrow> slots (orders b') ! n = slots (orders b) ! n"
      "\<And>l. l \<in> set (map fst (sh (opposite s))) \<Longrightarrow> slots (levels b') ! l = slots (levels b) ! l"
      "side_head (opposite s) b' = side_head (opposite s) b"
  shows "book_links b' (sh(s := ls'))"
proof -
  have "side_ok (slots (orders b')) (slots (levels b')) (opposite s) (side_head (opposite s) b') (sh (opposite s))"
    unfolding frame(3) using side_ok_cong [OF frame(1,2)] ok by (simp add: book_links_def)
  with ok side di show ?thesis
    unfolding book_links_def all_sides [of _ s] shape_split(3,4) [of _ s] by simp
qed

lemma no_empty_level_upd:
  "no_empty_level (sh(s := ls)) \<longleftrightarrow> (\<forall>(l, ns)\<in>set ls. ns \<noteq> []) \<and> (\<forall>(l, ns)\<in>set (sh (opposite s)). ns \<noteq> [])"
  unfolding no_empty_level_def all_sides [of _ s] by simp

lemma abs_book_upd:
  assumes "\<And>n. n \<in> set (nodes_of (sh (opposite s))) \<Longrightarrow>
      abs_order (slots (orders b') ! n) = abs_order (slots (orders b) ! n)"
  shows "abs_book b' (sh(s := ls')) = (abs_book b sh)(s := abs_side (slots (orders b')) ls')"
proof
  fix s' show "abs_book b' (sh(s := ls')) s' = ((abs_book b sh)(s := abs_side (slots (orders b')) ls')) s'"
    using assms by (cases "s' = s"; cases s; cases s') (auto simp: abs_book_def abs_side_def opposite_def)
qed

text \<open>The order of the nodes of a side is the order of the specification.\<close>

lemma side_node_price:
  "side_ok Os Ls s h ls \<Longrightarrow> (l, ns) \<in> set ls \<Longrightarrow> n \<in> set ns \<Longrightarrow> ro_price_ticks (Os ! n) = lv_price_ticks (Ls ! l)"
  "side_ok Os Ls s h ls \<Longrightarrow> (l, ns) \<in> set ls \<Longrightarrow> n \<in> set ns \<Longrightarrow> ro_side (Os ! n) = s"
  by (fastforce simp: side_ok_def level_ok_def)+

lemma side_nodes_around:
  assumes "side_ok Os Ls s h (A @ (l, ns) # B)"
  shows "n \<in> set (nodes_of A) \<Longrightarrow> price_ranks_first s (ro_price_ticks (Os ! n)) (lv_price_ticks (Ls ! l))"
    and "n \<in> set (nodes_of B) \<Longrightarrow> price_ranks_first s (lv_price_ticks (Ls ! l)) (ro_price_ticks (Os ! n))"
proof -
  have st: "sorted_wrt (\<lambda>l k. price_ranks_first s (lv_price_ticks (Ls ! l)) (lv_price_ticks (Ls ! k)))
      (map fst A @ l # map fst B)"
    using assms by (simp add: side_ok_def)
  { assume "n \<in> set (nodes_of A)"
    then obtain k ms where k: "(k, ms) \<in> set A" "n \<in> set ms" by auto
    then have "price_ranks_first s (lv_price_ticks (Ls ! k)) (lv_price_ticks (Ls ! l))"
      using st by (force simp: sorted_wrt_append)
    moreover have "ro_price_ticks (Os ! n) = lv_price_ticks (Ls ! k)"
      using side_node_price(1) [OF assms, of k ms n] k by auto
    ultimately show "price_ranks_first s (ro_price_ticks (Os ! n)) (lv_price_ticks (Ls ! l))" by simp }
  { assume "n \<in> set (nodes_of B)"
    then obtain k ms where k: "(k, ms) \<in> set B" "n \<in> set ms" by auto
    then have "price_ranks_first s (lv_price_ticks (Ls ! l)) (lv_price_ticks (Ls ! k))"
      using st by (force simp: sorted_wrt_append)
    moreover have "ro_price_ticks (Os ! n) = lv_price_ticks (Ls ! k)"
      using side_node_price(1) [OF assms, of k ms n] k by auto
    ultimately show "price_ranks_first s (lv_price_ticks (Ls ! l)) (ro_price_ticks (Os ! n))" by simp }
qed

lemma abs_side_sorted:
  assumes ok: "side_ok Os Ls s h ls"
  shows "priority_sorted s (abs_side Os ls)"
proof -
  let ?R = "\<lambda>m n. \<not> ao_before s (abs_order (Os ! n)) (abs_order (Os ! m))"
  have "sorted_wrt ?R (nodes_of C)" if "ls = D @ C" for D C
    using that
  proof (induction C arbitrary: D)
    case (Cons x C)
    obtain l ns where x: "x = (l, ns)" by (cases x)
    with Cons.prems ok have ok': "side_ok Os Ls s h (D @ (l, ns) # C)" by simp
    have price: "ro_price_ticks (Os ! n) = lv_price_ticks (Ls ! l)" if "n \<in> set ns" for n
      using side_node_price(1) [OF ok', of l ns n] that by simp
    have "sorted_wrt (\<lambda>m n. \<not> ao_prio (abs_order (Os ! n)) (abs_order (Os ! m))) ns"
      using ok' by (auto simp: side_ok_def level_ok_def)
    then have "sorted_wrt ?R ns"
      by (rule sorted_wrt_mono_rel [rotated]) (auto simp: ao_before_def abs_order_def price)
    moreover have "?R m n" if "m \<in> set ns" "n \<in> set (nodes_of C)" for m n
      using side_nodes_around(2) [OF ok' that(2)] price [OF that(1)] price_ranks_first_asym
      by (fastforce simp: ao_before_def abs_order_def)
    moreover have "sorted_wrt ?R (nodes_of C)" using Cons.IH [of "D @ [x]"] Cons.prems by simp
    ultimately show ?case unfolding x list.map concat.simps sorted_wrt_append snd_conv by blast
  qed simp
  from this [of "[]" ls] show ?thesis by (simp add: priority_sorted_def abs_side_def sorted_wrt_map)
qed

lemma side_prices:
  assumes ok: "side_ok Os Ls s h ls" and ne: "\<forall>(l, ns)\<in>set ls. ns \<noteq> []"
  shows "a_prices (abs_side Os ls) = (\<lambda>k. lv_price_ticks (Ls ! k)) ` set (map fst ls)"
    and "card (a_prices (abs_side Os ls)) = length ls"
proof -
  have p: "ro_price_ticks ` (\<lambda>n. Os ! n) ` set ns = {lv_price_ticks (Ls ! l)}" if "(l, ns) \<in> set ls" for l ns
    using side_node_price(1) [OF ok that] ne that by (cases ns) (auto simp: image_image)
  have "a_prices (abs_side Os ls) = (\<Union>(l, ns)\<in>set ls. ro_price_ticks ` (\<lambda>n. Os ! n) ` set ns)"
    by (force simp: a_prices_def abs_side_def abs_order_def)
  also have "\<dots> = (\<Union>(l, ns)\<in>set ls. {lv_price_ticks (Ls ! l)})"
    by (intro SUP_cong refl) (use p side_node_price(1) [OF ok] in auto)
  also have "\<dots> = (\<lambda>k. lv_price_ticks (Ls ! k)) ` set (map fst ls)" by force
  finally show e: "a_prices (abs_side Os ls) = (\<lambda>k. lv_price_ticks (Ls ! k)) ` set (map fst ls)" .
  have "sorted_wrt (\<lambda>l k. price_ranks_first s (lv_price_ticks (Ls ! l)) (lv_price_ticks (Ls ! k))) (map fst ls)"
    using ok by (simp add: side_ok_def)
  then have "distinct (map (\<lambda>k. lv_price_ticks (Ls ! k)) (map fst ls))"
    by (induction "map fst ls" arbitrary: ls) (fastforce simp: map_eq_Cons_conv)+
  from distinct_card [OF this] show "card (a_prices (abs_side Os ls)) = length ls"
    unfolding e by (simp add: image_image)
qed

subsection \<open>Inserting\<close>

lemma book_ranges:
  assumes "book_pools b (set (shape_nodes sh)) (set (shape_levels sh))"
  shows "\<forall>n\<in>set (nodes_of (sh s)). n < length (slots (orders b)) \<and> n \<noteq> kNullNode"
    and "\<forall>l\<in>set (map fst (sh s)). l < length (slots (levels b)) \<and> l \<noteq> kNullNode"
  using assms pool.used_not_null [of "orders b" "set (shape_nodes sh)"]
    pool.used_not_null [of "levels b" "set (shape_levels sh)"]
  unfolding book_pools_def shape_split(1,2) [of sh s] by blast+

lemma insert_abs_side:
  assumes ok: "side_ok Os Ls s h (A @ (l, xs @ ys) # B)" and x: "ro_price_ticks (Os ! x) = lv_price_ticks (Ls ! l)"
    and hi: "\<forall>y\<in>set ys. ao_prio (abs_order (Os ! x)) (abs_order (Os ! y))"
    and lo: "xs \<noteq> [] \<longrightarrow> \<not> ao_prio (abs_order (Os ! x)) (abs_order (Os ! last xs))"
  shows "abs_side Os (A @ (l, xs @ x # ys) # B) = a_insert s (abs_order (Os ! x)) (abs_side Os (A @ (l, xs @ ys) # B))"
proof -
  let ?f = "\<lambda>n. abs_order (Os ! n)"
  have px: "ao_price (?f x) = lv_price_ticks (Ls ! l)" using x by (simp add: abs_order_def)
  have pn: "ao_price (?f n) = lv_price_ticks (Ls ! l)" if "n \<in> set (xs @ ys)" for n
    using side_node_price(1) [OF ok, of l "xs @ ys" n] that by (simp add: abs_order_def)
  have sorted: "priority_sorted s (map ?f (nodes_of A @ xs))"
    using abs_side_sorted [OF ok] by (simp add: abs_side_def priority_sorted_append)
  have A: "\<not> ao_before s (?f x) (?f n)" if "n \<in> set (nodes_of A)" for n
    using side_nodes_around(1) [OF ok that] px price_ranks_first_asym
    by (fastforce simp: ao_before_def abs_order_def)
  have X: "\<not> ao_before s (?f x) (?f n)" if n: "n \<in> set xs" for n
  proof -
    from n have n0: "xs \<noteq> []" by auto
    then have "\<not> ao_before s (?f x) (?f (last xs))"
      using lo px pn [of "last xs"] by (simp add: ao_before_def)
    moreover have "n = last xs \<or> \<not> ao_before s (?f (last xs)) (?f n)"
    proof (cases xs rule: rev_cases)
      case (snoc zs z)
      with n sorted show ?thesis by (auto simp: priority_sorted_append)
    qed (use n0 in simp)
    ultimately show ?thesis using ao_before_neg_trans by blast
  qed
  have Y: "ao_before s (?f x) (?f n)" if "n \<in> set (ys @ nodes_of B)" for n
  proof (cases "n \<in> set ys")
    case True
    with hi px pn [of n] show ?thesis by (simp add: ao_before_def)
  next
    case False
    with that have "n \<in> set (nodes_of B)" by simp
    from side_nodes_around(2) [OF ok this] px show ?thesis by (simp add: ao_before_def abs_order_def)
  qed
  have "a_insert s (?f x) (map ?f (nodes_of A @ xs) @ map ?f (ys @ nodes_of B))
      = map ?f (nodes_of A @ xs) @ ?f x # map ?f (ys @ nodes_of B)"
  proof (rule a_insert_split)
    show "y \<in> set (map ?f (nodes_of A @ xs)) \<Longrightarrow> \<not> ao_before s (?f x) y" for y using A X by auto
    show "map ?f (ys @ nodes_of B) \<noteq> [] \<Longrightarrow> ao_before s (?f x) (hd (map ?f (ys @ nodes_of B)))"
      using Y by (metis hd_in_set list.map_sel(1) map_is_Nil_conv)
  qed
  then show ?thesis by (simp add: abs_side_def)
qed

text \<open>Linking an acquired slot \<open>x\<close> that holds the new order's data into level \<open>l\<close> of side \<open>s\<close>.\<close>

lemma null_or_notin: "k \<notin> set xs \<Longrightarrow> k \<noteq> kNullNode \<Longrightarrow> k \<noteq> last_or_null xs \<and> k \<noteq> hd_or_null xs"
  by (auto simp: last_or_null_def hd_or_null_def)

text \<open>What the links of a book say of one side.\<close>

lemma links_side:
  assumes "book_links b sh" "sh s = ls"
  shows "side_ok (slots (orders b)) (slots (levels b)) s (side_head s b) ls"
    "distinct (nodes_of ls)" "distinct (map fst ls)"
    "set (nodes_of ls) \<inter> set (nodes_of (sh (opposite s))) = {}"
    "set (map fst ls) \<inter> set (map fst (sh (opposite s))) = {}"
  using assms unfolding book_links_def shape_split(3,4) [of sh s] by blast+

text \<open>Changing the orders of one level: enough that the level is well-formed and no other order moved.\<close>

lemma book_links_one_level:
  assumes links: "book_links b sh" and sh: "sh s = A @ (l, ns) # B" and l: "l < length (slots (levels b))"
    and lv: "level_ok Os lv s ns'"
    and same: "lv_price_ticks lv = lv_price_ticks (slots (levels b) ! l)" "lv_next_level lv = lv_next_level (slots (levels b) ! l)"
      "lv_prev_level lv = lv_prev_level (slots (levels b) ! l)"
    and frame: "\<And>n. n \<in> set (shape_nodes sh) - set ns \<Longrightarrow> Os ! n = slots (orders b) ! n"
    and ns': "distinct ns'" "set ns' \<inter> (set (shape_nodes sh) - set ns) = {}" and len: "length Os = length (slots (orders b))"
  shows "book_links (with_slots Os ((slots (levels b))[l := lv]) b) (sh(s := A @ (l, ns') # B))"
proof -
  note S = links_side [OF links sh]
  let ?b = "with_slots Os ((slots (levels b))[l := lv]) b"
  have out: "set (nodes_of (A @ B)) \<union> set (nodes_of (sh (opposite s))) \<subseteq> set (shape_nodes sh) - set ns"
    using S(2,4) unfolding shape_split(1) [of sh s] sh by auto
  have "side_ok Os ((slots (levels b))[l := lv]) s (side_head s b) (A @ (l, ns') # B)"
    by (rule side_ok_update_level [OF S(1,3) l lv same]) (use frame out in blast)
  then have "side_ok (slots (orders ?b)) (slots (levels ?b)) s (side_head s ?b) (A @ (l, ns') # B)" by simp
  moreover have d: "set ns' \<inter> set (nodes_of (A @ B)) = {}" "set ns' \<inter> set (nodes_of (sh (opposite s))) = {}" using ns'(2) out by blast+
  ultimately show ?thesis
  proof (intro book_links_update [OF links])
    show "distinct (nodes_of (A @ (l, ns') # B))" using S(2) ns'(1) d(1) by auto
    show "distinct (map fst (A @ (l, ns') # B))" using S(3) by simp
    show "set (nodes_of (A @ (l, ns') # B)) \<inter> set (nodes_of (sh (opposite s))) = {}" using S(4) d(2) by auto
    show "set (map fst (A @ (l, ns') # B)) \<inter> set (map fst (sh (opposite s))) = {}" using S(5) by simp
    show "k \<in> set (map fst (sh (opposite s))) \<Longrightarrow> slots (levels ?b) ! k = slots (levels b) ! k" for k
      using S(5) by (cases "k = l") auto
  qed (use frame out in auto)
qed

lemma insert_into_level_links:
  assumes links: "book_links b sh" and rngN: "\<forall>n\<in>set (shape_nodes sh). n < length (slots (orders b)) \<and> n \<noteq> kNullNode"
    and rngL: "\<forall>l\<in>set (shape_levels sh). l < length (slots (levels b)) \<and> l \<noteq> kNullNode"
    and sh: "sh s = A @ (l, ns) # B" and x: "x \<notin> set (shape_nodes sh)" "x < length (slots (orders b))" "x \<noteq> kNullNode"
    and data: "ro_price_ticks (slots (orders b) ! x) = lv_price_ticks (slots (levels b) ! l)" "ro_side (slots (orders b) ! x) = s"
  shows "\<exists>xs ys Os Ls. ns = xs @ ys \<and> insert_into_level l x b = Some (with_slots Os Ls b)
    \<and> length Os = length (slots (orders b)) \<and> length Ls = length (slots (levels b))
    \<and> book_links (with_slots Os Ls b) (sh(s := A @ (l, xs @ x # ys) # B))
    \<and> abs_book (with_slots Os Ls b) (sh(s := A @ (l, xs @ x # ys) # B))
      = (abs_book b sh)(s := a_insert s (abs_order (slots (orders b) ! x)) (abs_book b sh s))"
proof -
  let ?O = "slots (orders b)" let ?L = "slots (levels b)"
  note S = links_side [OF links sh]
  have sub: "l \<in> set (shape_levels sh)" "set ns \<subseteq> set (shape_nodes sh)" unfolding shape_split(1,2) [of sh s] sh by auto
  have lvl: "level_ok ?O (?L ! l) s ns" using S(1) by (auto simp: side_ok_def)
  have l: "l < length ?L" and xn: "x \<notin> set ns" and ns: "\<forall>n\<in>set ns. n < length ?O \<and> n \<noteq> kNullNode" using sub x rngN rngL by auto
  from insert_into_level_exec [OF l x(2) xn lvl ns] obtain xs ys where split: "ns = xs @ ys"
    and hi: "\<forall>y\<in>set ys. ao_prio (abs_order (?O ! x)) (abs_order (?O ! y))"
    and lo: "xs \<noteq> [] \<longrightarrow> \<not> ao_prio (abs_order (?O ! x)) (abs_order (?O ! last xs))"
    and ex: "insert_into_level l x b =
       Some (with_slots (link_orders x (last_or_null xs) (hd_or_null ys) ?O)
         (?L[l := (?L ! l)\<lparr> lv_head := (if xs = [] then x else lv_head (?L ! l)),
             lv_tail := (if ys = [] then x else lv_tail (?L ! l)),
             lv_order_count := lv_order_count (?L ! l) + 1\<rparr>]) b)" by blast
  let ?O' = "link_orders x (last_or_null xs) (hd_or_null ys) ?O"
  let ?lv = "(?L ! l)\<lparr> lv_head := (if xs = [] then x else lv_head (?L ! l)),
             lv_tail := (if ys = [] then x else lv_tail (?L ! l)),
             lv_order_count := lv_order_count (?L ! l) + 1\<rparr>"
  let ?b = "with_slots ?O' (?L[l := ?lv]) b" let ?ls = "A @ (l, xs @ x # ys) # B"
  have frame: "?O' ! n = ?O ! n" if "n \<in> set (shape_nodes sh) - set ns" for n
    by (rule link_orders_frame) (use that split x(1) rngN null_or_notin [of n xs] null_or_notin [of n ys] in auto)
  have di: "distinct ns" using S(2) by simp
  have "level_ok ?O' ?lv s (xs @ x # ys)"
    by (rule level_ok_insert) (use lvl split di xn x ns data hi lo in auto)
  then have "book_links ?b (sh(s := ?ls))"
    by (rule book_links_one_level [OF links sh l]) (use frame split di xn x(1) in auto)
  moreover have "abs_book ?b (sh(s := ?ls)) = (abs_book b sh)(s := abs_side ?O' ?ls)"
    by (subst abs_book_upd [of sh s ?b b]) auto
  moreover have "abs_side ?O' ?ls = a_insert s (abs_order (?O ! x)) (abs_book b sh s)"
    using insert_abs_side [of ?O ?L s _ A l xs ys B x] S(1) hi lo data split sh
    by (simp add: abs_book_def abs_side_def)
  ultimately show ?thesis using ex split by (intro exI [of _ xs] exI [of _ ys] exI [of _ ?O'] exI [of _ "?L[l := ?lv]"]) simp
qed

lemma abs_book_cong:
  assumes "\<And>s. abs_side (slots (orders b')) (sh' s) = abs_side (slots (orders b)) (sh s)"
  shows "abs_book b' sh' = abs_book b sh"
  using assms by (auto simp: abs_book_def)

lemma new_level_links:
  assumes links: "book_links b sh"
    and pools: "book_pools b (set (shape_nodes sh)) (set (shape_levels sh))"
    and AB: "sh s = A @ B" and acq: "pool_acquire (levels b) = Some (l, p)" and nf: "\<not> pool_full (levels b)"
    and hi: "\<forall>k\<in>set (map fst A). price_ranks_first s (lv_price_ticks (slots (levels b) ! k)) price"
    and lo: "\<forall>k\<in>set (map fst B). price_ranks_first s price (lv_price_ticks (slots (levels b) ! k))"
    and b': "b' = created s price (map fst A) (map fst B) l p b"
  shows "book_links b' (sh(s := A @ (l, []) # B))" "orders b' = orders b"
    "book_pools b' (set (shape_nodes sh)) (set (shape_levels (sh(s := A @ (l, []) # B))))"
    "l < length (slots (levels b))" "l \<noteq> kNullNode" "l \<notin> set (shape_levels sh)"
    "lv_price_ticks (slots (levels b') ! l) = price" "pool_capacity (levels b') = pool_capacity (levels b)"
proof -
  let ?L = "slots (levels b)" let ?m = "last_or_null (map fst A)" let ?k = "hd_or_null (map fst B)"
  let ?L' = "link_levels l ?m ?k (?L[l := fresh_level price (?L ! l)])" let ?ls = "A @ (l, []) # B"
  have pool: "pool_ok (levels b) (set (shape_levels sh))" using pools by (simp add: book_pools_def)
  from pool.acquire_fresh [OF pool nf] acq have l: "l < pool_capacity (levels b)" "l \<notin> set (shape_levels sh)"
    "pool_ok p (insert l (set (shape_levels sh)))" "slots p = ?L" by auto
  show ll: "l < length ?L" using l(1) by (simp add: pool_capacity_def)
  show ln: "l \<noteq> kNullNode" using pool.used_not_null [OF l(3), of l] by simp
  show "l \<notin> set (shape_levels sh)" by (fact l(2))
  show o': "orders b' = orders b" and "pool_capacity (levels b') = pool_capacity (levels b)"
    using b' l(4) by (auto simp: created_def set_side_head_def pool_capacity_def)
  have L': "slots (levels b') = ?L'" and h': "side_head s b' = (if A = [] then l else side_head s b)"
    "side_head (opposite s) b' = side_head (opposite s) b"
    using b' by (auto simp: created_def side_head_def set_side_head_def opposite_def split: Side.splits)
  show "lv_price_ticks (slots (levels b') ! l) = price" using L' ll by (simp add: fresh_level_def)
  note rng = book_ranges(2) [OF pools]
  have lo_out: "l \<notin> set (map fst (A @ B))" "l \<notin> set (map fst (sh (opposite s)))"
    using l(2) unfolding shape_split(2) [of sh s] AB by blast+
  note S = links_side [OF links AB]
  have side': "side_ok (slots (orders b')) (slots (levels b')) s (side_head s b') ?ls"
    unfolding o' L' h' by (rule side_ok_insert_level [OF S(1,3) lo_out(1) ll ln _ hi lo])
      (use rng [of s] AB in simp)
  show "book_links b' (sh(s := ?ls))"
  proof (rule book_links_update [OF links side'])
    show "slots (levels b') ! k = ?L ! k" if k: "k \<in> set (map fst (sh (opposite s)))" for k
    proof -
      have "k \<noteq> l" "k \<notin> set (map fst A)" "k \<notin> set (map fst B)" "k \<noteq> kNullNode"
        using k lo_out S(5) rng [of "opposite s"] by auto
      then have "k \<notin> {l, ?m, ?k}" using null_or_notin by blast
      then show ?thesis unfolding L' link_levels_def Let_def by auto
    qed
    show "distinct (nodes_of ?ls)" "distinct (map fst ?ls)" using S lo_out by auto
    show "set (nodes_of ?ls) \<inter> set (nodes_of (sh (opposite s))) = {}" using S(4) by simp
    show "set (map fst ?ls) \<inter> set (map fst (sh (opposite s))) = {}" using S(5) lo_out(2) by auto
  qed (use o' h' in simp_all)
  have "set (shape_levels (sh(s := ?ls))) = insert l (set (shape_levels sh))"
    using AB by (auto simp: shape_split(2) [of _ s])
  moreover have "levels b' = p\<lparr>slots := ?L'\<rparr>" using b' by (auto simp: created_def set_side_head_def)
  ultimately show "book_pools b' (set (shape_nodes sh)) (set (shape_levels (sh(s := ?ls))))"
    using pools l(3,4) o' by (simp add: book_pools_def)
qed

text \<open>After \<open>find_or_create_level\<close> the wanted level exists, or there is no room for it.\<close>

lemma find_or_create_level_ok:
  assumes ok: "book_ok b sh"
  shows "if price \<notin> a_prices (abs_book b sh s) \<and> pool_full (levels b)
    then find_or_create_level s price b = Some (kNullNode, b)
    else \<exists>A l ns B b' sh'. find_or_create_level s price b = Some (l, b') \<and> sh' = sh(s := A @ (l, ns) # B)
      \<and> orders b' = orders b \<and> pool_capacity (levels b') = pool_capacity (levels b)
      \<and> book_pools b' (set (shape_nodes sh')) (set (shape_levels sh')) \<and> book_links b' sh'
      \<and> lv_price_ticks (slots (levels b') ! l) = price \<and> l \<noteq> kNullNode
      \<and> abs_book b' sh' = abs_book b sh \<and> (\<forall>(l, ns)\<in>set (A @ B). ns \<noteq> [])"
proof -
  from ok have links: "book_links b sh" and ne: "no_empty_level sh"
    and pools: "book_pools b (set (shape_nodes sh)) (set (shape_levels sh))" by (auto simp: book_ok_def)
  have side: "side_ok (slots (orders b)) (slots (levels b)) s (side_head s b) (sh s)"
    using links by (simp add: book_links_def)
  have nes: "\<forall>(l, ns)\<in>set (sh s). ns \<noteq> []" using ne by (simp add: no_empty_level_def)
  have prices: "a_prices (abs_book b sh s) = (\<lambda>k. lv_price_ticks (slots (levels b) ! k)) ` set (map fst (sh s))"
    using side_prices(1) [OF side nes] by (simp add: abs_book_def)
  have pool: "pool_ok (levels b) (set (shape_levels sh))" using pools by (simp add: book_pools_def)
  have sub: "set (map fst (sh s)) \<subseteq> set (shape_levels sh)" unfolding shape_split(2) [of sh s] by blast
  from find_or_create_level_exec [OF side pool sub, of price] consider
    (old) A l ns B where "sh s = A @ (l, ns) # B" "lv_price_ticks (slots (levels b) ! l) = price"
      "find_or_create_level s price b = Some (l, b)"
    | (full) "price \<notin> a_prices (abs_book b sh s)" "pool_full (levels b)" "find_or_create_level s price b = Some (kNullNode, b)"
    | (new) A B l p where "\<not> pool_full (levels b)" "sh s = A @ B" "pool_acquire (levels b) = Some (l, p)"
      "\<forall>k\<in>set (map fst A). price_ranks_first s (lv_price_ticks (slots (levels b) ! k)) price"
      "\<forall>k\<in>set (map fst B). price_ranks_first s price (lv_price_ticks (slots (levels b) ! k))"
      "find_or_create_level s price b = Some (l, created s price (map fst A) (map fst B) l p b)"
    unfolding prices by (metis (no_types, lifting))
  then show ?thesis
  proof cases
    case old
    have "sh = sh(s := A @ (l, ns) # B)" using old(1) by (simp add: fun_upd_idem)
    moreover have "price \<in> a_prices (abs_book b sh s)" using old(1,2) prices by auto
    moreover have "l \<noteq> kNullNode" using book_ranges(2) [OF pools, of s] old(1) by auto
    moreover have "\<forall>(l, ns)\<in>set (A @ B). ns \<noteq> []" using nes old(1) by simp
    ultimately show ?thesis using old(2,3) links pools by metis
  next
    case full
    then show ?thesis by simp
  next
    case new
    note N = new_level_links [OF links pools new(2,3,1,4,5) refl]
    let ?b = "created s price (map fst A) (map fst B) l p b" let ?sh = "sh(s := A @ (l, []) # B)"
    have nodes: "set (shape_nodes ?sh) = set (shape_nodes sh)" using new(2) by (simp add: shape_split(1) [of _ s])
    have "abs_book ?b ?sh = abs_book b sh"
      by (rule abs_book_cong) (use N(2) new(2) in \<open>simp add: abs_side_def\<close>)
    moreover have "book_pools ?b (set (shape_nodes ?sh)) (set (shape_levels ?sh))" unfolding nodes by (rule N(3))
    moreover have "\<forall>(l, ns)\<in>set (A @ B). ns \<noteq> []" using nes new(2) by simp
    ultimately show ?thesis using new(1,6) N(1,2,5,7,8) by metis
  qed
qed

definition caps :: "OrderBook \<Rightarrow> nat \<times> nat" where
  "caps b = (pool_capacity (orders b), pool_capacity (levels b))"

lemma caps_with_slots [simp]:
  "length Os = length (slots (orders b)) \<Longrightarrow> length Ls = length (slots (levels b)) \<Longrightarrow>
     caps (with_slots Os Ls b) = caps b"
  "length Os = length (slots (orders b)) \<Longrightarrow> length Ls = length (slots (levels b)) \<Longrightarrow>
     book_pools (with_slots Os Ls b) U V = book_pools b U V"
  by (auto simp: caps_def with_slots_def pool_capacity_def book_pools_def)

lemma book_links_data:
  assumes "book_links b sh" "x \<notin> set (shape_nodes sh)" "slots (orders b') = (slots (orders b))[x := r]"
    "levels b' = levels b" "\<And>s. side_head s b' = side_head s b"
  shows "book_links b' sh" "abs_book b' sh = abs_book b sh"
proof -
  have eq: "slots (orders b') ! n = slots (orders b) ! n" if "n \<in> set (nodes_of (sh s))" for n s
    using that assms(2,3) unfolding shape_split(1) [of sh s] by (cases "n = x") auto
  have "side_ok (slots (orders b')) (slots (levels b')) s (side_head s b') (sh s)" for s
    unfolding assms(4,5) using side_ok_cong [of "sh s" "slots (orders b')" "slots (orders b)" "slots (levels b)" "slots (levels b)", OF eq] assms(1)
    by (simp add: book_links_def)
  with assms(1) show "book_links b' sh" by (simp add: book_links_def)
  show "abs_book b' sh = abs_book b sh" using eq by (auto simp: abs_book_def abs_side_def fun_eq_iff)
qed

text \<open>Taking a node from the pool and filling it in disturbs nothing that is linked.\<close>

definition fresh_order :: "u64 \<Rightarrow> u64 \<Rightarrow> u64 \<Rightarrow> u32 \<Rightarrow> Side \<Rightarrow> RestingOrder \<Rightarrow> RestingOrder" where
  "fresh_order order_id seq price qty s r = r\<lparr>ro_order_id := order_id, ro_seq := seq, ro_price_ticks := price,
     ro_remaining_qty := qty, ro_side := s, ro_next := kNullNode, ro_prev := kNullNode\<rparr>"

lemma fresh_node:
  assumes links: "book_links b sh" and pools: "book_pools b (set (shape_nodes sh)) (set (shape_levels sh))"
    and nf: "\<not> pool_full (orders b)"
  shows "\<exists>x p b'. pool_acquire (orders b) = Some (x, p)
    \<and> modify_order x (fresh_order order_id seq price qty s) (b\<lparr>orders := p\<rparr>) = Some b'
    \<and> x < length (slots (orders b')) \<and> x \<noteq> kNullNode \<and> x \<notin> set (shape_nodes sh)
    \<and> slots (orders b') ! x = fresh_order order_id seq price qty s (slots (orders b) ! x)
    \<and> levels b' = levels b \<and> caps b' = caps b \<and> book_links b' sh \<and> abs_book b' sh = abs_book b sh
    \<and> book_pools b' (insert x (set (shape_nodes sh))) (set (shape_levels sh))"
proof -
  let ?f = "fresh_order order_id seq price qty s"
  have pool: "pool_ok (orders b) (set (shape_nodes sh))" using pools by (simp add: book_pools_def)
  from pool.acquire_fresh [OF pool nf] obtain x p where a: "pool_acquire (orders b) = Some (x, p)"
    "x < pool_capacity (orders b)" "x \<notin> set (shape_nodes sh)" "pool_ok p (insert x (set (shape_nodes sh)))"
    "slots p = slots (orders b)" by auto
  let ?b = "b\<lparr>orders := p\<lparr>slots := (slots (orders b))[x := ?f (slots (orders b) ! x)]\<rparr>\<rparr>"
  have x: "x < length (slots (orders b))" "x \<noteq> kNullNode"
    using a(2) pool.used_not_null [OF a(4), of x] by (auto simp: pool_capacity_def)
  have "modify_order x ?f (b\<lparr>orders := p\<rparr>) = Some ?b" using x a(5) by (simp add: modify_order_def)
  moreover have "book_links ?b sh" "abs_book ?b sh = abs_book b sh"
    by (rule book_links_data [OF links a(3)]; simp add: side_head_def)+
  moreover have "book_pools ?b (insert x (set (shape_nodes sh))) (set (shape_levels sh))"
    using a(4,5) pools by (simp add: book_pools_def)
  moreover have "caps ?b = caps b" using a(5) by (simp add: caps_def pool_capacity_def)
  ultimately show ?thesis using a(1,3) x by (intro exI [of _ x] exI [of _ p] exI [of _ ?b]) simp
qed

lemma insert_order_ok:
  assumes ok: "book_ok b sh"
    and x0: "ord = \<lparr>ao_id = order_id, ao_seq = seq, ao_price = price, ao_qty = qty\<rparr>"
  shows "if pool_full (orders b) \<or> price \<notin> a_prices (abs_book b sh s) \<and> pool_full (levels b)
    then insert_order order_id s price seq qty b = Some (False, b)
    else \<exists>b' sh'. insert_order order_id s price seq qty b = Some (True, b') \<and> book_ok b' sh'
      \<and> caps b' = caps b \<and> abs_book b' sh' = (abs_book b sh)(s := a_insert s ord (abs_book b sh s))"
proof (cases "pool_full (orders b) \<or> price \<notin> a_prices (abs_book b sh s) \<and> pool_full (levels b)")
  case True
  then show ?thesis using find_or_create_level_ok [OF ok, of price s] by (auto simp: insert_order_def)
next
  case False
  let ?f = "fresh_order order_id seq price qty s"
  from False obtain A l ns B b1 sh1 where f: "find_or_create_level s price b = Some (l, b1)"
    "sh1 = sh(s := A @ (l, ns) # B)" "orders b1 = orders b" "pool_capacity (levels b1) = pool_capacity (levels b)"
    "book_pools b1 (set (shape_nodes sh1)) (set (shape_levels sh1))" "book_links b1 sh1"
    "lv_price_ticks (slots (levels b1) ! l) = price" "l \<noteq> kNullNode"
    "abs_book b1 sh1 = abs_book b sh" "\<forall>(l, ns)\<in>set (A @ B). ns \<noteq> []"
    using find_or_create_level_ok [OF ok, of price s] by auto
  from fresh_node [OF f(6,5), of order_id seq price qty s] False f(3) obtain x p b2 where
    a: "pool_acquire (orders b1) = Some (x, p)" "modify_order x ?f (b1\<lparr>orders := p\<rparr>) = Some b2"
      "x < length (slots (orders b2))" "x \<noteq> kNullNode" "x \<notin> set (shape_nodes sh1)"
      "slots (orders b2) ! x = ?f (slots (orders b1) ! x)" "levels b2 = levels b1" "caps b2 = caps b1"
      "book_links b2 sh1" "abs_book b2 sh1 = abs_book b1 sh1"
      "book_pools b2 (insert x (set (shape_nodes sh1))) (set (shape_levels sh1))" by auto
  have rN: "\<forall>n\<in>set (shape_nodes sh1). n < length (slots (orders b2)) \<and> n \<noteq> kNullNode"
    and rL: "\<forall>l\<in>set (shape_levels sh1). l < length (slots (levels b2)) \<and> l \<noteq> kNullNode"
    using pool.used_not_null [of "orders b2"] pool.used_not_null [of "levels b2"] a(11) unfolding book_pools_def by blast+
  have sx: "sh1 s = A @ (l, ns) # B" using f(2) by simp
  have dx: "ro_price_ticks (slots (orders b2) ! x) = lv_price_ticks (slots (levels b2) ! l)"
    "ro_side (slots (orders b2) ! x) = s" using a(6,7) f(7) by (simp_all add: fresh_order_def)
  have ox: "abs_order (slots (orders b2) ! x) = ord" unfolding a(6) x0 by (simp add: abs_order_def fresh_order_def)
  from insert_into_level_links [OF a(9) rN rL sx a(5,3,4) dx]
  obtain xs ys Os Ls where i: "ns = xs @ ys" "insert_into_level l x b2 = Some (with_slots Os Ls b2)"
    "length Os = length (slots (orders b2))" "length Ls = length (slots (levels b2))"
    "book_links (with_slots Os Ls b2) (sh1(s := A @ (l, xs @ x # ys) # B))"
    "abs_book (with_slots Os Ls b2) (sh1(s := A @ (l, xs @ x # ys) # B))
      = (abs_book b2 sh1)(s := a_insert s (abs_order (slots (orders b2) ! x)) (abs_book b2 sh1 s))"
    by blast
  let ?sh = "sh1(s := A @ (l, xs @ x # ys) # B)"
  have exec: "insert_order order_id s price seq qty b = Some (True, with_slots Os Ls b2)"
    using False f(1,8) a(1,2) i(2) by (simp add: insert_order_def fresh_order_def [abs_def])
  have sets: "set (shape_nodes ?sh) = insert x (set (shape_nodes sh1))" "set (shape_levels ?sh) = set (shape_levels sh1)"
    using sx i(1) by (auto simp: shape_split(1,2) [of _ s])
  have "book_pools (with_slots Os Ls b2) (set (shape_nodes ?sh)) (set (shape_levels ?sh))"
    unfolding sets using a(11) i(3,4) by simp
  moreover have "no_empty_level ?sh" using ok f(2,10) by (auto simp: book_ok_def no_empty_level_def)
  moreover have "caps (with_slots Os Ls b2) = caps b" using i(3,4) f(3,4) a(8) by (simp add: caps_def pool_capacity_def)
  ultimately show ?thesis
    using False exec i(5,6) a(10) f(9) unfolding ox book_ok_def by (simp del: fun_upd_apply) metis
qed

subsection \<open>Removing\<close>

lemma unlink_from_level_links:
  assumes links: "book_links b sh" and pools: "book_pools b (set (shape_nodes sh)) (set (shape_levels sh))"
    and sh: "sh s = A @ (l, xs @ x # ys) # B"
  shows "\<exists>Os Ls. unlink_from_level l x b = Some (with_slots Os Ls b)
    \<and> length Os = length (slots (orders b)) \<and> length Ls = length (slots (levels b))
    \<and> (\<forall>i. abs_order (Os ! i) = abs_order (slots (orders b) ! i) \<and> ro_side (Os ! i) = ro_side (slots (orders b) ! i))
    \<and> lv_order_count (Ls ! l) = of_nat (length (xs @ ys))
    \<and> book_links (with_slots Os Ls b) (sh(s := A @ (l, xs @ ys) # B))"
proof -
  let ?O = "slots (orders b)" let ?L = "slots (levels b)" let ?ns = "xs @ x # ys"
  note S = links_side [OF links sh] and rN = book_ranges(1) [OF pools] and rL = book_ranges(2) [OF pools]
  have lvl: "level_ok ?O (?L ! l) s ?ns" using S(1) by (auto simp: side_ok_def)
  have l: "l < length ?L" using rL [of s] sh by simp
  have ns: "\<forall>n\<in>set ?ns. n < length ?O \<and> n \<noteq> kNullNode" using rN [of s] sh by auto
  let ?O' = "unlink_orders (last_or_null xs) (hd_or_null ys) ?O"
  let ?lv = "(?L ! l)\<lparr> lv_head := (if xs = [] then hd_or_null ys else lv_head (?L ! l)),
             lv_tail := (if ys = [] then last_or_null xs else lv_tail (?L ! l)),
             lv_order_count := lv_order_count (?L ! l) - 1\<rparr>"
  let ?b = "with_slots ?O' (?L[l := ?lv]) b" let ?ls = "A @ (l, xs @ ys) # B"
  have frame: "?O' ! n = ?O ! n" if "n \<in> set (shape_nodes sh) - set ?ns" for n
  proof (rule unlink_orders_frame)
    have "n \<noteq> kNullNode" using that rN [of s] rN [of "opposite s"] unfolding shape_split(1) [of sh s] by blast
    then show "n \<notin> {last_or_null xs, hd_or_null ys}" using that null_or_notin [of n xs] null_or_notin [of n ys] by auto
  qed
  have di: "distinct ?ns" using S(2) by auto
  have lv': "level_ok ?O' ?lv s (xs @ ys)" by (rule level_ok_remove [OF lvl di ns])
  then have "book_links ?b (sh(s := ?ls))"
    by (rule book_links_one_level [OF links sh l]) (use frame di in auto)
  moreover have "lv_order_count (?L[l := ?lv] ! l) = of_nat (length (xs @ ys))"
    using lv' l by (simp add: level_ok_def)
  moreover note unlink_from_level_exec [OF l lvl ns]
  ultimately show ?thesis by (intro exI [of _ ?O'] exI [of _ "?L[l := ?lv]"]) simp
qed

lemma remove_level_links:
  assumes links: "book_links b sh" and pool: "pool_ok (levels b) (set (shape_levels sh))"
    and sh: "sh s = A @ (l, []) # B"
  shows "\<exists>b'. remove_level s l b = Some b' \<and> orders b' = orders b \<and> caps b' = caps b
    \<and> pool_ok (levels b') (set (shape_levels (sh(s := A @ B)))) \<and> book_links b' (sh(s := A @ B))"
proof -
  let ?L = "slots (levels b)" let ?m = "last_or_null (map fst A)" let ?k = "hd_or_null (map fst B)"
  let ?L' = "unlink_levels ?m ?k ?L" let ?ls = "A @ B"
  note S = links_side [OF links sh]
  have sub: "set (map fst (A @ (l, []) # B)) \<subseteq> set (shape_levels sh)"
    unfolding shape_split(2) [of sh s] sh by blast
  have rng: "k < length ?L \<and> k \<noteq> kNullNode" if "k \<in> set (shape_levels sh)" for k
    using pool.used_not_null [OF pool that] .
  from remove_level_exec [OF S(1) pool sub] obtain p where p: "pool_release l (levels b) = Some p" "slots p = ?L"
    and ex: "remove_level s l b = Some ((if A = [] then set_side_head s ?k else id) (b\<lparr>levels := p\<lparr>slots := ?L'\<rparr>\<rparr>))"
    by blast
  let ?b = "(if A = [] then set_side_head s ?k else id) (b\<lparr>levels := p\<lparr>slots := ?L'\<rparr>\<rparr>)"
  from pool.release_used [OF pool, of l] p sub have pk: "pool_ok p (set (shape_levels sh) - {l})" by auto
  have h: "orders ?b = orders b" "slots (levels ?b) = ?L'" "levels ?b = p\<lparr>slots := ?L'\<rparr>"
    "side_head s ?b = (if A = [] then ?k else side_head s b)" "side_head (opposite s) ?b = side_head (opposite s) b"
    by (auto simp: side_head_def set_side_head_def opposite_def split: Side.splits)
  have side': "side_ok (slots (orders ?b)) (slots (levels ?b)) s (side_head s ?b) ?ls"
    unfolding h(1,2,4) by (rule side_ok_remove_level [OF S(1,3)]) (use rng sub in blast)
  have "book_links ?b (sh(s := ?ls))"
  proof (rule book_links_update [OF links side'])
    show "slots (levels ?b) ! k = ?L ! k" if k: "k \<in> set (map fst (sh (opposite s)))" for k
    proof -
      have "k \<in> set (shape_levels sh)" using k unfolding shape_split(2) [of sh s] by blast
      then have "k \<notin> set (map fst A)" "k \<notin> set (map fst B)" "k \<noteq> kNullNode"
        using k S(5) rng by auto
      then have "k \<notin> {?m, ?k}" using null_or_notin by blast
      then show ?thesis unfolding h(2) unlink_levels_def Let_def by auto
    qed
    show "distinct (nodes_of ?ls)" "distinct (map fst ?ls)" using S by auto
    show "set (nodes_of ?ls) \<inter> set (nodes_of (sh (opposite s))) = {}" using S(4) by auto
    show "set (map fst ?ls) \<inter> set (map fst (sh (opposite s))) = {}" using S(5) by auto
  qed (use h in simp_all)
  moreover have "set (shape_levels (sh(s := ?ls))) = set (shape_levels sh) - {l}"
    using S(3,5) sh unfolding shape_split(2) [of _ s] by auto
  moreover have "pool_ok (levels ?b) (set (shape_levels sh) - {l})" unfolding h using pk p(2) by simp
  moreover have "caps ?b = caps b" unfolding caps_def h using p(2) by (simp add: pool_capacity_def)
  ultimately show ?thesis using ex h(1) by auto
qed

lemma locate_level_ok:
  assumes side: "side_ok (slots (orders b)) (slots (levels b)) s (side_head s b) (A @ (l, ns) # B)"
    and rng: "\<forall>k\<in>set (map fst (A @ (l, ns) # B)). k < length (slots (levels b)) \<and> k \<noteq> kNullNode"
  shows "locate_level b s (lv_price_ticks (slots (levels b) ! l)) = Some l"
proof -
  let ?L = "slots (levels b)"
  from side obtain t where
    "dseg (field lv_next_level ?L) (field lv_prev_level ?L) kNullNode (side_head s b) (map fst A @ l # map fst B) t kNullNode"
    by (auto simp: side_ok_def)
  moreover have "\<forall>x\<in>set (map fst A). price_ranks_first s (lv_price_ticks (?L ! x)) (lv_price_ticks (?L ! l))"
    using side by (auto simp: side_ok_def sorted_wrt_append)
  ultimately show ?thesis unfolding locate_level_def using rng
    by (intro locate_level_from_ok [where xs = "map fst A"]) auto
qed

lemma node_count_small:
  assumes "pool_ok p (set ns)" "distinct ns"
  shows "length ns < 2 ^ 32"
proof -
  have "length ns = card (set ns)" using assms(2) by (simp add: distinct_card)
  also have "\<dots> \<le> pool_capacity p" using pool.used_card [OF assms(1)] .
  also have "\<dots> \<le> kNullNode" using assms(1) by (simp add: pool_ok_def)
  finally show ?thesis by (simp add: kNullNode_def)
qed

lemma of_nat_u32_zero: "n < 2 ^ 32 \<Longrightarrow> (of_nat n :: u32) = 0 \<longleftrightarrow> n = 0"
  by (auto simp: word_of_nat_eq_0_iff dest: dvd_imp_le)

text \<open>Unlinking the order and releasing its slot, before an emptied level is dropped.\<close>

text \<open>The 32-bit order count of a level does not wrap, so it is zero only for an empty level.\<close>

lemma count_zero_iff:
  assumes links: "book_links b sh" and pools: "book_pools b (set (shape_nodes sh)) (set (shape_levels sh))"
    and sh: "sh s = A @ (l, ns) # B" and len: "length ms \<le> length ns"
  shows "(of_nat (length ms) :: u32) = 0 \<longleftrightarrow> ms = []"
proof -
  have "distinct (shape_nodes sh)" "pool_ok (orders b) (set (shape_nodes sh))"
    using links pools by (auto simp: book_links_def book_pools_def)
  then have "length (shape_nodes sh) < 2 ^ 32" using node_count_small by blast
  moreover have "length ns \<le> length (shape_nodes sh)" using sh by (cases s) (auto simp: shape_nodes_def)
  ultimately have "length ms < 2 ^ 32" using len by linarith
  from of_nat_u32_zero [OF this] show ?thesis by (simp only: length_0_conv)
qed

lemma unlink_and_release:
  assumes ok: "book_ok b sh" and sh: "sh s = A @ (l, xs @ x # ys) # B"
  shows "\<exists>b1. remove_order x b = (if xs @ ys = [] then remove_level s l b1 else Some b1)
    \<and> book_links b1 (sh(s := A @ (l, xs @ ys) # B))
    \<and> book_pools b1 (set (shape_nodes (sh(s := A @ (l, xs @ ys) # B)))) (set (shape_levels (sh(s := A @ (l, xs @ ys) # B))))
    \<and> caps b1 = caps b \<and> abs_book b1 (sh(s := A @ (l, xs @ ys) # B)) = (abs_book b sh)(s := map (\<lambda>n. abs_order (slots (orders b) ! n))
        ((nodes_of A @ xs) @ (ys @ nodes_of B)))"
proof -
  let ?O = "slots (orders b)" let ?L = "slots (levels b)"
  from ok have links: "book_links b sh"
    and pools: "book_pools b (set (shape_nodes sh)) (set (shape_levels sh))" by (auto simp: book_ok_def)
  have side: "side_ok ?O ?L s (side_head s b) (A @ (l, xs @ x # ys) # B)"
    using links unfolding book_links_def sh [symmetric] by blast
  note rN = book_ranges(1) [OF pools] and rL = book_ranges(2) [OF pools]
  have x: "x < length ?O" "ro_side (?O ! x) = s" "ro_price_ticks (?O ! x) = lv_price_ticks (?L ! l)"
    using rN [of s] sh side_node_price [OF side, of l "xs @ x # ys" x] by auto
  have l: "l < length ?L" using rL [of s] sh by simp
  have loc: "locate_level b s (lv_price_ticks (?L ! l)) = Some l"
    by (rule locate_level_ok [OF side]) (use rL [of s] sh in simp)
  from unlink_from_level_links [OF links pools sh] obtain Os Ls where
    u: "unlink_from_level l x b = Some (with_slots Os Ls b)" "length Os = length ?O" "length Ls = length ?L"
      "\<forall>i. abs_order (Os ! i) = abs_order (?O ! i) \<and> ro_side (Os ! i) = ro_side (?O ! i)"
      "lv_order_count (Ls ! l) = of_nat (length (xs @ ys))"
      "book_links (with_slots Os Ls b) (sh(s := A @ (l, xs @ ys) # B))" by blast
  let ?sh1 = "sh(s := A @ (l, xs @ ys) # B)"
  have pool: "pool_ok (orders (with_slots Os Ls b)) (set (shape_nodes sh))"
    using pools u(2,3) by (simp add: book_pools_def with_slots_def)
  from pool.release_used [OF pool, of x] sh obtain p where
    p: "pool_release x (orders (with_slots Os Ls b)) = Some p" "pool_ok p (set (shape_nodes sh) - {x})" "slots p = Os"
    by (auto simp: shape_split(1) [of sh s])
  let ?b1 = "(with_slots Os Ls b)\<lparr>orders := p\<rparr>"
  have b1: "slots (orders ?b1) = Os" "slots (levels ?b1) = Ls" "\<And>s. side_head s ?b1 = side_head s b"
    using p(3) by (simp_all add: with_slots_def side_head_def)
  have links1: "book_links ?b1 ?sh1" using u(6) b1 unfolding book_links_def by simp
  have di: "distinct (shape_nodes sh)" using links by (simp add: book_links_def)
  have nodes1: "set (shape_nodes ?sh1) = set (shape_nodes sh) - {x}"
    using di sh unfolding shape_split(1,3) [of _ s] by auto
  have lev1: "set (shape_levels ?sh1) = set (shape_levels sh)" using sh by (simp add: shape_split(2) [of _ s])
  have pools1: "book_pools ?b1 (set (shape_nodes ?sh1)) (set (shape_levels ?sh1))"
    unfolding nodes1 lev1 using pools p(2) u(3) by (simp add: book_pools_def with_slots_def)
  have caps1: "caps ?b1 = caps b" using p(3) u(2,3) by (simp add: caps_def pool_capacity_def with_slots_def)
  have abs1: "abs_book ?b1 ?sh1 = (abs_book b sh)(s := map (\<lambda>n. abs_order (?O ! n)) ((nodes_of A @ xs) @ (ys @ nodes_of B)))"
    by (subst abs_book_upd [of sh s _ b]) (use b1 u(4) in \<open>auto simp: abs_side_def\<close>)
  have cnt: "lv_order_count (Ls ! l) = 0 \<longleftrightarrow> xs @ ys = []"
    unfolding u(5) by (rule count_zero_iff [OF links pools sh]) simp
  have exec: "remove_order x b = (if xs @ ys = [] then remove_level s l ?b1 else Some ?b1)"
    using x l loc u(1,2,3,4) p(1,3) b1 cnt by (simp add: remove_order_def)
  with links1 pools1 caps1 abs1 show ?thesis by blast
qed

lemma remove_order_ok:
  assumes ok: "book_ok b sh" and sh: "sh s = A @ (l, xs @ x # ys) # B"
  shows "\<exists>b' sh'. remove_order x b = Some b' \<and> book_ok b' sh' \<and> caps b' = caps b
    \<and> abs_book b' sh' = (abs_book b sh)(s := map (\<lambda>n. abs_order (slots (orders b) ! n))
        ((nodes_of A @ xs) @ (ys @ nodes_of B)))"
proof -
  let ?sh1 = "sh(s := A @ (l, xs @ ys) # B)"
  have nes: "\<forall>(l, ns)\<in>set (sh s). ns \<noteq> []" "\<forall>(l, ns)\<in>set (sh (opposite s)). ns \<noteq> []"
    using ok by (simp_all add: book_ok_def no_empty_level_def)
  from unlink_and_release [OF assms] obtain b1 where exec: "remove_order x b = (if xs @ ys = [] then remove_level s l b1 else Some b1)"
    and links1: "book_links b1 ?sh1" and pools1: "book_pools b1 (set (shape_nodes ?sh1)) (set (shape_levels ?sh1))" and caps1: "caps b1 = caps b"
    and abs1: "abs_book b1 ?sh1 = (abs_book b sh)(s := map (\<lambda>n. abs_order (slots (orders b) ! n)) ((nodes_of A @ xs) @ (ys @ nodes_of B)))" by blast
  show ?thesis
  proof (cases "xs @ ys = []")
    case False
    have "no_empty_level ?sh1" unfolding no_empty_level_upd using nes False sh by auto
    with links1 pools1 have "book_ok b1 ?sh1" by (simp add: book_ok_def)
    with exec False caps1 abs1 show ?thesis by auto
  next
    case True
    then have sh1: "?sh1 s = A @ (l, []) # B" by simp
    have pl: "pool_ok (levels b1) (set (shape_levels ?sh1))" using pools1 by (simp add: book_pools_def)
    from remove_level_links [OF links1 pl sh1] obtain b' where r: "remove_level s l b1 = Some b'"
      "orders b' = orders b1" "caps b' = caps b1" "pool_ok (levels b') (set (shape_levels (?sh1(s := A @ B))))"
      "book_links b' (?sh1(s := A @ B))" by blast
    let ?sh2 = "?sh1(s := A @ B)"
    have "set (shape_nodes ?sh2) = set (shape_nodes ?sh1)" using True by (simp add: shape_split(1) [of _ s])
    then have "book_pools b' (set (shape_nodes ?sh2)) (set (shape_levels ?sh2))"
      using r(2,4) pools1 by (simp add: book_pools_def)
    moreover have "no_empty_level ?sh2" unfolding no_empty_level_upd using nes sh by auto
    ultimately have "book_ok b' ?sh2" using r(5) by (simp add: book_ok_def)
    moreover have "abs_book b' ?sh2 = abs_book b1 ?sh1"
      by (rule abs_book_cong) (use r(2) True in \<open>simp add: abs_side_def\<close>)
    ultimately show ?thesis using exec True r(1,3) caps1 abs1 by auto
  qed
qed

end
