(* ===== verification/Book_Refinement.thy ===== *)
theory Book_Refinement
  imports Book_Operations
begin

text \<open>
  The order book implements the abstract book.  \<open>book_rel b A\<close> says that \<open>b\<close> is a well-formed
  representation of the two priority lists \<open>A\<close>; the locale \<open>resting_book\<close> collects what the
  matching engine relies on, with the two compound steps the engine performs (fill the front order,
  cancel by identifier) proved from the laws; the interpretation discharges the laws for the
  pool-and-links implementation.
\<close>

definition book_rel :: "OrderBook \<Rightarrow> ABook \<Rightarrow> bool" where
  "book_rel b A \<longleftrightarrow> (\<exists>sh. book_ok b sh \<and> A = abs_book b sh)"

text \<open>\<open>MatchingEngine::best_level\<close>.\<close>

definition best_level :: "Side \<Rightarrow> OrderBook \<Rightarrow> PriceLevel option option" where
  "best_level s b = (if s = Buy then best_bid b else best_ask b)"

text \<open>Insertion succeeds exactly when there is a free order slot and the price level exists or can be created.\<close>

definition a_has_room :: "nat \<times> nat \<Rightarrow> Side \<Rightarrow> u64 \<Rightarrow> ABook \<Rightarrow> bool" where
  "a_has_room cp s p A \<longleftrightarrow> a_order_count A < fst cp \<and> (p \<in> a_prices (A s) \<or> a_level_count A < snd cp)"

definition set_qty :: "u32 \<Rightarrow> RestingOrder \<Rightarrow> RestingOrder" where
  "set_qty q r = r\<lparr>ro_remaining_qty := q\<rparr>"

locale resting_book =
  fixes rel :: "'b \<Rightarrow> ABook \<Rightarrow> bool"
    and capacity :: "'b \<Rightarrow> nat \<times> nat"
    and best :: "Side \<Rightarrow> 'b \<Rightarrow> PriceLevel option option"
    and ord_at :: "'b \<Rightarrow> NodeIndex \<Rightarrow> RestingOrder option"
    and modify :: "NodeIndex \<Rightarrow> (RestingOrder \<Rightarrow> RestingOrder) \<Rightarrow> 'b \<Rightarrow> 'b option"
    and remove_node :: "NodeIndex \<Rightarrow> 'b \<Rightarrow> 'b option"
    and insert_ord :: "u64 \<Rightarrow> Side \<Rightarrow> u64 \<Rightarrow> u64 \<Rightarrow> u32 \<Rightarrow> 'b \<Rightarrow> (bool \<times> 'b) option"
    and lookup :: "'b \<Rightarrow> u64 \<Rightarrow> NodeIndex option"
  assumes sorted: "rel b A \<Longrightarrow> priority_sorted s (A s)"
    and best_none: "rel b A \<Longrightarrow> A s = [] \<Longrightarrow> best s b = Some None"
    and best_front: "rel b A \<Longrightarrow> A s = x # xs \<Longrightarrow>
      \<exists>lv r. best s b = Some (Some lv) \<and> lv_price_ticks lv = ao_price x
        \<and> ord_at b (level_head lv) = Some r \<and> abs_order r = x"
    and reduce_front: "rel b A \<Longrightarrow> A s = x # xs \<Longrightarrow> best s b = Some (Some lv) \<Longrightarrow>
      \<exists>b'. modify (level_head lv) (set_qty q) b = Some b' \<and> rel b' (A(s := x\<lparr>ao_qty := q\<rparr> # xs))
        \<and> capacity b' = capacity b \<and> best s b' = best s b"
    and remove_front: "rel b A \<Longrightarrow> A s = x # xs \<Longrightarrow> best s b = Some (Some lv) \<Longrightarrow>
      \<exists>b'. remove_node (level_head lv) b = Some b' \<and> rel b' (A(s := xs)) \<and> capacity b' = capacity b"
    and insert_room: "rel b A \<Longrightarrow> a_has_room (capacity b) s p A \<Longrightarrow>
      \<exists>b'. insert_ord i s p t q b = Some (True, b') \<and> capacity b' = capacity b
        \<and> rel b' (A(s := a_insert s \<lparr>ao_id = i, ao_seq = t, ao_price = p, ao_qty = q\<rparr> (A s)))"
    and insert_no_room: "rel b A \<Longrightarrow> \<not> a_has_room (capacity b) s p A \<Longrightarrow> insert_ord i s p t q b = Some (False, b)"
    and lookup_none: "rel b A \<Longrightarrow> i \<notin> a_ids (A Buy) \<union> a_ids (A Sell) \<Longrightarrow> lookup b i = Some kNullNode"
    and lookup_some: "rel b A \<Longrightarrow> i \<in> a_ids (A Buy) \<union> a_ids (A Sell) \<Longrightarrow>
      \<exists>n b'. lookup b i = Some n \<and> n \<noteq> kNullNode \<and> remove_node n b = Some b'
        \<and> rel b' (a_cancel i A) \<and> capacity b' = capacity b"
begin

text \<open>One fill of the matching loop: reduce the front order and drop it when it is exhausted.\<close>

lemma fill_front:
  assumes "rel b A" "A s = x # xs" "best s b = Some (Some lv)"
  shows "\<exists>b' b''. modify (level_head lv) (set_qty q) b = Some b'
    \<and> (\<exists>r. ord_at b' (level_head lv) = Some r \<and> abs_order r = x\<lparr>ao_qty := q\<rparr>)
    \<and> (if q = 0 then remove_node (level_head lv) b' else Some b') = Some b''
    \<and> rel b'' (A(s := (if q = 0 then xs else x\<lparr>ao_qty := q\<rparr> # xs)))
    \<and> capacity b'' = capacity b"
proof -
  from reduce_front [OF assms, of q] obtain b' where b': "modify (level_head lv) (set_qty q) b = Some b'"
    "rel b' (A(s := x\<lparr>ao_qty := q\<rparr> # xs))" "capacity b' = capacity b" "best s b' = best s b" by blast
  have "\<exists>r. ord_at b' (level_head lv) = Some r \<and> abs_order r = x\<lparr>ao_qty := q\<rparr>"
    using best_front [OF b'(2), of s] b'(4) assms(3) by auto
  moreover have "\<exists>b''. (if q = 0 then remove_node (level_head lv) b' else Some b') = Some b''
      \<and> rel b'' (A(s := (if q = 0 then xs else x\<lparr>ao_qty := q\<rparr> # xs))) \<and> capacity b'' = capacity b"
    using remove_front [OF b'(2), of s "x\<lparr>ao_qty := q\<rparr>" xs lv] b' assms(3) by (cases "q = 0") auto
  ultimately show ?thesis using b'(1) by blast
qed

text \<open>The front order has the best price of its side.\<close>

lemma front_is_best:
  assumes "rel b A" "A s = x # xs" "y \<in> set (A s)"
  shows "\<not> ao_before s y x"
  using sorted [OF assms(1), of s] assms(2,3) by (cases "y = x") (auto simp: priority_sorted_Cons ao_before_def)

text \<open>Resting an order never disturbs the other side.\<close>

lemma insert_total:
  assumes "rel b A"
  shows "\<exists>ok b'. insert_ord i s p t q b = Some (ok, b') \<and> capacity b' = capacity b
    \<and> ok = a_has_room (capacity b) s p A
    \<and> rel b' (if ok then A(s := a_insert s \<lparr>ao_id = i, ao_seq = t, ao_price = p, ao_qty = q\<rparr> (A s)) else A)"
  using insert_room [OF assms, of s p i t q] insert_no_room [OF assms, of s p i t q] assms
  by (cases "a_has_room (capacity b) s p A") auto

end

lemma nodes_of_split_at:
  "nodes_of ls = as @ x # bs \<Longrightarrow>
     \<exists>A l xs ys B. ls = A @ (l, xs @ x # ys) # B \<and> as = nodes_of A @ xs \<and> bs = ys @ nodes_of B"
proof (induction ls arbitrary: as)
  case (Cons y ls)
  obtain l ns where y: "y = (l, ns)" by (cases y)
  with Cons.prems have e: "ns @ nodes_of ls = as @ x # bs" by simp
  show ?case
  proof (cases "length as < length ns")
    case True
    with e have "ns = as @ x # drop (Suc (length as)) ns" "bs = drop (Suc (length as)) ns @ nodes_of ls"
      by (auto simp: append_eq_append_conv2 append_eq_Cons_conv)
    then show ?thesis unfolding y
      by (intro exI [of _ "[]"] exI [of _ l] exI [of _ as] exI [of _ "drop (Suc (length as)) ns"] exI [of _ ls]) simp
  next
    case False
    with e obtain cs where c: "as = ns @ cs" "nodes_of ls = cs @ x # bs"
      by (auto simp: append_eq_append_conv2)
    from Cons.IH [OF c(2)] obtain A l' xs ys B where
      "ls = A @ (l', xs @ x # ys) # B" "cs = nodes_of A @ xs" "bs = ys @ nodes_of B" by blast
    with y c show ?thesis by (intro exI [of _ "y # A"] exI [of _ l'] exI [of _ xs] exI [of _ ys] exI [of _ B]) simp
  qed
qed simp

lemma book_ok_side: "book_ok b sh \<Longrightarrow> side_ok (slots (orders b)) (slots (levels b)) s (side_head s b) (sh s)"
  by (simp add: book_ok_def book_links_def)

lemma book_rel_sorted: "book_rel b A \<Longrightarrow> priority_sorted s (A s)"
  using abs_side_sorted [OF book_ok_side] by (auto simp: book_rel_def abs_book_def)

lemma empty_side:
  assumes "book_ok b sh" "abs_book b sh s = []"
  shows "sh s = []"
proof -
  have "\<forall>(l, ns)\<in>set (sh s). ns \<noteq> []" using assms(1) by (simp add: book_ok_def no_empty_level_def)
  with assms(2) show ?thesis by (cases "sh s") (auto simp: abs_book_def abs_side_def)
qed

lemma best_level_head:
  "best_level s b = (if side_head s b = kNullNode then Some None else map_option Some (level_at b (side_head s b)))"
  by (simp add: best_level_def side_head_def best_bid_def best_ask_def)

lemma front_shape:
  assumes ok: "book_ok b sh" and A: "abs_book b sh s = x # xs"
  shows "\<exists>l n ns B. sh s = (l, n # ns) # B \<and> best_level s b = Some (Some (slots (levels b) ! l))
    \<and> level_head (slots (levels b) ! l) = n \<and> n < length (slots (orders b))
    \<and> lv_price_ticks (slots (levels b) ! l) = ao_price x
    \<and> abs_order (slots (orders b) ! n) = x
    \<and> xs = map (\<lambda>n. abs_order (slots (orders b) ! n)) (ns @ nodes_of B)"
proof -
  from ok have links: "book_links b sh" and ne: "\<forall>(l, ns)\<in>set (sh s). ns \<noteq> []"
    and pools: "book_pools b (set (shape_nodes sh)) (set (shape_levels sh))"
    by (auto simp: book_ok_def no_empty_level_def)
  have "sh s \<noteq> []" using A by (auto simp: abs_book_def abs_side_def)
  with ne obtain l n ns B where sh: "sh s = (l, n # ns) # B" by (cases "sh s") (auto simp: neq_Nil_conv)
  have side: "side_ok (slots (orders b)) (slots (levels b)) s (side_head s b) ((l, n # ns) # B)"
    using links unfolding book_links_def sh [symmetric] by blast
  have rng: "l < length (slots (levels b))" "l \<noteq> kNullNode" "n < length (slots (orders b))"
    using book_ranges [OF pools, of s] sh by auto
  have "side_head s b = l" "lv_head (slots (levels b) ! l) = n" using side by (auto simp: side_ok_def level_ok_def)
  moreover have "abs_order (slots (orders b) ! n) = x" "xs = map (\<lambda>n. abs_order (slots (orders b) ! n)) (ns @ nodes_of B)"
    using A sh by (auto simp: abs_book_def abs_side_def)
  moreover have "ro_price_ticks (slots (orders b) ! n) = lv_price_ticks (slots (levels b) ! l)"
    using side_node_price(1) [OF side, of l "n # ns" n] by simp
  ultimately show ?thesis using sh rng by (auto simp: best_level_head level_head_def abs_order_def)
qed

lemma book_counts:
  assumes ok: "book_ok b sh"
  shows "card (set (shape_nodes sh)) = a_order_count (abs_book b sh)"
    "card (set (shape_levels sh)) = a_level_count (abs_book b sh)"
    "a_order_count (abs_book b sh) \<le> fst (caps b)" "a_level_count (abs_book b sh) \<le> snd (caps b)"
proof -
  from ok have links: "book_links b sh" and ne: "no_empty_level sh"
    and pO: "pool_ok (orders b) (set (shape_nodes sh))" and pL: "pool_ok (levels b) (set (shape_levels sh))"
    by (auto simp: book_ok_def book_pools_def)
  have di: "distinct (shape_nodes sh)" "distinct (shape_levels sh)" using links by (auto simp: book_links_def)
  show o: "card (set (shape_nodes sh)) = a_order_count (abs_book b sh)"
    unfolding distinct_card [OF di(1)] by (simp add: shape_nodes_def a_order_count_def abs_book_def abs_side_def)
  have "card (a_prices (abs_book b sh t)) = length (sh t)" for t
    using side_prices(2) [of "slots (orders b)" "slots (levels b)" t "side_head t b" "sh t"] links ne
    by (simp add: book_links_def no_empty_level_def abs_book_def)
  then show l: "card (set (shape_levels sh)) = a_level_count (abs_book b sh)"
    unfolding distinct_card [OF di(2)] by (simp add: shape_levels_def a_level_count_def)
  show "a_order_count (abs_book b sh) \<le> fst (caps b)" "a_level_count (abs_book b sh) \<le> snd (caps b)"
    using pool.used_card [OF pO] pool.used_card [OF pL] o l by (simp_all add: caps_def)
qed

lemma room_full:
  assumes ok: "book_ok b sh"
  shows "a_has_room (caps b) s p (abs_book b sh) \<longleftrightarrow>
    \<not> (pool_full (orders b) \<or> p \<notin> a_prices (abs_book b sh s) \<and> pool_full (levels b))"
  using ok book_counts [OF ok] pool.full_iff [of "orders b" "set (shape_nodes sh)"]
    pool.full_iff [of "levels b" "set (shape_levels sh)"]
  by (auto simp: a_has_room_def caps_def book_ok_def book_pools_def)

lemma set_qty_links:
  assumes ok: "book_ok b sh" and n: "n < length (slots (orders b))"
    and b': "b' = with_slots ((slots (orders b))[n := set_qty q (slots (orders b) ! n)]) (slots (levels b)) b"
  shows "book_ok b' sh"
proof -
  let ?O = "slots (orders b)" let ?O' = "?O[n := set_qty q (?O ! n)]"
  have f: "field ro_next ?O' = field ro_next ?O" "field ro_prev ?O' = field ro_prev ?O"
    "\<And>k. ro_price_ticks (?O' ! k) = ro_price_ticks (?O ! k)" "\<And>k. ro_side (?O' ! k) = ro_side (?O ! k)"
    "\<And>j k. ao_prio (abs_order (?O' ! j)) (abs_order (?O' ! k)) = ao_prio (abs_order (?O ! j)) (abs_order (?O ! k))"
    by (auto simp: fun_eq_iff nth_update_cases set_qty_def ao_prio_def abs_order_def)
  have "level_ok ?O' lv s ns = level_ok ?O lv s ns" for lv s ns
    unfolding level_ok_def f by (rule refl)
  then have "side_ok ?O' Ls s h ls = side_ok ?O Ls s h ls" for Ls s h ls by (simp add: side_ok_def)
  with ok b' show ?thesis by (simp add: book_ok_def book_links_def)
qed

lemma book_reduce_front:
  assumes "book_rel b A" "A s = x # xs" "best_level s b = Some (Some lv)"
  shows "\<exists>b'. modify_order (level_head lv) (set_qty q) b = Some b' \<and> book_rel b' (A(s := x\<lparr>ao_qty := q\<rparr> # xs))
        \<and> caps b' = caps b \<and> best_level s b' = best_level s b"
proof -
  from assms(1) obtain sh where ok: "book_ok b sh" and A: "A = abs_book b sh" by (auto simp: book_rel_def)
  from front_shape [OF ok, of s x xs] assms(2,3) A obtain l n ns B where f: "sh s = (l, n # ns) # B"
    "level_head lv = n" "n < length (slots (orders b))" "abs_order (slots (orders b) ! n) = x"
    "xs = map (\<lambda>n. abs_order (slots (orders b) ! n)) (ns @ nodes_of B)" by auto
  let ?O = "slots (orders b)" let ?O' = "?O[n := set_qty q (?O ! n)]"
  let ?b = "with_slots ?O' (slots (levels b)) b"
  have "distinct (shape_nodes sh)" using ok by (simp add: book_ok_def book_links_def)
  then have out: "n \<notin> set (ns @ nodes_of B)" "n \<notin> set (nodes_of (sh (opposite s)))"
    unfolding shape_split(3) [of sh s] f(1) by auto
  have "abs_book ?b (sh(s := sh s)) = (abs_book b sh)(s := abs_side ?O' (sh s))"
    by (subst abs_book_upd [of sh s ?b b]) (use out in \<open>auto simp: nth_update_cases\<close>)
  moreover have "abs_side ?O' (sh s) = x\<lparr>ao_qty := q\<rparr> # xs"
  proof -
    have "abs_order (?O' ! k) = abs_order (?O ! k)" if "k \<in> set (ns @ nodes_of B)" for k
      using that out(1) by (cases "k = n") auto
    then have "map (\<lambda>n. abs_order (?O' ! n)) (ns @ nodes_of B) = xs" unfolding f(5) by (intro map_cong) auto
    moreover have "abs_order (?O' ! n) = x\<lparr>ao_qty := q\<rparr>" using f(3,4) by (auto simp: set_qty_def abs_order_def)
    ultimately show ?thesis unfolding f(1) abs_side_def by simp
  qed
  ultimately have "book_rel ?b (A(s := x\<lparr>ao_qty := q\<rparr> # xs))"
    using set_qty_links [OF ok f(3) refl, of q] A unfolding book_rel_def by auto
  moreover have "best_level s ?b = best_level s b" by (simp add: best_level_def best_bid_def best_ask_def level_at_def with_slots_def)
  ultimately show ?thesis using f(2,3) by (simp add: modify_order_in)
qed

lemma book_remove_at:
  assumes ok: "book_ok b sh" and n: "nodes_of (sh s) = as @ n # bs"
  shows "\<exists>b'. remove_order n b = Some b' \<and> caps b' = caps b
    \<and> book_rel b' ((abs_book b sh)(s := map (\<lambda>n. abs_order (slots (orders b) ! n)) (as @ bs)))"
proof -
  from nodes_of_split_at [OF n] obtain A l xs ys B where
    "sh s = A @ (l, xs @ n # ys) # B" "as = nodes_of A @ xs" "bs = ys @ nodes_of B" by blast
  from remove_order_ok [OF ok this(1)] this(2,3) show ?thesis unfolding book_rel_def by metis
qed

lemma book_remove_front:
  assumes "book_rel b A" "A s = x # xs" "best_level s b = Some (Some lv)"
  shows "\<exists>b'. remove_order (level_head lv) b = Some b' \<and> book_rel b' (A(s := xs)) \<and> caps b' = caps b"
proof -
  from assms(1) obtain sh where ok: "book_ok b sh" and A: "A = abs_book b sh" by (auto simp: book_rel_def)
  from front_shape [OF ok, of s x xs] assms(2,3) A obtain l n ns B where f: "sh s = (l, n # ns) # B"
    "level_head lv = n" "xs = map (\<lambda>n. abs_order (slots (orders b) ! n)) (ns @ nodes_of B)" by auto
  then have "nodes_of (sh s) = [] @ n # (ns @ nodes_of B)" by simp
  from book_remove_at [OF ok this] f(2,3) A show ?thesis by auto
qed

lemma find_SomeD: "find P xs = Some x \<Longrightarrow> \<exists>as bs. xs = as @ x # bs \<and> P x \<and> (\<forall>a\<in>set as. \<not> P a)"
  by (induction xs) (auto split: if_splits intro: exI [of _ "[]"], metis append_Cons set_ConsD)

text \<open>One side's scan of \<open>find_order\<close>.\<close>

lemma find_side:
  assumes ok: "book_ok b sh"
  shows "find_order_from b i (side_head s b) =
    Some (case find (\<lambda>n. ro_order_id (slots (orders b) ! n) = i) (nodes_of (sh s)) of None \<Rightarrow> kNullNode | Some n \<Rightarrow> n)"
proof -
  note side = book_ok_side [OF ok, of s]
  have pools: "book_pools b (set (shape_nodes sh)) (set (shape_levels sh))" using ok by (simp add: book_ok_def)
  from side obtain t where "dseg (field lv_next_level (slots (levels b))) (field lv_prev_level (slots (levels b)))
      kNullNode (side_head s b) (map fst (sh s)) t kNullNode" by (auto simp: side_ok_def)
  moreover have "\<forall>(l, ns)\<in>set (sh s). l < length (slots (levels b)) \<and> l \<noteq> kNullNode
      \<and> level_ok (slots (orders b)) (slots (levels b) ! l) s ns
      \<and> (\<forall>n\<in>set ns. n < length (slots (orders b)) \<and> n \<noteq> kNullNode)"
    using side book_ranges [OF pools, of s] by (fastforce simp: side_ok_def)
  ultimately show ?thesis by (rule find_order_from_ok)
qed

lemma find_side_ids:
  assumes ok: "book_ok b sh"
  shows "if i \<in> a_ids (abs_book b sh s)
    then \<exists>n b'. find_order_from b i (side_head s b) = Some n \<and> n \<noteq> kNullNode \<and> remove_order n b = Some b'
      \<and> caps b' = caps b \<and> book_rel b' ((abs_book b sh)(s := a_delete i (abs_book b sh s)))
    else find_order_from b i (side_head s b) = Some kNullNode"
proof -
  let ?f = "\<lambda>n. abs_order (slots (orders b) ! n)" let ?P = "\<lambda>n. ro_order_id (slots (orders b) ! n) = i"
  have A: "abs_book b sh s = map ?f (nodes_of (sh s))" by (simp add: abs_book_def abs_side_def)
  have ids: "i \<in> a_ids (map ?f ns) \<longleftrightarrow> (\<exists>n\<in>set ns. ?P n)" for ns
    by (auto simp: a_ids_def abs_order_def image_image)
  show ?thesis
  proof (cases "find ?P (nodes_of (sh s))")
    case None
    then have "i \<notin> a_ids (abs_book b sh s)" unfolding A ids by (auto simp: find_None_iff)
    with find_side [OF ok, of i s] None show ?thesis by simp
  next
    case (Some n)
    from find_SomeD [OF this] obtain as bs where sp: "nodes_of (sh s) = as @ n # bs" "?P n" "\<forall>a\<in>set as. \<not> ?P a" by blast
    have "i \<in> a_ids (abs_book b sh s)" unfolding A ids sp(1) using sp(2) by simp
    moreover have "a_delete i (abs_book b sh s) = map ?f (as @ bs)"
    proof -
      have "i \<notin> a_ids (map ?f as)" unfolding ids using sp(3) by blast
      moreover have "ao_id (?f n) = i" using sp(2) by (simp add: abs_order_def)
      ultimately show ?thesis unfolding A sp(1) by (simp add: a_delete_split)
    qed
    moreover have "n \<noteq> kNullNode"
      using book_ranges(1) [of b sh s] ok sp(1) by (auto simp: book_ok_def)
    ultimately show ?thesis using book_remove_at [OF ok sp(1)] find_side [OF ok, of i s] Some by auto
  qed
qed

lemma find_order_sides: "find_order b i = do { found \<leftarrow> find_order_from b i (side_head Buy b);
    if found \<noteq> kNullNode then Some found else find_order_from b i (side_head Sell b) }"
  by (simp add: find_order_def side_head_def cong: if_cong)

interpretation book: resting_book book_rel caps best_level order_at modify_order remove_order insert_order find_order
proof unfold_locales
  fix b A s assume rel: "book_rel b A"
  then obtain sh where ok: "book_ok b sh" and A: "A = abs_book b sh" by (auto simp: book_rel_def)
  show "priority_sorted s (A s)" using rel by (rule book_rel_sorted)
  show "A s = [] \<Longrightarrow> best_level s b = Some None"
    using empty_side [OF ok, of s] A book_ok_side [OF ok, of s] by (auto simp: best_level_head side_ok_def)
  show "A s = x # xs \<Longrightarrow> \<exists>lv r. best_level s b = Some (Some lv) \<and> lv_price_ticks lv = ao_price x
        \<and> order_at b (level_head lv) = Some r \<and> abs_order r = x" for x xs
    using front_shape [OF ok, of s x xs] A by force
  show "a_has_room (caps b) s p A \<Longrightarrow> \<exists>b'. insert_order i s p t q b = Some (True, b') \<and> caps b' = caps b
        \<and> book_rel b' (A(s := a_insert s \<lparr>ao_id = i, ao_seq = t, ao_price = p, ao_qty = q\<rparr> (A s)))" for p i t q
    using insert_order_ok [OF ok refl, of p s i t q] room_full [OF ok, of s p] unfolding A book_rel_def by metis
  show "\<not> a_has_room (caps b) s p A \<Longrightarrow> insert_order i s p t q b = Some (False, b)" for p i t q
    using insert_order_ok [OF ok refl, of p s i t q] room_full [OF ok, of s p] A by auto
  show "i \<notin> a_ids (A Buy) \<union> a_ids (A Sell) \<Longrightarrow> find_order b i = Some kNullNode" for i
    using find_side_ids [OF ok, of i Buy] find_side_ids [OF ok, of i Sell] A by (simp add: find_order_sides)
  show "i \<in> a_ids (A Buy) \<union> a_ids (A Sell) \<Longrightarrow> \<exists>n b'. find_order b i = Some n \<and> n \<noteq> kNullNode
      \<and> remove_order n b = Some b' \<and> book_rel b' (a_cancel i A) \<and> caps b' = caps b" for i
    using find_side_ids [OF ok, of i Buy] find_side_ids [OF ok, of i Sell] A
    by (cases "i \<in> a_ids (A Buy)") (auto simp: find_order_sides a_cancel_def)
qed (fact book_reduce_front book_remove_front)+

lemma book_cleared:
  assumes "0 < pool_capacity (orders b)" "pool_capacity (orders b) \<le> kNullNode"
    "0 < pool_capacity (levels b)" "pool_capacity (levels b) \<le> kNullNode"
  shows "book_rel (book_clear b) (\<lambda>_. [])" "caps (book_clear b) = caps b"
proof -
  have "book_ok (book_clear b) (\<lambda>_. [])"
    using pool_reset_ok [of "orders b"] pool_reset_ok [of "levels b"] assms
    by (auto simp: book_ok_def book_pools_def book_links_def no_empty_level_def shape_nodes_def shape_levels_def
        book_clear_def side_ok_def side_head_def)
  then show "book_rel (book_clear b) (\<lambda>_. [])"
    unfolding book_rel_def by (intro exI [of _ "\<lambda>_. []"]) (simp add: abs_book_def abs_side_def fun_eq_iff)
  show "caps (book_clear b) = caps b"
    using assms by (simp add: caps_def book_clear_def pool_capacity_def pool_reset_def)
qed

lemma book_rel_caps:
  "book_rel b A \<Longrightarrow> 0 < pool_capacity (orders b) \<and> pool_capacity (orders b) \<le> kNullNode
     \<and> 0 < pool_capacity (levels b) \<and> pool_capacity (levels b) \<le> kNullNode"
  by (auto simp: book_rel_def book_ok_def book_pools_def pool_ok_def)

end
