(* ===== verification/Probe_Table.thy ===== *)
theory Probe_Table
  imports Pool
begin

text \<open>
  The open-addressing table of \<open>RetiredIdSet\<close> (\<open>matching_engine.hpp\<close>): linear probing from a
  Fibonacci-hash home slot and deletion by back-shifting.  \<open>cap\<close> is the template parameter
  \<open>Capacity\<close>.  The probe loops are \<open>partial_function (option)\<close>: on a table without a free slot
  they would not end.
\<close>

function pow2_from :: "nat \<Rightarrow> nat \<Rightarrow> nat" where
  "pow2_from p n = (if 0 < p \<and> p < n then pow2_from (p * 2) n else p)"
  by auto
termination by (relation "measure (\<lambda>(p, n). n - p)") auto

declare pow2_from.simps [simp del]

definition pow2_at_least :: "nat \<Rightarrow> nat" where
  "pow2_at_least n = pow2_from 1 n"

function log2_from :: "nat \<Rightarrow> nat \<Rightarrow> nat" where
  "log2_from l n = (if 2 ^ (l + 1) \<le> n then log2_from (l + 1) n else l)"
  by auto
termination
proof (relation "measure (\<lambda>(l, n). n - l)")
  fix l n :: nat assume le: "2 ^ (l + 1) \<le> n"
  have "l + 1 < 2 ^ (l + 1)" by (rule less_exp)
  with le show "((l + 1, n), l, n) \<in> measure (\<lambda>(l, n). n - l)" by simp
qed simp

declare log2_from.simps [simp del]

definition log2_floor :: "nat \<Rightarrow> nat" where
  "log2_floor n = log2_from 0 n"

definition kTableSize :: "nat \<Rightarrow> nat" where
  "kTableSize cap = pow2_at_least (2 * cap)"

definition kMask :: "nat \<Rightarrow> nat" where
  "kMask cap = kTableSize cap - 1"

definition kBits :: "nat \<Rightarrow> nat" where
  "kBits cap = log2_floor (kTableSize cap)"

definition kNoSlot :: nat where
  "kNoSlot = 18446744073709551615"

record Slot =
  key :: u64
  occupied :: bool

definition home :: "nat \<Rightarrow> u64 \<Rightarrow> nat" where
  "home cap k = unat (drop_bit (64 - kBits cap) (k * 0x9E3779B97F4A7C15))"

definition next_slot :: "nat \<Rightarrow> nat \<Rightarrow> nat" where
  "next_slot cap i = (i + 1) AND kMask cap"

partial_function (option) find_slot_from :: "nat \<Rightarrow> Slot list \<Rightarrow> u64 \<Rightarrow> nat \<Rightarrow> nat option" where
  "find_slot_from cap S oid i = do {
     s \<leftarrow> arr_get S i;
     if \<not> occupied s then Some kNoSlot
     else if key s = oid then Some i
     else find_slot_from cap S oid (next_slot cap i)
   }"

definition find_slot :: "nat \<Rightarrow> Slot list \<Rightarrow> u64 \<Rightarrow> nat option" where
  "find_slot cap S oid = find_slot_from cap S oid (home cap oid)"

partial_function (option) free_slot_from :: "nat \<Rightarrow> Slot list \<Rightarrow> nat \<Rightarrow> nat option" where
  "free_slot_from cap S i = do {
     s \<leftarrow> arr_get S i;
     if occupied s then free_slot_from cap S (next_slot cap i) else Some i
   }"

definition table_insert :: "nat \<Rightarrow> u64 \<Rightarrow> Slot list \<Rightarrow> Slot list option" where
  "table_insert cap oid S = do {
     i \<leftarrow> free_slot_from cap S (home cap oid);
     s \<leftarrow> arr_get S i;
     arr_set S i (s\<lparr>key := oid, occupied := True\<rparr>)
   }"

text \<open>
  The inner \<open>do ... while\<close> of \<open>erase\<close>: advance \<open>j\<close> past every key whose home lies cyclically in
  \<open>(i, j]\<close>; \<open>None\<close> at the end of the cluster.
\<close>

definition stays_put :: "nat \<Rightarrow> nat \<Rightarrow> nat \<Rightarrow> bool" where
  "stays_put i k j = (if i \<le> j then i < k \<and> k \<le> j else i < k \<or> k \<le> j)"

partial_function (option) scan_cluster :: "nat \<Rightarrow> Slot list \<Rightarrow> nat \<Rightarrow> nat \<Rightarrow> nat option option" where
  "scan_cluster cap S i j = do {
     s \<leftarrow> arr_get S (next_slot cap j);
     if \<not> occupied s then Some None
     else if stays_put i (home cap (key s)) (next_slot cap j) then scan_cluster cap S i (next_slot cap j)
     else Some (Some (next_slot cap j))
   }"

partial_function (option) back_shift :: "nat \<Rightarrow> Slot list \<Rightarrow> nat \<Rightarrow> nat \<Rightarrow> Slot list option" where
  "back_shift cap S i j = do {
     s \<leftarrow> arr_get S i;
     S \<leftarrow> arr_set S i (s\<lparr>occupied := False\<rparr>);
     r \<leftarrow> scan_cluster cap S i j;
     (case r of
        None \<Rightarrow> Some S
      | Some j' \<Rightarrow> do {
          t \<leftarrow> arr_get S j';
          S \<leftarrow> arr_set S i t;
          back_shift cap S j' j'
        })
   }"

definition erase_key :: "nat \<Rightarrow> u64 \<Rightarrow> Slot list \<Rightarrow> Slot list option" where
  "erase_key cap oid S = do {
     i \<leftarrow> find_slot cap S oid;
     if i = kNoSlot then Some S else back_shift cap S i i
   }"

declare find_slot_from.simps [code] free_slot_from.simps [code] scan_cluster.simps [code] back_shift.simps [code]

subsection \<open>Sizes\<close>

definition cap_ok :: "nat \<Rightarrow> bool" where
  "cap_ok cap \<longleftrightarrow> 0 < cap \<and> cap \<le> kNullNode"

lemma pow2_from_spec:
  "\<exists>c. pow2_from (2 ^ a) n = 2 ^ c \<and> n \<le> 2 ^ c \<and> (c = a \<or> 2 ^ c < 2 * n)"
proof (induction "n - 2 ^ a" arbitrary: a rule: less_induct)
  case less
  show ?case
  proof (cases "2 ^ a < n")
    case True
    then have "n - 2 ^ Suc a < n - 2 ^ a" by (simp add: diff_less_mono2)
    from less [OF this] obtain c where "pow2_from (2 ^ Suc a) n = 2 ^ c" "n \<le> 2 ^ c" "c = Suc a \<or> 2 ^ c < 2 * n"
      by blast
    with True show ?thesis
      by (intro exI [of _ c]) (auto simp: pow2_from.simps [of "2 ^ a"] mult.commute)
  qed (auto simp: pow2_from.simps)
qed

lemma log2_from_pow: "a \<le> c \<Longrightarrow> log2_from a (2 ^ c) = c"
proof (induction "c - a" arbitrary: a)
  case 0
  then show ?case by (simp add: log2_from.simps)
next
  case (Suc d)
  then have "a < c" "log2_from (Suc a) (2 ^ c) = c" by auto
  moreover have "(2::nat) ^ Suc a \<le> 2 ^ c" using \<open>a < c\<close> by (intro power_increasing) auto
  ultimately show ?case by (subst log2_from.simps) simp
qed

lemma table_size:
  assumes "cap_ok cap"
  shows "\<exists>c. kTableSize cap = 2 ^ c \<and> kBits cap = c \<and> 2 * cap \<le> 2 ^ c \<and> 0 < c \<and> c \<le> 64"
proof -
  from pow2_from_spec [of 0 "2 * cap"] obtain c where
    c: "pow2_from 1 (2 * cap) = 2 ^ c" "2 * cap \<le> 2 ^ c" "c = 0 \<or> 2 ^ c < 2 * (2 * cap)" by auto
  have "0 < c" using c(2) assms by (cases c) (auto simp: cap_ok_def)
  with c(3) assms have "(2::nat) ^ c < 2 ^ 34" by (simp add: cap_ok_def kNullNode_def)
  then have "c < 34" by (rule power_less_imp_less_exp [rotated]) simp
  with c \<open>0 < c\<close> show ?thesis
    by (intro exI [of _ c]) (simp add: kTableSize_def kBits_def pow2_at_least_def log2_floor_def log2_from_pow)
qed

lemma table_bound: "cap_ok cap \<Longrightarrow> cap < kTableSize cap \<and> kTableSize cap < kNoSlot"
proof -
  assume ok: "cap_ok cap"
  from table_size [OF ok] obtain c where c: "kTableSize cap = 2 ^ c" "2 * cap \<le> 2 ^ c" by auto
  from pow2_from_spec [of 0 "2 * cap"] ok have "kTableSize cap < 2 * (2 * cap) \<or> kTableSize cap = 1"
    by (auto simp: kTableSize_def pow2_at_least_def)
  with ok c show ?thesis by (auto simp: cap_ok_def kNullNode_def kNoSlot_def)
qed

lemma next_slot_cyc:
  assumes "cap_ok cap" "i < kTableSize cap"
  shows "next_slot cap i = (if i + 1 = kTableSize cap then 0 else i + 1)"
proof -
  from table_size [OF assms(1)] obtain c where c: "kTableSize cap = 2 ^ c" by auto
  have "next_slot cap i = (i + 1) mod 2 ^ c"
    using c by (simp add: next_slot_def kMask_def take_bit_eq_mod [symmetric] take_bit_eq_mask mask_eq_exp_minus_1)
  with c assms(2) show ?thesis by (auto simp: mod_less)
qed

lemma home_lt: "cap_ok cap \<Longrightarrow> home cap k < kTableSize cap"
proof -
  assume "cap_ok cap"
  from table_size [OF this] obtain c where c: "kTableSize cap = 2 ^ c" "kBits cap = c" "c \<le> 64" by auto
  let ?w = "k * 0x9E3779B97F4A7C15"
  have "unat ?w < 2 ^ (64 - c) * 2 ^ c" using c(3) unsigned_less [of ?w] by (simp add: power_add [symmetric])
  then have "unat ?w div 2 ^ (64 - c) < 2 ^ c" by (simp add: div_less_iff_less_mult mult.commute)
  then have "drop_bit (64 - c) (unat ?w) < 2 ^ c" by (simp add: drop_bit_eq_div)
  then show ?thesis by (simp only: home_def c(1,2) unat_drop_bit_eq)
qed

subsection \<open>The cyclic order, cut open at a free slot\<close>

text \<open>\<open>cyc h x j\<close>: slot \<open>x\<close> lies on the probe path from \<open>h\<close> up to, not including, \<open>j\<close>.\<close>

definition cyc :: "nat \<Rightarrow> nat \<Rightarrow> nat \<Rightarrow> bool" where
  "cyc h x j = (if h \<le> j then h \<le> x \<and> x < j else h \<le> x \<or> x < j)"

text \<open>The position of a slot counted from just after \<open>f\<close>, so that \<open>f\<close> itself comes last.\<close>

definition pos :: "nat \<Rightarrow> nat \<Rightarrow> nat \<Rightarrow> nat" where
  "pos M f x = (if f < x then x - f - 1 else x + M - 1 - f)"

lemma pos_inj: "x < M \<Longrightarrow> y < M \<Longrightarrow> f < M \<Longrightarrow> pos M f x = pos M f y \<longleftrightarrow> x = y"
  by (auto simp: pos_def)

lemma pos_le: "x < M \<Longrightarrow> f < M \<Longrightarrow> pos M f x \<le> M - 1"
  by (auto simp: pos_def)

lemma cyc_pos:
  "h < M \<Longrightarrow> x < M \<Longrightarrow> j < M \<Longrightarrow> f < M \<Longrightarrow> pos M f h \<le> pos M f j \<Longrightarrow>
     cyc h x j \<longleftrightarrow> pos M f h \<le> pos M f x \<and> pos M f x < pos M f j"
  by (auto simp: cyc_def pos_def split: if_splits)

lemma not_cyc_pos:
  "h < M \<Longrightarrow> j < M \<Longrightarrow> f < M \<Longrightarrow> \<not> cyc h f j \<Longrightarrow> f \<noteq> j \<Longrightarrow> pos M f h \<le> pos M f j"
  by (auto simp: cyc_def pos_def split: if_splits)

lemma pos_next:
  assumes "cap_ok cap" "i < kTableSize cap" "f < kTableSize cap" "i \<noteq> f"
  shows "pos (kTableSize cap) f (next_slot cap i) = pos (kTableSize cap) f i + 1" "next_slot cap i < kTableSize cap"
  using assms by (auto simp: next_slot_cyc pos_def split: if_splits)

lemma stays_put_pos:
  "i < M \<Longrightarrow> k < M \<Longrightarrow> j < M \<Longrightarrow> f < M \<Longrightarrow> pos M f i < pos M f j \<Longrightarrow>
     stays_put i k j \<longleftrightarrow> pos M f i < pos M f k \<and> pos M f k \<le> pos M f j"
  by (auto simp: stays_put_def pos_def split: if_splits)

lemma pos_between:
  "i < M \<Longrightarrow> x < M \<Longrightarrow> f < M \<Longrightarrow> i \<noteq> f \<Longrightarrow> pos M f i \<le> pos M f x \<Longrightarrow> x \<noteq> i \<Longrightarrow> pos M f i + 1 \<le> pos M f x"
  using pos_inj [of x M i f] by linarith

subsection \<open>The table invariant\<close>

definition occ :: "Slot list \<Rightarrow> nat \<Rightarrow> bool" where
  "occ S j \<longleftrightarrow> j < length S \<and> occupied (S ! j)"

definition keys_of :: "Slot list \<Rightarrow> u64 set" where
  "keys_of S = {key (S ! j) |j. occ S j}"

definition one_slot_per_key :: "Slot list \<Rightarrow> bool" where
  "one_slot_per_key S \<longleftrightarrow> (\<forall>i j. occ S i \<longrightarrow> occ S j \<longrightarrow> key (S ! i) = key (S ! j) \<longrightarrow> i = j)"

definition table_ok :: "nat \<Rightarrow> Slot list \<Rightarrow> bool" where
  "table_ok cap S \<longleftrightarrow> cap_ok cap \<and> length S = kTableSize cap \<and> (\<exists>f < length S. \<not> occ S f) \<and> one_slot_per_key S
     \<and> (\<forall>j x. occ S j \<longrightarrow> x < length S \<longrightarrow> cyc (home cap (key (S ! j))) x j \<longrightarrow> occ S x)"

text \<open>Seen from any free slot, every key lies after its home with nothing free in between.\<close>

lemma table_path:
  assumes "table_ok cap S" "f < length S" "\<not> occ S f" "occ S j"
  shows "pos (length S) f (home cap (key (S ! j))) \<le> pos (length S) f j"
    and "\<And>x. x < length S \<Longrightarrow> pos (length S) f (home cap (key (S ! j))) \<le> pos (length S) f x \<Longrightarrow>
      pos (length S) f x < pos (length S) f j \<Longrightarrow> occ S x"
proof -
  let ?h = "home cap (key (S ! j))"
  have j: "j < length S" "j \<noteq> f" using assms(3,4) by (auto simp: occ_def)
  have h: "?h < length S" using assms(1) home_lt by (simp add: table_ok_def)
  have "\<not> cyc ?h f j" using assms by (auto simp: table_ok_def)
  with not_cyc_pos [OF h j(1) assms(2)] j(2) show le: "pos (length S) f ?h \<le> pos (length S) f j" by blast
  show "x < length S \<Longrightarrow> pos (length S) f ?h \<le> pos (length S) f x \<Longrightarrow> pos (length S) f x < pos (length S) f j \<Longrightarrow> occ S x" for x
    using cyc_pos [OF h _ j(1) assms(2) le, of x] assms(1,4) by (auto simp: table_ok_def)
qed

lemma table_okI:
  assumes "cap_ok cap" "length S = kTableSize cap" "f < length S" "\<not> occ S f" "one_slot_per_key S"
    and path: "\<And>j. occ S j \<Longrightarrow> pos (length S) g (home cap (key (S ! j))) \<le> pos (length S) g j"
      "\<And>j x. occ S j \<Longrightarrow> x < length S \<Longrightarrow> pos (length S) g (home cap (key (S ! j))) \<le> pos (length S) g x \<Longrightarrow>
        pos (length S) g x < pos (length S) g j \<Longrightarrow> occ S x" and g: "g < length S"
  shows "table_ok cap S"
proof -
  have "occ S x" if "occ S j" "x < length S" "cyc (home cap (key (S ! j))) x j" for j x
  proof (rule path(2) [OF that(1,2)])
    have "j < length S" using that(1) by (simp add: occ_def)
    moreover have "home cap (key (S ! j)) < length S" using assms(1,2) home_lt by simp
    ultimately show "pos (length S) g (home cap (key (S ! j))) \<le> pos (length S) g x" "pos (length S) g x < pos (length S) g j"
      using cyc_pos [OF _ that(2) _ g path(1) [OF that(1)]] that(3) by blast+
  qed
  then show ?thesis unfolding table_ok_def using assms(1-5) by blast
qed

lemma free_slot_exists:
  assumes "one_slot_per_key S" "card (keys_of S) < length S"
  shows "\<exists>f < length S. \<not> occ S f"
proof (rule ccontr)
  assume "\<not> ?thesis"
  then have all: "{j. occ S j} = {..<length S}" by (auto simp: occ_def)
  have "inj_on (\<lambda>j. key (S ! j)) {j. occ S j}" using assms(1) by (auto simp: inj_on_def one_slot_per_key_def)
  moreover have "keys_of S = (\<lambda>j. key (S ! j)) ` {j. occ S j}" by (auto simp: keys_of_def)
  ultimately have "card (keys_of S) = length S" using all by (simp add: card_image)
  with assms(2) show False by simp
qed

subsection \<open>Probing\<close>

lemma find_slot_from_ok:
  assumes "cap_ok cap" "length S = kTableSize cap" "f < length S" "\<not> occ S f" "i < length S"
  shows "\<exists>e < length S. pos (length S) f i \<le> pos (length S) f e
    \<and> (\<forall>x < length S. pos (length S) f i \<le> pos (length S) f x \<longrightarrow> pos (length S) f x < pos (length S) f e \<longrightarrow>
         occ S x \<and> key (S ! x) \<noteq> oid)
    \<and> (if occ S e then key (S ! e) = oid \<and> find_slot_from cap S oid i = Some e
       else find_slot_from cap S oid i = Some kNoSlot)"
  using assms(5)
proof (induction "length S - pos (length S) f i" arbitrary: i rule: less_induct)
  case less
  note i = less.prems
  show ?case
  proof (cases "occ S i \<and> key (S ! i) \<noteq> oid")
    case False
    with i show ?thesis
      by (intro exI [of _ i]) (auto simp: find_slot_from.simps [of cap S oid i] occ_def)
  next
    case True
    with assms(4) have ne: "i \<noteq> f" by auto
    note nx = pos_next [OF assms(1) i [unfolded assms(2)] assms(3) [unfolded assms(2)] ne, folded assms(2)]
    have "pos (length S) f i \<le> length S - 1" using pos_le [OF i assms(3)] .
    with i nx have lt: "length S - pos (length S) f (next_slot cap i) < length S - pos (length S) f i" by linarith
    from less.hyps [OF lt nx(2)] obtain e where e: "e < length S"
      "pos (length S) f (next_slot cap i) \<le> pos (length S) f e"
      "\<forall>x < length S. pos (length S) f (next_slot cap i) \<le> pos (length S) f x \<longrightarrow> pos (length S) f x < pos (length S) f e \<longrightarrow>
         occ S x \<and> key (S ! x) \<noteq> oid"
      "if occ S e then key (S ! e) = oid \<and> find_slot_from cap S oid (next_slot cap i) = Some e
       else find_slot_from cap S oid (next_slot cap i) = Some kNoSlot" by blast
    have step: "find_slot_from cap S oid i = find_slot_from cap S oid (next_slot cap i)"
      using True by (simp add: find_slot_from.simps [of cap S oid i] occ_def)
    have "occ S x \<and> key (S ! x) \<noteq> oid" if x: "x < length S" "pos (length S) f i \<le> pos (length S) f x"
      "pos (length S) f x < pos (length S) f e" for x
      using e(3) True x nx(1) pos_between [OF i x(1) assms(3) ne x(2)] by (cases "x = i") auto
    with e(1,2,4) nx(1) show ?thesis unfolding step by (intro exI [of _ e]) simp
  qed
qed

lemma free_slot_from_ok:
  assumes "cap_ok cap" "length S = kTableSize cap" "f < length S" "\<not> occ S f" "i < length S"
  shows "\<exists>e < length S. pos (length S) f i \<le> pos (length S) f e \<and> \<not> occ S e
    \<and> (\<forall>x < length S. pos (length S) f i \<le> pos (length S) f x \<longrightarrow> pos (length S) f x < pos (length S) f e \<longrightarrow> occ S x)
    \<and> free_slot_from cap S i = Some e"
  using assms(5)
proof (induction "length S - pos (length S) f i" arbitrary: i rule: less_induct)
  case less
  note i = less.prems
  show ?case
  proof (cases "occ S i")
    case False
    with i show ?thesis
      by (intro exI [of _ i]) (auto simp: free_slot_from.simps [of cap S i] occ_def)
  next
    case True
    with assms(4) have ne: "i \<noteq> f" by auto
    note nx = pos_next [OF assms(1) i [unfolded assms(2)] assms(3) [unfolded assms(2)] ne, folded assms(2)]
    have "pos (length S) f i \<le> length S - 1" using pos_le [OF i assms(3)] .
    with i nx have lt: "length S - pos (length S) f (next_slot cap i) < length S - pos (length S) f i" by linarith
    from less.hyps [OF lt nx(2)] obtain e where e: "e < length S"
      "pos (length S) f (next_slot cap i) \<le> pos (length S) f e" "\<not> occ S e"
      "\<forall>x < length S. pos (length S) f (next_slot cap i) \<le> pos (length S) f x \<longrightarrow> pos (length S) f x < pos (length S) f e \<longrightarrow> occ S x"
      "free_slot_from cap S (next_slot cap i) = Some e" by blast
    have step: "free_slot_from cap S i = free_slot_from cap S (next_slot cap i)"
      using True by (simp add: free_slot_from.simps [of cap S i] occ_def)
    have "occ S x" if x: "x < length S" "pos (length S) f i \<le> pos (length S) f x" "pos (length S) f x < pos (length S) f e" for x
      using e(4) True x nx(1) pos_between [OF i x(1) assms(3) ne x(2)] by (cases "x = i") auto
    with e(1,2,3,5) nx(1) show ?thesis unfolding step by (intro exI [of _ e]) simp
  qed
qed

lemma find_slot_ok:
  assumes ok: "table_ok cap S"
  shows "if oid \<in> keys_of S then \<exists>j. find_slot cap S oid = Some j \<and> occ S j \<and> key (S ! j) = oid \<and> j \<noteq> kNoSlot
    else find_slot cap S oid = Some kNoSlot"
proof -
  from ok have c: "cap_ok cap" "length S = kTableSize cap" by (auto simp: table_ok_def)
  from ok obtain f where f: "f < length S" "\<not> occ S f" by (auto simp: table_ok_def)
  have h: "home cap oid < length S" using home_lt [OF c(1)] c(2) by simp
  from find_slot_from_ok [OF c f h, of oid] obtain e where e: "e < length S" "pos (length S) f (home cap oid) \<le> pos (length S) f e"
    "\<forall>x < length S. pos (length S) f (home cap oid) \<le> pos (length S) f x \<longrightarrow> pos (length S) f x < pos (length S) f e \<longrightarrow>
         occ S x \<and> key (S ! x) \<noteq> oid"
    "if occ S e then key (S ! e) = oid \<and> find_slot cap S oid = Some e else find_slot cap S oid = Some kNoSlot"
    unfolding find_slot_def by blast
  show ?thesis
  proof (cases "occ S e")
    case True
    with e(4) have "oid \<in> keys_of S" by (auto simp: keys_of_def)
    moreover have "e \<noteq> kNoSlot" using e(1) c table_bound [OF c(1)] by simp
    ultimately show ?thesis using True e(4) by auto
  next
    case False
    have "oid \<notin> keys_of S"
    proof
      assume "oid \<in> keys_of S"
      then obtain j where j: "occ S j" "key (S ! j) = oid" by (auto simp: keys_of_def)
      note p = table_path [OF ok f j(1), unfolded j(2)]
      have jl: "j < length S" using j(1) by (simp add: occ_def)
      have "\<not> pos (length S) f j < pos (length S) f e" using e(3) p(1) j jl by blast
      moreover have "\<not> pos (length S) f e < pos (length S) f j" using p(2) [OF e(1,2)] False by blast
      ultimately have "j = e" using pos_inj [OF jl e(1) f(1)] by simp
      with False j(1) show False by simp
    qed
    with False e(4) show ?thesis by simp
  qed
qed

lemma table_insert_ok:
  assumes ok: "table_ok cap S" and new: "oid \<notin> keys_of S" and room: "card (keys_of S) + 1 < length S"
  shows "\<exists>S'. table_insert cap oid S = Some S' \<and> table_ok cap S' \<and> keys_of S' = insert oid (keys_of S)"
proof -
  from ok have c: "cap_ok cap" "length S = kTableSize cap" and one: "one_slot_per_key S" by (auto simp: table_ok_def)
  from ok obtain f where f: "f < length S" "\<not> occ S f" by (auto simp: table_ok_def)
  have h: "home cap oid < length S" using home_lt [OF c(1)] c(2) by simp
  from free_slot_from_ok [OF c f h] obtain e where e: "e < length S"
    "pos (length S) f (home cap oid) \<le> pos (length S) f e" "\<not> occ S e"
    "\<forall>x < length S. pos (length S) f (home cap oid) \<le> pos (length S) f x \<longrightarrow> pos (length S) f x < pos (length S) f e \<longrightarrow> occ S x"
    "free_slot_from cap S (home cap oid) = Some e" by blast
  let ?S = "S[e := (S ! e)\<lparr>key := oid, occupied := True\<rparr>]"
  have o: "occ ?S j \<longleftrightarrow> j = e \<or> occ S j" and k: "key (?S ! j) = (if j = e then oid else key (S ! j))" for j
    using e(1) by (auto simp: occ_def nth_update_cases)
  have ks: "keys_of ?S = insert oid (keys_of S)"
    unfolding keys_of_def o k using e(3) by (auto simp: occ_def)
  have one': "one_slot_per_key ?S" using one new unfolding one_slot_per_key_def o k keys_of_def by auto
  have fin: "finite (keys_of S)" by (rule finite_subset [of _ "(\<lambda>j. key (S ! j)) ` {..<length S}"]) (auto simp: keys_of_def occ_def)
  then have "card (keys_of ?S) < length ?S" unfolding ks using room new by simp
  from free_slot_exists [OF one' this] obtain g where g: "g < length ?S" "\<not> occ ?S g" by blast
  have "table_ok cap ?S"
  proof (rule table_okI [where f = g and g = f])
    fix j assume j: "occ ?S j"
    show "pos (length ?S) f (home cap (key (?S ! j))) \<le> pos (length ?S) f j"
      using table_path(1) [OF ok f, of j] e(2) j unfolding o k by auto
    fix x assume "x < length ?S" "pos (length ?S) f (home cap (key (?S ! j))) \<le> pos (length ?S) f x"
      "pos (length ?S) f x < pos (length ?S) f j"
    then show "occ ?S x" using table_path(2) [OF ok f, of j x] e(4) j unfolding o k by (auto split: if_splits)
  qed (use c f g one' in simp_all)
  moreover have "table_insert cap oid S = Some ?S" using e(1,5) by (simp add: table_insert_def)
  ultimately show ?thesis using ks by blast
qed

subsection \<open>Deletion\<close>

text \<open>
  The state of the back-shift loop: slot \<open>i\<close> is a hole that probe paths may still cross, \<open>f\<close> is a
  genuinely free slot, and every key in \<open>(i, j]\<close> has its home after the hole.
\<close>

definition hole_ok :: "nat \<Rightarrow> Slot list \<Rightarrow> nat \<Rightarrow> nat \<Rightarrow> nat \<Rightarrow> bool" where
  "hole_ok cap S f i j \<longleftrightarrow> cap_ok cap \<and> length S = kTableSize cap \<and> one_slot_per_key S
     \<and> f < length S \<and> \<not> occ S f \<and> i < length S \<and> \<not> occ S i \<and> i \<noteq> f
     \<and> j < length S \<and> j \<noteq> f \<and> pos (length S) f i \<le> pos (length S) f j
     \<and> (\<forall>t. occ S t \<longrightarrow> pos (length S) f (home cap (key (S ! t))) \<le> pos (length S) f t
          \<and> (\<forall>x < length S. pos (length S) f (home cap (key (S ! t))) \<le> pos (length S) f x \<longrightarrow>
               pos (length S) f x < pos (length S) f t \<longrightarrow> occ S x \<or> x = i))
     \<and> (\<forall>x < length S. pos (length S) f i < pos (length S) f x \<longrightarrow> pos (length S) f x \<le> pos (length S) f j \<longrightarrow>
          occ S x \<and> pos (length S) f i < pos (length S) f (home cap (key (S ! x))))"

lemma hole_closed:
  assumes H: "hole_ok cap S f i j" and free: "\<not> occ S (next_slot cap j)"
  shows "table_ok cap S"
proof -
  let ?p = "pos (length S) f" let ?h = "\<lambda>t. home cap (key (S ! t))"
  from H have c: "cap_ok cap" "length S = kTableSize cap" "f < length S" "\<not> occ S f" "one_slot_per_key S"
    and i: "i < length S" "\<not> occ S i" and j: "j < length S" "j \<noteq> f" "?p i \<le> ?p j"
    and path: "\<And>t. occ S t \<Longrightarrow> ?p (?h t) \<le> ?p t"
      "\<And>t x. occ S t \<Longrightarrow> x < length S \<Longrightarrow> ?p (?h t) \<le> ?p x \<Longrightarrow> ?p x < ?p t \<Longrightarrow> occ S x \<or> x = i"
    and scanned: "\<And>x. x < length S \<Longrightarrow> ?p i < ?p x \<Longrightarrow> ?p x \<le> ?p j \<Longrightarrow> ?p i < ?p (?h x)"
    unfolding hole_ok_def by blast+
  note nx = pos_next [OF c(1) j(1) [unfolded c(2)] c(3) [unfolded c(2)] j(2), folded c(2)]
  have "occ S x" if t: "occ S t" and x: "x < length S" "?p (?h t) \<le> ?p x" "?p x < ?p t" for t x
  proof (rule ccontr)
    assume no: "\<not> occ S x"
    with path(2) [OF t x] have xi: "x = i" by blast
    have tl: "t < length S" using t by (simp add: occ_def)
    have "\<not> ?p t \<le> ?p j" using scanned [OF tl] x(2,3) xi by auto
    then have "?p (next_slot cap j) \<le> ?p t" using nx(1) by simp
    moreover have "?p (next_slot cap j) \<noteq> ?p t" using pos_inj [OF nx(2) tl c(3)] t free by auto
    moreover have "?p (?h t) \<le> ?p (next_slot cap j)" using x(2) xi j(3) nx(1) by simp
    ultimately have "next_slot cap j = i" using path(2) [OF t nx(2)] free by linarith
    then show False using nx(1) j(3) by simp
  qed
  with path(1) show ?thesis by (intro table_okI [OF c(1,2,3,4,5) _ _ c(3)]) auto
qed

lemma scan_cluster_ok:
  assumes "hole_ok cap S f i j"
  shows "scan_cluster cap S i j = Some None \<and> table_ok cap S
    \<or> (\<exists>j'. scan_cluster cap S i j = Some (Some j') \<and> occ S j' \<and> pos (length S) f j < pos (length S) f j'
         \<and> pos (length S) f (home cap (key (S ! j'))) \<le> pos (length S) f i)"
  using assms
proof (induction "length S - pos (length S) f j" arbitrary: j rule: less_induct)
  case less
  note H = less.prems
  let ?p = "pos (length S) f" let ?n = "next_slot cap j" let ?h = "\<lambda>t. home cap (key (S ! t))"
  from H have c: "cap_ok cap" "length S = kTableSize cap" "f < length S" "\<not> occ S f"
    and i: "i < length S" and j: "j < length S" "j \<noteq> f" "?p i \<le> ?p j" by (auto simp: hole_ok_def)
  note nx = pos_next [OF c(1) j(1) [unfolded c(2)] c(3) [unfolded c(2)] j(2), folded c(2)]
  have g: "arr_get S ?n = Some (S ! ?n)" using nx(2) by simp
  show ?case
  proof (cases "occ S ?n")
    case False
    then have "scan_cluster cap S i j = Some None"
      using g nx(2) by (subst scan_cluster.simps) (simp add: occ_def)
    with hole_closed [OF H False] show ?thesis by blast
  next
    case True
    have hn: "?h ?n < length S" using home_lt [OF c(1)] c(2) by simp
    have le: "?p (?h ?n) \<le> ?p ?n" using H True unfolding hole_ok_def by blast
    have sp: "stays_put i (?h ?n) ?n \<longleftrightarrow> ?p i < ?p (?h ?n)"
      using stays_put_pos [OF i hn nx(2) c(3)] nx(1) j(3) le by simp
    show ?thesis
    proof (cases "?p i < ?p (?h ?n)")
      case put: True
      have fn: "?n \<noteq> f" using True c(4) by auto
      have "x < length S \<Longrightarrow> ?p i < ?p x \<Longrightarrow> ?p x \<le> ?p ?n \<Longrightarrow> occ S x \<and> ?p i < ?p (?h x)" for x
        using H True put nx(1) pos_inj [OF _ nx(2) c(3), of x] unfolding hole_ok_def
        by (cases "?p x \<le> ?p j") auto
      then have H': "hole_ok cap S f i ?n" using H fn nx j(3) unfolding hole_ok_def by auto
      have "?p j \<le> length S - 1" using pos_le [OF j(1) c(3)] .
      with j(1) nx(1) have "length S - ?p ?n < length S - ?p j" by linarith
      from less.hyps [OF this H'] nx(1) show ?thesis
        using g True put sp by (subst (1 2) scan_cluster.simps) (auto simp: occ_def)
    next
      case False
      with g True sp nx(1) show ?thesis
        by (intro disjI2 exI [of _ ?n]) (subst scan_cluster.simps, auto simp: occ_def)
    qed
  qed
qed

lemma hole_moves:
  assumes H: "hole_ok cap S f i j" and m: "occ S m" "pos (length S) f j < pos (length S) f m"
      "pos (length S) f (home cap (key (S ! m))) \<le> pos (length S) f i"
    and T: "T = S[i := S ! m]" "T' = T[m := (T ! m)\<lparr>occupied := False\<rparr>]"
  shows "hole_ok cap T' f m m \<and> keys_of T' = keys_of S"
proof -
  let ?p = "pos (length S) f" let ?h = "\<lambda>t. home cap (key (S ! t))"
  from H have c: "cap_ok cap" "length S = kTableSize cap" "f < length S" "\<not> occ S f" "one_slot_per_key S"
    and i: "i < length S" "\<not> occ S i" "i \<noteq> f" and j: "?p i \<le> ?p j"
    and path: "\<And>t. occ S t \<Longrightarrow> ?p (?h t) \<le> ?p t"
      "\<And>t x. occ S t \<Longrightarrow> x < length S \<Longrightarrow> ?p (?h t) \<le> ?p x \<Longrightarrow> ?p x < ?p t \<Longrightarrow> occ S x \<or> x = i"
    unfolding hole_ok_def by blast+
  have ml: "m < length S" "m \<noteq> i" "m \<noteq> f" "?p i < ?p m" using m(1,2) i(2) c(4) j by (auto simp: occ_def)
  have len: "length T' = length S" using T by simp
  have o: "occ T' x \<longleftrightarrow> x = i \<or> occ S x \<and> x \<noteq> m" and k: "key (T' ! x) = (if x = i then key (S ! m) else key (S ! x))" for x
    using ml i(1) m(1) T by (auto simp: occ_def nth_update_cases)
  have "one_slot_per_key T'" using c(5) m(1) i(2) unfolding one_slot_per_key_def o k by metis
  moreover have "pos (length S) f (home cap (key (T' ! t))) \<le> pos (length S) f t" if "occ T' t" for t
    using that path(1) m(3) unfolding o k by auto
  moreover have "occ T' x \<or> x = m" if t: "occ T' t" "x < length S" "?p (home cap (key (T' ! t))) \<le> ?p x" "?p x < ?p t" for t x
  proof (cases "t = i")
    case True
    then have "occ S x" using path(2) [OF m(1) t(2)] t(3,4) ml(4) unfolding k by auto
    then show ?thesis unfolding o by blast
  next
    case False
    then have "occ S t" "?p (?h t) \<le> ?p x" using t(1,3) unfolding o k by auto
    then have "occ S x \<or> x = i" using path(2) t(2,4) by blast
    then show ?thesis unfolding o by blast
  qed
  moreover have "x < length S \<Longrightarrow> ?p m < ?p x \<Longrightarrow> \<not> ?p x \<le> ?p m" for x by simp
  ultimately have "hole_ok cap T' f m m"
    unfolding hole_ok_def len using c i ml m(1) by (auto simp: o)
  moreover have "keys_of T' = keys_of S" unfolding keys_of_def o k using m(1) i(2) by (auto split: if_splits) metis
  ultimately show ?thesis by blast
qed

lemma back_shift_ok:
  assumes "hole_ok cap (S[i := (S ! i)\<lparr>occupied := False\<rparr>]) f i j"
  shows "\<exists>S'. back_shift cap S i j = Some S' \<and> table_ok cap S'
    \<and> keys_of S' = keys_of (S[i := (S ! i)\<lparr>occupied := False\<rparr>])"
  using assms
proof (induction "length S - pos (length S) f j" arbitrary: S i j rule: less_induct)
  case less
  let ?S = "S[i := (S ! i)\<lparr>occupied := False\<rparr>]"
  note H = less.prems
  have i: "i < length S" and j: "j < length S" "f < length S" using H by (auto simp: hole_ok_def)
  from scan_cluster_ok [OF H] show ?case
  proof (elim disjE exE conjE)
    assume "scan_cluster cap ?S i j = Some None" "table_ok cap ?S"
    then show ?thesis using i by (subst back_shift.simps) simp
  next
    fix m assume m: "scan_cluster cap ?S i j = Some (Some m)" "occ ?S m" "pos (length ?S) f j < pos (length ?S) f m"
      "pos (length ?S) f (home cap (key (?S ! m))) \<le> pos (length ?S) f i"
    let ?T = "?S[i := ?S ! m]"
    from hole_moves [OF H m(2,3,4) refl refl] have T: "hole_ok cap (?T[m := (?T ! m)\<lparr>occupied := False\<rparr>]) f m m"
      "keys_of (?T[m := (?T ! m)\<lparr>occupied := False\<rparr>]) = keys_of ?S" by blast+
    have ml: "m < length S" using m(2) by (simp add: occ_def)
    have "length ?T - pos (length ?T) f m < length S - pos (length S) f j"
      using m(3) pos_le [OF ml j(2)] pos_le [OF j] j by simp
    from less.hyps [OF this T(1)] T(2) obtain S' where
      "back_shift cap ?T m m = Some S'" "table_ok cap S'" "keys_of S' = keys_of ?S" by auto
    then show ?thesis using i ml m(1) by (subst back_shift.simps) simp
  qed
qed

lemma erase_key_ok:
  assumes ok: "table_ok cap S"
  shows "\<exists>S'. erase_key cap oid S = Some S' \<and> table_ok cap S' \<and> keys_of S' = keys_of S - {oid}"
proof (cases "oid \<in> keys_of S")
  case False
  with find_slot_ok [OF ok, of oid] ok show ?thesis by (simp add: erase_key_def)
next
  case True
  with find_slot_ok [OF ok, of oid] obtain i where i: "find_slot cap S oid = Some i" "occ S i" "key (S ! i) = oid" "i \<noteq> kNoSlot"
    by auto
  from ok obtain f where f: "f < length S" "\<not> occ S f" by (auto simp: table_ok_def)
  let ?S = "S[i := (S ! i)\<lparr>occupied := False\<rparr>]"
  have il: "i < length S" "i \<noteq> f" using i(2) f by (auto simp: occ_def)
  have o: "occ ?S x \<longleftrightarrow> occ S x \<and> x \<noteq> i" and k: "key (?S ! x) = key (S ! x)" for x
    using il(1) by (auto simp: occ_def nth_update_cases)
  have one: "one_slot_per_key S" using ok by (simp add: table_ok_def)
  have "keys_of ?S = keys_of S - {oid}"
    using one i(2,3) unfolding keys_of_def o k one_slot_per_key_def by auto
  moreover have "one_slot_per_key ?S" using one unfolding one_slot_per_key_def o k by blast
  moreover have "cap_ok cap" "length S = kTableSize cap" using ok by (auto simp: table_ok_def)
  moreover have "\<forall>t. occ S t \<and> t \<noteq> i \<longrightarrow> pos (length S) f (home cap (key (S ! t))) \<le> pos (length S) f t
      \<and> (\<forall>x < length S. pos (length S) f (home cap (key (S ! t))) \<le> pos (length S) f x \<longrightarrow>
           pos (length S) f x < pos (length S) f t \<longrightarrow> occ S x \<and> x \<noteq> i \<or> x = i)"
    using table_path [OF ok f] by blast
  ultimately have "keys_of ?S = keys_of S - {oid}" "hole_ok cap ?S f i i"
    unfolding hole_ok_def length_list_update o k using f il by simp_all
  then show ?thesis using back_shift_ok [of cap S i f i] i(1,4) by (simp add: erase_key_def)
qed

end
