(* ===== verification/Retired_Ids.thy ===== *)
theory Retired_Ids
  imports Probe_Table
begin

text \<open>
  \<open>RetiredIdSet\<close> of \<open>matching_engine.hpp\<close>: the probe table paired with a ring that records the
  insertion order, so that the oldest identifier is evicted when the set is full.  The locale
  \<open>id_history\<close> is what cancellation relies on: membership in a bounded first-in-first-out history.
\<close>

record RetiredIdSet =
  rs_slots :: "Slot list"
  rs_ring :: "u64 list"
  rs_head :: nat
  rs_count :: nat

definition rs_capacity :: "RetiredIdSet \<Rightarrow> nat" where
  "rs_capacity r = length (rs_ring r)"

definition rs_contains :: "RetiredIdSet \<Rightarrow> u64 \<Rightarrow> bool option" where
  "rs_contains r oid = do {
     i \<leftarrow> find_slot (rs_capacity r) (rs_slots r) oid;
     Some (i \<noteq> kNoSlot)
   }"

definition rs_evict_oldest :: "RetiredIdSet \<Rightarrow> RetiredIdSet option" where
  "rs_evict_oldest r = do {
     oldest \<leftarrow> arr_get (rs_ring r) (rs_head r);
     S \<leftarrow> erase_key (rs_capacity r) oldest (rs_slots r);
     Some (r\<lparr>rs_slots := S, rs_head := (rs_head r + 1) mod rs_capacity r, rs_count := rs_count r - 1\<rparr>)
   }"

definition rs_insert :: "u64 \<Rightarrow> RetiredIdSet \<Rightarrow> RetiredIdSet option" where
  "rs_insert oid r = do {
     i \<leftarrow> find_slot (rs_capacity r) (rs_slots r) oid;
     if i \<noteq> kNoSlot then Some r
     else do {
       r \<leftarrow> (if rs_count r = rs_capacity r then rs_evict_oldest r else Some r);
       S \<leftarrow> table_insert (rs_capacity r) oid (rs_slots r);
       ring \<leftarrow> arr_set (rs_ring r) ((rs_head r + rs_count r) mod rs_capacity r) oid;
       Some (r\<lparr>rs_slots := S, rs_ring := ring, rs_count := rs_count r + 1\<rparr>)
     }
   }"

definition empty_slot :: Slot where
  "empty_slot = \<lparr>key = 0, occupied = False\<rparr>"

definition rs_clear :: "RetiredIdSet \<Rightarrow> RetiredIdSet" where
  "rs_clear r = r\<lparr>rs_slots := map (\<lambda>_. empty_slot) (rs_slots r), rs_count := 0, rs_head := 0\<rparr>"

definition rs_new :: "nat \<Rightarrow> RetiredIdSet" where
  "rs_new cap = \<lparr>rs_slots = replicate (kTableSize cap) empty_slot, rs_ring = replicate cap 0,
     rs_head = 0, rs_count = 0\<rparr>"

text \<open>The specification: the history as a list, oldest first.\<close>

definition h_insert :: "nat \<Rightarrow> u64 \<Rightarrow> u64 list \<Rightarrow> u64 list" where
  "h_insert cap oid L = (if oid \<in> set L then L else (if length L = cap then tl L else L) @ [oid])"

locale id_history =
  fixes hist :: "'r \<Rightarrow> u64 list \<Rightarrow> bool"
    and bound :: "'r \<Rightarrow> nat"
    and member_of :: "'r \<Rightarrow> u64 \<Rightarrow> bool option"
    and add :: "u64 \<Rightarrow> 'r \<Rightarrow> 'r option"
    and forget :: "'r \<Rightarrow> 'r"
  assumes bound_pos: "hist r L \<Longrightarrow> 0 < bound r \<and> length L \<le> bound r \<and> distinct L"
    and member_iff: "hist r L \<Longrightarrow> member_of r i = Some (i \<in> set L)"
    and add_ok: "hist r L \<Longrightarrow> \<exists>r'. add i r = Some r' \<and> hist r' (h_insert (bound r) i L) \<and> bound r' = bound r"
    and forget_ok: "hist r L \<Longrightarrow> hist (forget r) [] \<and> bound (forget r) = bound r"
begin

text \<open>A recorded identifier is remembered until at least \<open>bound\<close> fresh ones have followed.\<close>

lemma add_member:
  assumes "hist r L"
  shows "\<exists>r'. add i r = Some r' \<and> member_of r' i = Some True"
  using add_ok [OF assms, of i] member_iff by (fastforce simp: h_insert_def)

lemma add_keeps_recent:
  assumes "hist r L" "j \<in> set (tl L) \<or> length L < bound r \<and> j \<in> set L"
  shows "\<exists>r'. add i r = Some r' \<and> member_of r' j = Some True"
proof -
  from add_ok [OF assms(1), of i] obtain r' where r': "add i r = Some r'" "hist r' (h_insert (bound r) i L)" by blast
  have "j \<in> set (h_insert (bound r) i L)"
    using assms(2) by (cases L) (auto simp: h_insert_def)
  with r' member_iff show ?thesis by simp
qed

lemma add_all:
  assumes "hist r L"
  shows "\<exists>r'. for_each add ids r = Some r' \<and> hist r' (fold (h_insert (bound r)) ids L) \<and> bound r' = bound r"
  using assms
proof (induction ids arbitrary: r L)
  case (Cons i ids)
  from add_ok [OF Cons.prems, of i] obtain r1 where
    r1: "add i r = Some r1" "hist r1 (h_insert (bound r) i L)" "bound r1 = bound r" by blast
  from Cons.IH [OF r1(2)] r1 show ?case by auto
qed simp

end

definition rs_items :: "RetiredIdSet \<Rightarrow> u64 list" where
  "rs_items r = map (\<lambda>k. rs_ring r ! ((rs_head r + k) mod rs_capacity r)) [0..<rs_count r]"

definition rs_rel :: "RetiredIdSet \<Rightarrow> u64 list \<Rightarrow> bool" where
  "rs_rel r L \<longleftrightarrow> table_ok (rs_capacity r) (rs_slots r) \<and> L = rs_items r \<and> distinct L
     \<and> keys_of (rs_slots r) = set L \<and> rs_count r \<le> rs_capacity r \<and> rs_head r < rs_capacity r"

lemma rs_capacity_upd [simp]:
  "rs_capacity (r\<lparr>rs_slots := S\<rparr>) = rs_capacity r" "rs_capacity (r\<lparr>rs_head := h\<rparr>) = rs_capacity r"
  "rs_capacity (r\<lparr>rs_count := c\<rparr>) = rs_capacity r" "rs_capacity (r\<lparr>rs_ring := R\<rparr>) = length R"
  by (simp_all add: rs_capacity_def)

lemma rs_rel_facts:
  assumes "rs_rel r L"
  shows "cap_ok (rs_capacity r)" "length (rs_slots r) = kTableSize (rs_capacity r)" "length L = rs_count r"
    "0 < rs_capacity r" "card (keys_of (rs_slots r)) = rs_count r"
proof -
  from assms show "cap_ok (rs_capacity r)" "length (rs_slots r) = kTableSize (rs_capacity r)"
    by (auto simp: rs_rel_def table_ok_def)
  from assms show len: "length L = rs_count r" by (simp add: rs_rel_def rs_items_def)
  from assms show "0 < rs_capacity r" by (simp add: rs_rel_def)
  from assms have "distinct L" "keys_of (rs_slots r) = set L" unfolding rs_rel_def by blast+
  with distinct_card [of L] len show "card (keys_of (rs_slots r)) = rs_count r" by simp
qed

lemma rs_contains_ok: "rs_rel r L \<Longrightarrow> rs_contains r oid = Some (oid \<in> set L)"
  using find_slot_ok [of "rs_capacity r" "rs_slots r" oid]
  by (cases "oid \<in> set L") (auto simp: rs_rel_def rs_contains_def)

lemma rs_evict_oldest_ok:
  assumes rel: "rs_rel r (x # xs)"
  shows "\<exists>r'. rs_evict_oldest r = Some r' \<and> rs_rel r' xs \<and> rs_capacity r' = rs_capacity r"
proof -
  let ?n = "rs_capacity r" let ?h = "rs_head r"
  note F = rs_rel_facts [OF rel]
  from rel have h: "?h < ?n" and it: "x # xs = rs_items r" and d: "distinct (x # xs)"
    and ks: "keys_of (rs_slots r) = set (x # xs)" and tab: "table_ok ?n (rs_slots r)"
    unfolding rs_rel_def by blast+
  from F(3) have c: "rs_count r = Suc (length xs)" by simp
  have nth: "(x # xs) ! k = rs_ring r ! ((?h + k) mod ?n)" if "k < rs_count r" for k
    using that unfolding it by (simp add: rs_items_def)
  have x: "rs_ring r ! ?h = x" using nth [of 0] c h by simp
  from erase_key_ok [OF tab, of x] obtain S where S: "erase_key ?n x (rs_slots r) = Some S" "table_ok ?n S"
    "keys_of S = keys_of (rs_slots r) - {x}" by blast
  let ?r = "r\<lparr>rs_slots := S, rs_head := (?h + 1) mod ?n, rs_count := rs_count r - 1\<rparr>"
  have cap: "rs_capacity ?r = ?n" by (simp add: rs_capacity_def)
  have "xs = rs_items ?r"
  proof (rule nth_equalityI)
    show "length xs = length (rs_items ?r)" using c by (simp add: rs_items_def)
    show "xs ! k = rs_items ?r ! k" if "k < length xs" for k
      using that nth [of "Suc k"] c by (simp add: rs_items_def mod_simps)
  qed
  moreover have "keys_of S = set xs" using S(3) ks d by auto
  moreover have "rs_count r \<le> ?n" using rel by (simp add: rs_rel_def)
  ultimately have "rs_rel ?r xs" unfolding rs_rel_def cap using S(2) d h F(4) by simp
  moreover have "rs_evict_oldest r = Some ?r" using S(1) x h by (simp add: rs_evict_oldest_def rs_capacity_def)
  ultimately show ?thesis using cap by auto
qed

lemma rs_append_ok:
  assumes rel: "rs_rel r L" and new: "oid \<notin> set L" and room: "rs_count r < rs_capacity r"
  shows "\<exists>S ring. table_insert (rs_capacity r) oid (rs_slots r) = Some S
    \<and> arr_set (rs_ring r) ((rs_head r + rs_count r) mod rs_capacity r) oid = Some ring
    \<and> rs_rel (r\<lparr>rs_slots := S, rs_ring := ring, rs_count := rs_count r + 1\<rparr>) (L @ [oid]) \<and> length ring = length (rs_ring r)"
proof -
  let ?n = "rs_capacity r" let ?t = "(rs_head r + rs_count r) mod ?n"
  note F = rs_rel_facts [OF rel]
  have tab: "table_ok ?n (rs_slots r)" and ks: "keys_of (rs_slots r) = set L" and it: "L = rs_items r" and d: "distinct L"
    using rel by (auto simp: rs_rel_def)
  have "card (keys_of (rs_slots r)) + 1 < length (rs_slots r)"
    using F(2,5) room table_bound [OF F(1)] by simp
  from table_insert_ok [OF tab _ this, of oid] new ks obtain S where
    S: "table_insert ?n oid (rs_slots r) = Some S" "table_ok ?n S" "keys_of S = insert oid (set L)" by auto
  have t: "?t < ?n" using F(4) by simp
  let ?ring = "(rs_ring r)[?t := oid]"
  let ?r = "r\<lparr>rs_slots := S, rs_ring := ?ring, rs_count := rs_count r + 1\<rparr>"
  have cap: "rs_capacity ?r = ?n" by (simp add: rs_capacity_def)
  have "?ring ! ((rs_head r + k) mod ?n) = rs_ring r ! ((rs_head r + k) mod ?n)" if "k < rs_count r" for k
    using mod_add_neq [of k "rs_count r" ?n "rs_head r"] that room by simp
  then have "rs_items ?r = L @ [oid]"
    using t by (simp add: rs_items_def cap it) (simp add: rs_capacity_def)
  then have "rs_rel ?r (L @ [oid])" unfolding rs_rel_def cap using S(2,3) d new room rel by (simp add: rs_rel_def)
  moreover have "arr_set (rs_ring r) ?t oid = Some ?ring" using t by (simp add: rs_capacity_def)
  ultimately show ?thesis using S(1) by auto
qed

lemma rs_insert_ok:
  assumes rel: "rs_rel r L"
  shows "\<exists>r'. rs_insert oid r = Some r' \<and> rs_rel r' (h_insert (rs_capacity r) oid L) \<and> rs_capacity r' = rs_capacity r"
proof (cases "oid \<in> set L")
  case True
  with find_slot_ok [of "rs_capacity r" "rs_slots r" oid] rel show ?thesis
    by (auto simp: rs_rel_def rs_insert_def h_insert_def)
next
  case False
  with find_slot_ok [of "rs_capacity r" "rs_slots r" oid] rel
  have fs: "find_slot (rs_capacity r) (rs_slots r) oid = Some kNoSlot" by (auto simp: rs_rel_def)
  let ?L = "if length L = rs_capacity r then tl L else L"
  note F = rs_rel_facts [OF rel]
  have "\<exists>r1. (if rs_count r = rs_capacity r then rs_evict_oldest r else Some r) = Some r1 \<and> rs_rel r1 ?L
      \<and> rs_capacity r1 = rs_capacity r"
  proof (cases "rs_count r = rs_capacity r")
    case True
    with F(3,4) obtain x xs where "L = x # xs" by (cases L) auto
    with rs_evict_oldest_ok [of r x xs] rel True F(3) show ?thesis by auto
  qed (use rel F(3) in auto)
  then obtain r1 where r1: "(if rs_count r = rs_capacity r then rs_evict_oldest r else Some r) = Some r1"
    "rs_rel r1 ?L" "rs_capacity r1 = rs_capacity r" by blast
  have "oid \<notin> set ?L" using False by (cases L) auto
  moreover have "rs_count r1 < rs_capacity r1"
  proof -
    have "length ?L < rs_capacity r" using rel F(3,4) by (auto simp: rs_rel_def)
    then show ?thesis using rs_rel_facts(3) [OF r1(2)] r1(3) by simp
  qed
  ultimately obtain S ring where a: "table_insert (rs_capacity r1) oid (rs_slots r1) = Some S"
    "arr_set (rs_ring r1) ((rs_head r1 + rs_count r1) mod rs_capacity r1) oid = Some ring"
    "rs_rel (r1\<lparr>rs_slots := S, rs_ring := ring, rs_count := rs_count r1 + 1\<rparr>) (?L @ [oid])" "length ring = length (rs_ring r1)"
    using rs_append_ok [OF r1(2)] by blast
  have "rs_insert oid r = Some (r1\<lparr>rs_slots := S, rs_ring := ring, rs_count := rs_count r1 + 1\<rparr>)"
    unfolding rs_insert_def fs using r1(1) a(1,2) by simp
  with a(3,4) r1(3) False show ?thesis by (auto simp: h_insert_def rs_capacity_def)
qed

lemma empty_table:
  assumes "cap_ok cap" "length S = kTableSize cap" "\<And>s. s \<in> set S \<Longrightarrow> \<not> occupied s"
  shows "table_ok cap S" "keys_of S = {}"
proof -
  have no: "\<not> occ S j" for j using assms(3) by (auto simp: occ_def)
  moreover have "0 < length S" using assms(2) table_bound [OF assms(1)] by simp
  ultimately show "table_ok cap S" using assms by (auto simp: table_ok_def one_slot_per_key_def)
  show "keys_of S = {}" using no by (auto simp: keys_of_def)
qed

lemma rs_clear_ok:
  assumes rel: "rs_rel r L"
  shows "rs_rel (rs_clear r) []" "rs_capacity (rs_clear r) = rs_capacity r"
proof -
  note F = rs_rel_facts [OF rel]
  have "table_ok (rs_capacity r) (rs_slots (rs_clear r))" "keys_of (rs_slots (rs_clear r)) = {}"
    by (rule empty_table [OF F(1)]; use F(2) in \<open>auto simp: rs_clear_def empty_slot_def\<close>)+
  then show "rs_rel (rs_clear r) []" "rs_capacity (rs_clear r) = rs_capacity r"
    using F(4) by (auto simp: rs_rel_def rs_clear_def rs_capacity_def rs_items_def)
qed

lemma rs_new_ok:
  assumes "cap_ok cap"
  shows "rs_rel (rs_new cap) []" "rs_capacity (rs_new cap) = cap"
proof -
  have "table_ok cap (rs_slots (rs_new cap))" "keys_of (rs_slots (rs_new cap)) = {}"
    by (rule empty_table [OF assms]; auto simp: rs_new_def empty_slot_def)+
  then show "rs_rel (rs_new cap) []" "rs_capacity (rs_new cap) = cap"
    using assms by (auto simp: rs_rel_def rs_new_def rs_capacity_def rs_items_def cap_ok_def)
qed

interpretation retired: id_history rs_rel rs_capacity rs_contains rs_insert rs_clear
proof unfold_locales
  fix r L i assume rel: "rs_rel r L"
  show "0 < rs_capacity r \<and> length L \<le> rs_capacity r \<and> distinct L"
    using rs_rel_facts [OF rel] rel by (auto simp: rs_rel_def)
  show "rs_contains r i = Some (i \<in> set L)" by (rule rs_contains_ok [OF rel])
  show "\<exists>r'. rs_insert i r = Some r' \<and> rs_rel r' (h_insert (rs_capacity r) i L) \<and> rs_capacity r' = rs_capacity r"
    by (rule rs_insert_ok [OF rel])
  show "rs_rel (rs_clear r) [] \<and> rs_capacity (rs_clear r) = rs_capacity r" using rs_clear_ok [OF rel] by blast
qed

end
