(* ===== verification/Matching_Engine.thy ===== *)
theory Matching_Engine
  imports Binary_Message Book_Refinement Retired_Ids
begin

text \<open>
  \<open>MatchingEngine\<close> of \<open>matching_engine.hpp\<close>.  The event sinks are template callables in the code;
  here a sink is a function that threads its own state and may fail (\<open>None\<close>), so that the engine
  can be composed with any owner of the events.
\<close>

record MatchingEngine =
  me_book :: OrderBook
  me_next_exec_seq :: u64
  me_retired :: RetiredIdSet

definition price_crosses :: "Side \<Rightarrow> u64 \<Rightarrow> u64 \<Rightarrow> bool" where
  "price_crosses s incoming_price resting_price =
     (if s = Buy then resting_price \<le> incoming_price else resting_price \<ge> incoming_price)"

definition next_exec_seq :: "MatchingEngine \<Rightarrow> u64" where
  "next_exec_seq e = me_next_exec_seq e"

text \<open>The \<open>while (remaining > 0)\<close> loop of \<open>process_new_order\<close>.\<close>

partial_function (option) match_loop ::
  "(Trade \<Rightarrow> 's \<Rightarrow> 's option) \<Rightarrow> NewOrder \<Rightarrow> Side \<Rightarrow> u32 \<Rightarrow> MatchingEngine \<Rightarrow> 's
     \<Rightarrow> (u32 \<times> MatchingEngine \<times> 's) option" where
  "match_loop emit_trade incoming opp remaining e st =
     (if \<not> remaining > 0 then Some (remaining, e, st)
      else do {
        best \<leftarrow> best_level opp (me_book e);
        (case best of
           None \<Rightarrow> Some (remaining, e, st)
         | Some lv \<Rightarrow>
             if \<not> price_crosses (no_side incoming) (no_price_ticks incoming) (lv_price_ticks lv)
             then Some (remaining, e, st)
             else do {
               let node = level_head lv;
               resting \<leftarrow> order_at (me_book e) node;
               let trade_qty = min remaining (ro_remaining_qty resting);
               let trade = \<lparr>tr_exec_seq = me_next_exec_seq e, tr_price_ticks = ro_price_ticks resting,
                 tr_quantity = trade_qty, tr_incoming_id = no_order_id incoming,
                 tr_resting_id = ro_order_id resting\<rparr>;
               let e = e\<lparr>me_next_exec_seq := me_next_exec_seq e + 1\<rparr>;
               st \<leftarrow> emit_trade trade st;
               let remaining = remaining - trade_qty;
               b \<leftarrow> modify_order node (\<lambda>r. r\<lparr>ro_remaining_qty := ro_remaining_qty r - trade_qty\<rparr>) (me_book e);
               resting \<leftarrow> order_at b node;
               if ro_remaining_qty resting = 0 then do {
                 ret \<leftarrow> rs_insert (ro_order_id resting) (me_retired e);
                 b \<leftarrow> remove_order node b;
                 match_loop emit_trade incoming opp remaining (e\<lparr>me_book := b, me_retired := ret\<rparr>) st
               }
               else match_loop emit_trade incoming opp remaining (e\<lparr>me_book := b\<rparr>) st
             })
      })"

declare match_loop.simps [code]

definition process_new_order ::
  "(Trade \<Rightarrow> 's \<Rightarrow> 's option) \<Rightarrow> NewOrder \<Rightarrow> MatchingEngine \<Rightarrow> 's \<Rightarrow> (MatchingEngine \<times> 's) option" where
  "process_new_order emit_trade incoming e st = do {
     let opp = (if no_side incoming = Buy then Sell else Buy);
     (remaining, e, st) \<leftarrow> match_loop emit_trade incoming opp (no_quantity incoming) e st;
     if remaining > 0 then do {
       (ok, b) \<leftarrow> insert_order (no_order_id incoming) (no_side incoming) (no_price_ticks incoming)
                    (no_seq incoming) remaining (me_book e);
       Some (e\<lparr>me_book := b\<rparr>, st)
     }
     else Some (e, st)
   }"

definition validate_new_order :: "NewOrder \<Rightarrow> RejectReason option" where
  "validate_new_order incoming =
     (if no_quantity incoming < kMinEngineQuantity \<or> no_quantity incoming > kMaxEngineQuantity
      then Some InvalidQuantity
      else if no_price_ticks incoming < kMinPriceTicks \<or> no_price_ticks incoming > kMaxPriceTicks
      then Some InvalidPrice
      else None)"

text \<open>The two-sink overload of \<open>process_new_order\<close>; the flag is its return value.\<close>

definition process_new_order_checked ::
  "(Trade \<Rightarrow> 's \<Rightarrow> 's option) \<Rightarrow> (Reject \<Rightarrow> 's \<Rightarrow> 's option) \<Rightarrow> NewOrder \<Rightarrow> MatchingEngine \<Rightarrow> 's
     \<Rightarrow> (bool \<times> MatchingEngine \<times> 's) option" where
  "process_new_order_checked emit_trade emit_reject incoming e st =
     (case validate_new_order incoming of
        Some reason \<Rightarrow> do {
          st \<leftarrow> emit_reject \<lparr>rej_order_id = no_order_id incoming, rej_reason = reason\<rparr> st;
          Some (False, e, st)
        }
      | None \<Rightarrow> do {
          (e, st) \<leftarrow> process_new_order emit_trade incoming e st;
          Some (True, e, st)
        })"

definition process_cancel_order ::
  "(Ack \<Rightarrow> 's \<Rightarrow> 's option) \<Rightarrow> (Reject \<Rightarrow> 's \<Rightarrow> 's option) \<Rightarrow> CancelOrder \<Rightarrow> MatchingEngine \<Rightarrow> 's
     \<Rightarrow> (bool \<times> MatchingEngine \<times> 's) option" where
  "process_cancel_order emit_ack emit_reject cancel e st = do {
     node \<leftarrow> find_order (me_book e) (co_order_id cancel);
     if node = kNullNode then do {
       known \<leftarrow> rs_contains (me_retired e) (co_order_id cancel);
       st \<leftarrow> emit_reject \<lparr>rej_order_id = co_order_id cancel,
               rej_reason = (if known then NoLongerResting else OrderNotFound)\<rparr> st;
       Some (False, e, st)
     }
     else do {
       b \<leftarrow> remove_order node (me_book e);
       ret \<leftarrow> rs_insert (co_order_id cancel) (me_retired e);
       st \<leftarrow> emit_ack \<lparr>ack_order_id = co_order_id cancel, ack_kind = Cancelled\<rparr> st;
       Some (True, e\<lparr>me_book := b, me_retired := ret\<rparr>, st)
     }
   }"

definition clear_retired :: "MatchingEngine \<Rightarrow> MatchingEngine" where
  "clear_retired e = e\<lparr>me_retired := rs_clear (me_retired e)\<rparr>"

text \<open>A freshly constructed engine for \<open>n\<close> orders and \<open>m\<close> price levels.\<close>

definition engine_new :: "nat \<Rightarrow> nat \<Rightarrow> MatchingEngine" where
  "engine_new n m = \<lparr>me_book = book_new n m, me_next_exec_seq = 1, me_retired = rs_new n\<rparr>"

text \<open>The component marker of \<open>engine.cpp\<close>.\<close>

definition engine_component_name :: string where
  "engine_component_name = ''Matching_Engine''"

subsection \<open>The specification of matching\<close>

text \<open>
  Matching against one priority list: the fills in order, each with the resting order as it was and
  the quantity taken, the unmatched quantity and what is left of the list.
\<close>

fun match_flat :: "Side \<Rightarrow> u64 \<Rightarrow> u32 \<Rightarrow> AOrder list \<Rightarrow> (AOrder \<times> u32) list \<times> u32 \<times> AOrder list" where
  "match_flat s p q [] = ([], q, [])"
| "match_flat s p q (x # xs) =
     (if q = 0 \<or> \<not> price_crosses s p (ao_price x) then ([], q, x # xs)
      else let t = min q (ao_qty x) in
        if t = ao_qty x
        then (case match_flat s p (q - t) xs of (fs, q', ys) \<Rightarrow> ((x, t) # fs, q', ys))
        else ([(x, t)], q - t, x\<lparr>ao_qty := ao_qty x - t\<rparr> # xs))"

definition trade_of :: "u64 \<Rightarrow> u64 \<Rightarrow> AOrder \<times> u32 \<Rightarrow> Trade" where
  "trade_of n i f = \<lparr>tr_exec_seq = n, tr_price_ticks = ao_price (fst f), tr_quantity = snd f,
     tr_incoming_id = i, tr_resting_id = ao_id (fst f)\<rparr>"

fun trades_of :: "u64 \<Rightarrow> u64 \<Rightarrow> (AOrder \<times> u32) list \<Rightarrow> Trade list" where
  "trades_of n i [] = []"
| "trades_of n i (f # fs) = trade_of n i f # trades_of (n + 1) i fs"

text \<open>The identifiers that leave the book: those filled to the last share.\<close>

definition filled_ids :: "(AOrder \<times> u32) list \<Rightarrow> u64 list" where
  "filled_ids fs = map (\<lambda>f. ao_id (fst f)) (filter (\<lambda>f. snd f = ao_qty (fst f)) fs)"

record AEngine =
  ae_book :: ABook
  ae_seq :: u64
  ae_hist :: "u64 list"

definition order_of :: "NewOrder \<Rightarrow> u32 \<Rightarrow> AOrder" where
  "order_of inc q = \<lparr>ao_id = no_order_id inc, ao_seq = no_seq inc, ao_price = no_price_ticks inc, ao_qty = q\<rparr>"

definition a_rest :: "nat \<times> nat \<Rightarrow> NewOrder \<Rightarrow> u32 \<Rightarrow> ABook \<Rightarrow> ABook" where
  "a_rest cp inc q A =
     (if q > 0 \<and> a_has_room cp (no_side inc) (no_price_ticks inc) A
      then A(no_side inc := a_insert (no_side inc) (order_of inc q) (A (no_side inc))) else A)"

definition a_new_order :: "nat \<times> nat \<Rightarrow> NewOrder \<Rightarrow> AEngine \<Rightarrow> Trade list \<times> AEngine" where
  "a_new_order cp inc a =
     (let opp = opposite (no_side inc);
          (fs, q, ys) = match_flat (no_side inc) (no_price_ticks inc) (no_quantity inc) (ae_book a opp)
      in (trades_of (ae_seq a) (no_order_id inc) fs,
          \<lparr>ae_book = a_rest cp inc q ((ae_book a)(opp := ys)),
           ae_seq = ae_seq a + of_nat (length fs),
           ae_hist = fold (h_insert (fst cp)) (filled_ids fs) (ae_hist a)\<rparr>))"

definition engine_rel :: "nat \<times> nat \<Rightarrow> MatchingEngine \<Rightarrow> AEngine \<Rightarrow> bool" where
  "engine_rel cp e a \<longleftrightarrow> book_rel (me_book e) (ae_book a) \<and> caps (me_book e) = cp
     \<and> me_next_exec_seq e = ae_seq a \<and> rs_rel (me_retired e) (ae_hist a) \<and> rs_capacity (me_retired e) = fst cp"

lemma modify_order_cong:
  "order_at b n = Some r \<Longrightarrow> f r = g r \<Longrightarrow> modify_order n f b = modify_order n g b"
  by (auto simp: modify_order_def pool_modify_def order_at_def pool_get_def split: Option.bind_splits)

text \<open>The loop stops in a state where nothing can be filled.\<close>

lemma match_loop_stops:
  assumes "engine_rel cp e a" "q = 0 \<or> ae_book a opp = [] \<or> \<not> price_crosses (no_side inc) (no_price_ticks inc) (ao_price (hd (ae_book a opp)))"
  shows "match_loop emit inc opp q e st = Some (q, e, st)"
proof (cases "ae_book a opp")
  case Nil
  then show ?thesis using assms(1) book.best_none [of "me_book e" "ae_book a" opp] by (subst match_loop.simps) (simp add: engine_rel_def)
next
  case (Cons x xs)
  from assms(1) have "book_rel (me_book e) (ae_book a)" by (simp add: engine_rel_def)
  from book.best_front [OF this Cons] obtain lv r where
    "best_level opp (me_book e) = Some (Some lv)" "lv_price_ticks lv = ao_price x" by blast
  with assms(2) Cons show ?thesis by (subst match_loop.simps) (auto simp: word_neq_0_conv)
qed

text \<open>The abstract engine after fills that leave \<open>ys\<close> on the opposite side.\<close>

definition after_fills :: "nat \<Rightarrow> Side \<Rightarrow> (AOrder \<times> u32) list \<Rightarrow> AOrder list \<Rightarrow> AEngine \<Rightarrow> AEngine" where
  "after_fills n opp fs ys a = \<lparr>ae_book = (ae_book a)(opp := ys), ae_seq = ae_seq a + of_nat (length fs),
     ae_hist = fold (h_insert n) (filled_ids fs) (ae_hist a)\<rparr>"

lemma after_fills_none: "ae_book a opp = ys \<Longrightarrow> after_fills n opp [] ys a = a"
  by (auto simp: after_fills_def filled_ids_def)

lemma after_fills_after:
  "after_fills n opp gs zs (after_fills n opp [f] ys a) = after_fills n opp (f # gs) zs a"
  "ae_book (after_fills n opp fs ys a) opp = ys" "ae_seq (after_fills n opp [f] ys a) = ae_seq a + 1"
  by (auto simp: after_fills_def filled_ids_def)

text \<open>One pass of the loop fills against the front order, emits the trade and moves on.\<close>

lemma match_loop_fills:
  fixes q :: u32
  assumes rel: "engine_rel cp e a" and front: "ae_book a opp = x # xs"
    and go: "q \<noteq> 0" "price_crosses (no_side inc) (no_price_ticks inc) (ao_price x)" and t: "t = min q (ao_qty x)"
  shows "\<exists>e'. (\<forall>st. match_loop emit inc opp q e st = do {
        st \<leftarrow> emit (trade_of (ae_seq a) (no_order_id inc) (x, t)) st;
        match_loop emit inc opp (q - t) e' st })
    \<and> engine_rel cp e' (after_fills (fst cp) opp [(x, t)] (if t = ao_qty x then xs else x\<lparr>ao_qty := ao_qty x - t\<rparr> # xs) a)"
proof -
  from rel have br: "book_rel (me_book e) (ae_book a)" and cp: "caps (me_book e) = cp" and seq: "me_next_exec_seq e = ae_seq a"
    and rs: "rs_rel (me_retired e) (ae_hist a)" "rs_capacity (me_retired e) = fst cp" by (auto simp: engine_rel_def)
  from book.best_front [OF br front] obtain lv r where
    lv: "best_level opp (me_book e) = Some (Some lv)" "lv_price_ticks lv = ao_price x"
      "order_at (me_book e) (level_head lv) = Some r" "abs_order r = x" by blast
  have r: "ro_remaining_qty r = ao_qty x" "ro_price_ticks r = ao_price x" "ro_order_id r = ao_id x"
    using lv(4) by (auto simp: abs_order_def)
  let ?n = "level_head lv" let ?q = "ao_qty x - t"
  from book.fill_front [OF br front lv(1), of ?q] obtain b' b'' r' where
    b: "modify_order ?n (set_qty ?q) (me_book e) = Some b'" "order_at b' ?n = Some r'" "abs_order r' = x\<lparr>ao_qty := ?q\<rparr>"
      "(if ?q = 0 then remove_order ?n b' else Some b') = Some b''"
      "book_rel b'' ((ae_book a)(opp := (if ?q = 0 then xs else x\<lparr>ao_qty := ?q\<rparr> # xs)))" "caps b'' = caps (me_book e)"
    by blast
  have r': "ro_remaining_qty r' = ?q" "ro_order_id r' = ao_id x"
    using b(3) by (auto simp: abs_order_def dest: arg_cong [where f = ao_qty] arg_cong [where f = ao_id])
  have m: "modify_order ?n (\<lambda>r. r\<lparr>ro_remaining_qty := ro_remaining_qty r - t\<rparr>) (me_book e) = Some b'"
    using modify_order_cong [OF lv(3), of "\<lambda>r. r\<lparr>ro_remaining_qty := ro_remaining_qty r - t\<rparr>" "set_qty ?q"] r b(1)
    by (simp add: set_qty_def)
  from rs_insert_ok [OF rs(1), of "ao_id x"] rs(2) obtain ret where
    ret: "rs_insert (ao_id x) (me_retired e) = Some ret" "rs_rel ret (h_insert (fst cp) (ao_id x) (ae_hist a))" "rs_capacity ret = fst cp" by auto
  let ?e = "e\<lparr>me_next_exec_seq := me_next_exec_seq e + 1, me_book := b'', me_retired := if ?q = 0 then ret else me_retired e\<rparr>"
  have q0: "?q = 0 \<longleftrightarrow> t = ao_qty x" by auto
  have "match_loop emit inc opp q e st = do {
      st \<leftarrow> emit (trade_of (ae_seq a) (no_order_id inc) (x, t)) st; match_loop emit inc opp (q - t) ?e st }" for st
    using lv(1,2,3) go m b(2,4) r' r ret(1) seq t
    by (subst match_loop.simps) (auto simp: word_neq_0_conv [symmetric] Let_def trade_of_def cong: if_cong)
  moreover have "engine_rel cp ?e (after_fills (fst cp) opp [(x, t)] (if t = ao_qty x then xs else x\<lparr>ao_qty := ao_qty x - t\<rparr> # xs) a)"
    using b(5,6) q0 ret(2,3) rs cp seq by (auto simp: engine_rel_def after_fills_def filled_ids_def)
  ultimately show ?thesis by blast
qed

text \<open>The loop makes the fills of the specification and hands their trades to the sink, in order.\<close>

lemma match_loop_cons:
  assumes "\<And>st. match_loop emit inc opp q e st = do {
      st \<leftarrow> emit (trade_of (ae_seq a) (no_order_id inc) (x, t)) st; match_loop emit inc opp (q - t) e1 st }"
    and "\<And>st. match_loop emit inc opp (q - t) e1 st =
      map_option (\<lambda>st'. (q', e', st')) (for_each emit (trades_of (ae_seq a + 1) (no_order_id inc) gs) st)"
  shows "match_loop emit inc opp q e st =
      map_option (\<lambda>st'. (q', e', st')) (for_each emit (trades_of (ae_seq a) (no_order_id inc) ((x, t) # gs)) st)"
  unfolding assms by (cases "emit (trade_of (ae_seq a) (no_order_id inc) (x, t)) st") auto

lemma match_loop_refines:
  assumes "engine_rel cp e a" and "ae_book a opp = xs"
    and "match_flat (no_side inc) (no_price_ticks inc) q xs = (fs, q', ys)"
  shows "\<exists>e'. (\<forall>st. match_loop emit inc opp q e st =
      map_option (\<lambda>st'. (q', e', st')) (for_each emit (trades_of (ae_seq a) (no_order_id inc) fs) st))
    \<and> engine_rel cp e' (after_fills (fst cp) opp fs ys a)"
  using assms
proof (induction xs arbitrary: q e a fs q' ys)
  case Nil
  have "match_loop emit inc opp q e st = Some (q, e, st)" for st by (rule match_loop_stops [OF Nil(1)]) (simp add: Nil(2))
  with Nil show ?case by (auto simp: after_fills_none)
next
  case (Cons x xs)
  let ?t = "min q (ao_qty x)" and ?s = "no_side inc" and ?p = "no_price_ticks inc"
  consider (stop) "q = 0 \<or> \<not> price_crosses ?s ?p (ao_price x)"
    | (full) "q \<noteq> 0" "price_crosses ?s ?p (ao_price x)" "?t = ao_qty x"
    | (part) "q \<noteq> 0" "price_crosses ?s ?p (ao_price x)" "?t \<noteq> ao_qty x" by blast
  then show ?case
  proof cases
    case stop
    then have "match_loop emit inc opp q e st = Some (q, e, st)" for st
      using match_loop_stops [OF Cons.prems(1), of q opp inc] Cons.prems(2) by simp
    with stop Cons.prems show ?thesis by (auto simp: after_fills_none)
  next
    case full
    from match_loop_fills [OF Cons.prems(1,2) full(1,2) refl, of emit] full(3) obtain e1 where
      e1: "\<And>st. match_loop emit inc opp q e st = do {
          st \<leftarrow> emit (trade_of (ae_seq a) (no_order_id inc) (x, ?t)) st; match_loop emit inc opp (q - ?t) e1 st }"
        "engine_rel cp e1 (after_fills (fst cp) opp [(x, ?t)] xs a)" by auto
    obtain gs q1 zs where g: "match_flat ?s ?p (q - ?t) xs = (gs, q1, zs)"
      by (cases "match_flat ?s ?p (q - ?t) xs") auto
    with Cons.prems(3) full have f: "fs = (x, ?t) # gs" "q' = q1" "ys = zs" by (auto simp: Let_def)
    from Cons.IH [OF e1(2) _ g] obtain e' where IH:
      "\<And>st. match_loop emit inc opp (q - ?t) e1 st =
         map_option (\<lambda>st'. (q1, e', st')) (for_each emit (trades_of (ae_seq a + 1) (no_order_id inc) gs) st)"
      "engine_rel cp e' (after_fills (fst cp) opp ((x, ?t) # gs) zs a)" by (auto simp: after_fills_after)
    show ?thesis unfolding f using match_loop_cons [OF e1(1) IH(1)] IH(2) by blast
  next
    case part
    then have tq: "?t = q" by (auto simp: min_def split: if_splits)
    from match_loop_fills [OF Cons.prems(1,2) part(1,2) refl, of emit] part(3) obtain e1 where
      e1: "\<And>st. match_loop emit inc opp q e st = do {
          st \<leftarrow> emit (trade_of (ae_seq a) (no_order_id inc) (x, ?t)) st; match_loop emit inc opp (q - ?t) e1 st }"
        "engine_rel cp e1 (after_fills (fst cp) opp [(x, ?t)] (x\<lparr>ao_qty := ao_qty x - ?t\<rparr> # xs) a)" by auto
    from Cons.prems(3) part tq have f: "fs = [(x, ?t)]" "q' = 0" "ys = x\<lparr>ao_qty := ao_qty x - ?t\<rparr> # xs" by (auto simp: Let_def)
    have "match_loop emit inc opp (q - ?t) e1 st = map_option (\<lambda>st'. (0, e1, st'))
        (for_each emit (trades_of (ae_seq a + 1) (no_order_id inc) []) st)" for st
      using match_loop_stops [OF e1(2), of 0 opp inc emit st] tq by simp
    from match_loop_cons [OF e1(1) this] e1(2) show ?thesis unfolding f by blast
  qed
qed

lemma opposite_if: "(if s = Buy then Sell else Buy) = opposite s"
  by (cases s) (simp_all add: opposite_def)

text \<open>Refinement of the single-sink \<open>process_new_order\<close>, for every sink.\<close>

lemma process_new_order_refines:
  assumes rel: "engine_rel cp e a"
  shows "\<exists>e'. (\<forall>st. process_new_order emit inc e st =
      map_option (\<lambda>st'. (e', st')) (for_each emit (fst (a_new_order cp inc a)) st))
    \<and> engine_rel cp e' (snd (a_new_order cp inc a))"
proof -
  let ?opp = "opposite (no_side inc)"
  obtain fs q ys where m: "match_flat (no_side inc) (no_price_ticks inc) (no_quantity inc) (ae_book a ?opp) = (fs, q, ys)"
    by (cases "match_flat (no_side inc) (no_price_ticks inc) (no_quantity inc) (ae_book a ?opp)") auto
  let ?A = "(ae_book a)(?opp := ys)"
  from match_loop_refines [OF rel refl m, of emit] obtain e1 where
    l: "\<forall>st. match_loop emit inc ?opp (no_quantity inc) e st =
      map_option (\<lambda>st'. (q, e1, st')) (for_each emit (trades_of (ae_seq a) (no_order_id inc) fs) st)"
    and r1: "engine_rel cp e1 \<lparr>ae_book = ?A, ae_seq = ae_seq a + of_nat (length fs),
        ae_hist = fold (h_insert (fst cp)) (filled_ids fs) (ae_hist a)\<rparr>" unfolding after_fills_def by blast
  from r1 have b1: "book_rel (me_book e1) ?A" "caps (me_book e1) = cp" by (auto simp: engine_rel_def)
  from book.insert_total [OF b1(1), of "no_order_id inc" "no_side inc" "no_price_ticks inc" "no_seq inc" q] obtain ok b where
    ins: "insert_order (no_order_id inc) (no_side inc) (no_price_ticks inc) (no_seq inc) q (me_book e1) = Some (ok, b)"
      "caps b = cp" "ok = a_has_room cp (no_side inc) (no_price_ticks inc) ?A"
      "book_rel b (if ok then ?A(no_side inc := a_insert (no_side inc) (order_of inc q) (?A (no_side inc))) else ?A)"
    unfolding b1(2) order_of_def by blast
  let ?e = "if q > 0 then e1\<lparr>me_book := b\<rparr> else e1"
  have "process_new_order emit inc e st = map_option (\<lambda>st'. (?e, st'))
      (for_each emit (trades_of (ae_seq a) (no_order_id inc) fs) st)" for st
    unfolding process_new_order_def opposite_if using l ins(1)
    by (cases "for_each emit (trades_of (ae_seq a) (no_order_id inc) fs) st") auto
  moreover have "engine_rel cp ?e \<lparr>ae_book = a_rest cp inc q ?A, ae_seq = ae_seq a + of_nat (length fs),
        ae_hist = fold (h_insert (fst cp)) (filled_ids fs) (ae_hist a)\<rparr>"
    using r1 ins(2,3,4) by (auto simp: engine_rel_def a_rest_def)
  ultimately show ?thesis using m by (auto simp: a_new_order_def Let_def)
qed

definition a_cancel_order :: "nat \<times> nat \<Rightarrow> u64 \<Rightarrow> AEngine \<Rightarrow> AEngine" where
  "a_cancel_order cp i a = a\<lparr>ae_book := a_cancel i (ae_book a), ae_hist := h_insert (fst cp) i (ae_hist a)\<rparr>"

definition a_resting :: "AEngine \<Rightarrow> u64 set" where
  "a_resting a = a_ids (ae_book a Buy) \<union> a_ids (ae_book a Sell)"

lemma process_cancel_order_refines:
  assumes rel: "engine_rel cp e a"
  shows "\<exists>e'. (\<forall>st. process_cancel_order emit_ack emit_reject c e st =
      (if co_order_id c \<in> a_resting a
       then map_option (\<lambda>st'. (True, e', st')) (emit_ack \<lparr>ack_order_id = co_order_id c, ack_kind = Cancelled\<rparr> st)
       else map_option (\<lambda>st'. (False, e', st')) (emit_reject \<lparr>rej_order_id = co_order_id c,
              rej_reason = (if co_order_id c \<in> set (ae_hist a) then NoLongerResting else OrderNotFound)\<rparr> st)))
    \<and> (if co_order_id c \<in> a_resting a then engine_rel cp e' (a_cancel_order cp (co_order_id c) a) else e' = e)"
proof -
  let ?i = "co_order_id c"
  from rel have b: "book_rel (me_book e) (ae_book a)" "caps (me_book e) = cp"
    and rs: "rs_rel (me_retired e) (ae_hist a)" "rs_capacity (me_retired e) = fst cp" by (auto simp: engine_rel_def)
  show ?thesis
  proof (cases "?i \<in> a_resting a")
    case False
    with book.lookup_none [OF b(1), of ?i] have "find_order (me_book e) ?i = Some kNullNode" by (simp add: a_resting_def)
    then have "\<forall>st. process_cancel_order emit_ack emit_reject c e st =
        map_option (\<lambda>st'. (False, e, st')) (emit_reject \<lparr>rej_order_id = ?i,
              rej_reason = (if ?i \<in> set (ae_hist a) then NoLongerResting else OrderNotFound)\<rparr> st)"
      using rs_contains_ok [OF rs(1), of ?i] by (auto simp: process_cancel_order_def map_option_case split: Option.bind_splits option.splits)
    with False show ?thesis by auto
  next
    case True
    with book.lookup_some [OF b(1), of ?i] obtain n b' where
      n: "find_order (me_book e) ?i = Some n" "n \<noteq> kNullNode" "remove_order n (me_book e) = Some b'"
        "book_rel b' (a_cancel ?i (ae_book a))" "caps b' = caps (me_book e)" by (auto simp: a_resting_def)
    from rs_insert_ok [OF rs(1), of ?i] rs(2) obtain ret where
      ret: "rs_insert ?i (me_retired e) = Some ret" "rs_rel ret (h_insert (fst cp) ?i (ae_hist a))" "rs_capacity ret = fst cp"
      by auto
    let ?e = "e\<lparr>me_book := b', me_retired := ret\<rparr>"
    have "\<forall>st. process_cancel_order emit_ack emit_reject c e st =
        map_option (\<lambda>st'. (True, ?e, st')) (emit_ack \<lparr>ack_order_id = ?i, ack_kind = Cancelled\<rparr> st)"
      using n(1,2,3) ret(1) by (auto simp: process_cancel_order_def map_option_case split: Option.bind_splits option.splits)
    moreover have "engine_rel cp ?e (a_cancel_order cp ?i a)"
      using n(4,5) b(2) ret(2,3) rel by (auto simp: engine_rel_def a_cancel_order_def)
    ultimately show ?thesis using True by auto
  qed
qed

lemma engine_new_rel:
  assumes "0 < n" "n \<le> kNullNode" "0 < m" "m \<le> kNullNode"
  shows "engine_rel (n, m) (engine_new n m) \<lparr>ae_book = (\<lambda>_. []), ae_seq = 1, ae_hist = []\<rparr>"
proof -
  let ?b = "\<lparr>orders = \<lparr>slots = replicate n default_order, next_free = replicate n 0, free_head = kNullNode, in_use = 0\<rparr>,
    levels = \<lparr>slots = replicate m default_level, next_free = replicate m 0, free_head = kNullNode, in_use = 0\<rparr>,
    bid_head = kNullNode, ask_head = kNullNode\<rparr>"
  have eq: "book_new n m = book_clear ?b" by (simp add: book_new_def book_clear_def pool_new_def)
  have "book_rel (book_clear ?b) (\<lambda>_. [])" "caps (book_clear ?b) = caps ?b"
    by (rule book_cleared; use assms in \<open>simp add: pool_capacity_def\<close>)+
  then show ?thesis using rs_new_ok [of n] assms eq
    by (simp add: engine_rel_def engine_new_def caps_def pool_capacity_def cap_ok_def)
qed

lemma clear_retired_rel: "engine_rel cp e a \<Longrightarrow> engine_rel cp (clear_retired e) (a\<lparr>ae_hist := []\<rparr>)"
  using rs_clear_ok by (auto simp: engine_rel_def clear_retired_def)

end
