(* ===== verification/Matching_Properties.thy ===== *)
theory Matching_Properties
  imports Matching_Engine
begin

text \<open>
  What the specification of matching guarantees, and the same carried over to the engine: price-time
  priority, conservation of quantity, an uncrossed book, positive quantities, numbering of the
  executions, cancellation.
\<close>

text \<open>A sink that records the events it receives.\<close>

definition collect :: "'a \<Rightarrow> 'a list \<Rightarrow> 'a list option" where
  "collect x xs = Some (xs @ [x])"

lemma for_each_collect [simp]: "for_each collect ys xs = Some (xs @ ys)"
  by (induction ys arbitrary: xs) (auto simp: collect_def)

definition order_valid :: "AOrder \<Rightarrow> bool" where
  "order_valid x \<longleftrightarrow> kMinPriceTicks \<le> ao_price x \<and> ao_price x \<le> kMaxPriceTicks
     \<and> kMinEngineQuantity \<le> ao_qty x \<and> ao_qty x \<le> kMaxEngineQuantity"

text \<open>No bid reaches an ask.\<close>

definition uncrossed :: "ABook \<Rightarrow> bool" where
  "uncrossed A \<longleftrightarrow> (\<forall>x\<in>set (A Buy). \<forall>y\<in>set (A Sell). ao_price x < ao_price y)"

definition book_inv :: "ABook \<Rightarrow> bool" where
  "book_inv A \<longleftrightarrow> (\<forall>s. priority_sorted s (A s) \<and> (\<forall>x\<in>set (A s). order_valid x)) \<and> uncrossed A"

definition total_qty :: "AOrder list \<Rightarrow> nat" where
  "total_qty xs = (\<Sum>x\<leftarrow>xs. unat (ao_qty x))"

definition fill_qty :: "(AOrder \<times> u32) list \<Rightarrow> nat" where
  "fill_qty fs = (\<Sum>f\<leftarrow>fs. unat (snd f))"

lemma min_u32: "unat (min a b :: u32) = min (unat a) (unat b)"
  by (simp add: min_def word_le_nat_alt)

lemma diff_min_u32: "unat (q - min q a :: u32) = unat q - min (unat q) (unat a)"
  unfolding min_u32 [symmetric] by (rule unat_sub) simp

lemma match_flat_conserves:
  "match_flat s p q xs = (fs, q', ys) \<Longrightarrow>
     fill_qty fs + unat q' = unat q \<and> total_qty xs = fill_qty fs + total_qty ys"
proof (induction xs arbitrary: q fs q' ys)
  case (Cons x xs)
  let ?t = "min q (ao_qty x)"
  show ?case
  proof (cases "q = 0 \<or> \<not> price_crosses s p (ao_price x)")
    case True
    with Cons.prems show ?thesis by (auto simp: fill_qty_def)
  next
    case False
    obtain gs r zs where g: "match_flat s p (q - ?t) xs = (gs, r, zs)" by (cases "match_flat s p (q - ?t) xs") auto
    have u: "unat (q - ?t) = unat q - unat ?t" "unat (ao_qty x - ?t) = unat (ao_qty x) - unat ?t" "unat ?t \<le> unat q"
      "unat ?t \<le> unat (ao_qty x)"
      using diff_min_u32 [of q "ao_qty x"] diff_min_u32 [of "ao_qty x" q] by (simp_all add: min_u32 min.commute)
    show ?thesis
    proof (cases "?t = ao_qty x")
      case True
      with Cons.prems False g have "fs = (x, ?t) # gs" "q' = r" "ys = zs" by (auto simp: Let_def)
      with Cons.IH [OF g] u True show ?thesis by (auto simp: fill_qty_def total_qty_def)
    next
      case part: False
      with Cons.prems False g have "fs = [(x, ?t)]" "q' = q - ?t" "ys = x\<lparr>ao_qty := ao_qty x - ?t\<rparr> # xs"
        by (auto simp: Let_def)
      with u show ?thesis by (simp add: fill_qty_def total_qty_def)
    qed
  qed
qed (auto simp: fill_qty_def)

text \<open>
  The fills go through the list from its head without skipping, exhaust every resting order but
  possibly the last, cross the limit, and stop only when the incoming quantity is used up or the
  next order is out of reach.
\<close>

lemma match_flat_priority:
  "match_flat s p q xs = (fs, q', ys) \<Longrightarrow>
     map fst fs = take (length fs) xs \<and> length fs \<le> length xs
     \<and> (\<forall>f\<in>set fs. price_crosses s p (ao_price (fst f)) \<and> snd f \<le> ao_qty (fst f))
     \<and> (\<forall>f\<in>set (butlast fs). snd f = ao_qty (fst f))
     \<and> (q' = 0 \<or> length fs = length xs \<or> \<not> price_crosses s p (ao_price (xs ! length fs)))
     \<and> (q' \<noteq> 0 \<longrightarrow> ys = drop (length fs) xs)
     \<and> (\<exists>zs. ys = zs @ drop (length fs) xs
          \<and> (zs = [] \<or> fs \<noteq> [] \<and> zs = [(fst (last fs))\<lparr>ao_qty := ao_qty (fst (last fs)) - snd (last fs)\<rparr>]
               \<and> snd (last fs) < ao_qty (fst (last fs))))"
proof (induction xs arbitrary: q fs q' ys)
  case (Cons x xs)
  let ?t = "min q (ao_qty x)"
  show ?case
  proof (cases "q = 0 \<or> \<not> price_crosses s p (ao_price x)")
    case True
    with Cons.prems show ?thesis by auto
  next
    case False
    obtain gs r zs where g: "match_flat s p (q - ?t) xs = (gs, r, zs)" by (cases "match_flat s p (q - ?t) xs") auto
    show ?thesis
    proof (cases "?t = ao_qty x")
      case True
      with Cons.prems False g have f: "fs = (x, ?t) # gs" "q' = r" "ys = zs" by (auto simp: Let_def)
      from Cons.IH [OF g] False True show ?thesis unfolding f by (cases "gs = []") (auto split: if_splits)
    next
      case part: False
      then have tq: "?t = q" "q < ao_qty x" by (auto simp: min_def split: if_splits)
      with Cons.prems False part have f: "fs = [(x, q)]" "q' = 0" "ys = x\<lparr>ao_qty := ao_qty x - q\<rparr> # xs"
        by (auto simp: Let_def)
      with False tq show ?thesis by auto
    qed
  qed
qed auto

lemma fill_positive:
  "match_flat s p q xs = (fs, q', ys) \<Longrightarrow> \<forall>x\<in>set xs. 0 < ao_qty x \<Longrightarrow> \<forall>f\<in>set fs. 0 < snd f"
proof (induction xs arbitrary: q fs q' ys)
  case (Cons x xs)
  let ?t = "min q (ao_qty x)"
  obtain gs r zs where g: "match_flat s p (q - ?t) xs = (gs, r, zs)" by (cases "match_flat s p (q - ?t) xs") auto
  have "q \<noteq> 0 \<Longrightarrow> 0 < ?t" using Cons.prems(2) by (auto simp: min_def word_neq_0_conv)
  with Cons.prems g Cons.IH [OF g] show ?case by (auto simp: Let_def split: if_splits)
qed auto

lemma match_flat_left:
  assumes "match_flat s p q xs = (fs, q', ys)" "\<forall>x\<in>set xs. order_valid x"
  shows "\<forall>y\<in>set ys. order_valid y \<and> (\<exists>x\<in>set xs. ao_price y = ao_price x)"
proof -
  note P = match_flat_priority [OF assms(1)]
  from P obtain zs where zs: "ys = zs @ drop (length fs) xs"
    "zs = [] \<or> fs \<noteq> [] \<and> zs = [(fst (last fs))\<lparr>ao_qty := ao_qty (fst (last fs)) - snd (last fs)\<rparr>]
       \<and> snd (last fs) < ao_qty (fst (last fs))" by blast
  have "order_valid y \<and> (\<exists>x\<in>set xs. ao_price y = ao_price x)" if "y \<in> set zs" for y
  proof -
    from that zs(2) have y: "fs \<noteq> []" "y = (fst (last fs))\<lparr>ao_qty := ao_qty (fst (last fs)) - snd (last fs)\<rparr>"
      "snd (last fs) < ao_qty (fst (last fs))" by auto
    have mem: "last fs \<in> set fs" using y(1) by simp
    then have "fst (last fs) \<in> set (map fst fs)" by simp
    with P have x: "fst (last fs) \<in> set xs" by (metis in_set_takeD)
    let ?x = "fst (last fs)" let ?t = "snd (last fs)"
    have "unat (ao_qty ?x - ?t) = unat (ao_qty ?x) - unat ?t" using y(3) by (simp add: unat_sub word_less_nat_alt word_le_nat_alt)
    with y(3) have "kMinEngineQuantity \<le> ao_qty ?x - ?t" "ao_qty ?x - ?t \<le> ao_qty ?x"
      by (auto simp: kMinEngineQuantity_def word_le_nat_alt word_less_nat_alt)
    with assms(2) x y(2) show ?thesis by (fastforce simp: order_valid_def)
  qed
  moreover have "order_valid y \<and> (\<exists>x\<in>set xs. ao_price y = ao_price x)" if "y \<in> set (drop (length fs) xs)" for y
    using in_set_dropD [OF that] assms(2) by blast
  ultimately show ?thesis using zs(1) by auto
qed

lemma priority_sorted_reprice:
  "priority_sorted s (x # xs) \<Longrightarrow> ao_price y = ao_price x \<Longrightarrow> ao_seq y = ao_seq x \<Longrightarrow> ao_id y = ao_id x \<Longrightarrow>
     priority_sorted s (y # xs)"
  by (auto simp: priority_sorted_Cons ao_before_def ao_prio_def)

lemma match_flat_sorted:
  "match_flat s p q xs = (fs, q', ys) \<Longrightarrow> priority_sorted t xs \<Longrightarrow> priority_sorted t ys"
proof (induction xs arbitrary: q fs q' ys)
  case (Cons x xs)
  let ?t = "min q (ao_qty x)"
  obtain gs r zs where g: "match_flat s p (q - ?t) xs = (gs, r, zs)" by (cases "match_flat s p (q - ?t) xs") auto
  have "priority_sorted t xs" using Cons.prems(2) by (simp add: priority_sorted_Cons)
  with Cons.prems Cons.IH [OF g] g show ?case
    using priority_sorted_reprice [OF Cons.prems(2), of "x\<lparr>ao_qty := ao_qty x - ?t\<rparr>"]
    by (auto simp: Let_def split: if_splits)
qed auto

lemma uncrossed_alt: "uncrossed A \<longleftrightarrow> (\<forall>x\<in>set (A s). \<forall>y\<in>set (A (opposite s)). \<not> price_crosses s (ao_price x) (ao_price y))"
  by (cases s) (auto simp: uncrossed_def price_crosses_def opposite_def not_le)

lemma not_crosses_all:
  assumes "priority_sorted (opposite s) (y # ys)" "\<not> price_crosses s p (ao_price y)" "z \<in> set (y # ys)"
  shows "\<not> price_crosses s p (ao_price z)"
proof (cases "z = y")
  case False
  with assms have "\<not> ao_before (opposite s) z y" by (auto simp: priority_sorted_Cons)
  with assms(2) show ?thesis
    by (cases s) (auto simp: ao_before_def price_crosses_def price_ranks_first_def opposite_def)
qed (use assms in simp)

lemma rest_out_of_reach:
  assumes m: "match_flat s p q xs = (fs, q', ys)" and st: "priority_sorted (opposite s) xs" and q: "q' \<noteq> 0"
  shows "\<forall>y\<in>set ys. \<not> price_crosses s p (ao_price y)"
proof -
  note P = match_flat_priority [OF m]
  from P q have ys: "ys = drop (length fs) xs"
    "length fs = length xs \<or> \<not> price_crosses s p (ao_price (xs ! length fs))" "length fs \<le> length xs" by auto
  show ?thesis
  proof (cases "length fs = length xs")
    case False
    then have d: "ys = xs ! length fs # drop (Suc (length fs)) xs" using ys by (simp add: Cons_nth_drop_Suc)
    have "priority_sorted (opposite s) (take (length fs) xs @ ys)" using st ys(1) by simp
    then have "priority_sorted (opposite s) ys" by (simp add: priority_sorted_append)
    with d False ys(2) not_crosses_all show ?thesis by metis
  qed (use ys in simp)
qed

lemma match_keeps_inv:
  assumes inv: "book_inv A" and m: "match_flat s p q (A (opposite s)) = (fs, q', ys)"
  shows "book_inv (A(opposite s := ys))"
proof -
  have v: "\<forall>y\<in>set ys. order_valid y \<and> (\<exists>x\<in>set (A (opposite s)). ao_price y = ao_price x)"
    using match_flat_left [OF m] inv by (simp add: book_inv_def)
  have "priority_sorted (opposite s) ys" using match_flat_sorted [OF m, of "opposite s"] inv by (simp add: book_inv_def)
  moreover have "uncrossed (A(opposite s := ys))"
    using inv v unfolding book_inv_def uncrossed_alt [of _ s] by (simp add: book_inv_def) metis
  ultimately show ?thesis using inv v unfolding book_inv_def by auto
qed

lemma rest_keeps_inv:
  assumes inv: "book_inv A" and out: "\<forall>y\<in>set (A (opposite s)). \<not> price_crosses s (ao_price x) (ao_price y)"
    and x: "order_valid x"
  shows "book_inv (A(s := a_insert s x (A s)))"
proof -
  have "uncrossed (A(s := a_insert s x (A s)))"
    using inv out unfolding book_inv_def uncrossed_alt [of _ s] by (auto simp: mset_a_insert)
  with inv x show ?thesis unfolding book_inv_def by (auto simp: mset_a_insert a_insert_sorted)
qed

lemma new_order_keeps_inv:
  assumes inv: "book_inv (ae_book a)" and val: "validate_new_order inc = None"
  shows "book_inv (ae_book (snd (a_new_order cp inc a)))"
proof -
  let ?s = "no_side inc" let ?A = "ae_book a"
  obtain fs q ys where m: "match_flat ?s (no_price_ticks inc) (no_quantity inc) (?A (opposite ?s)) = (fs, q, ys)"
    by (cases "match_flat ?s (no_price_ticks inc) (no_quantity inc) (?A (opposite ?s))") auto
  note I = match_keeps_inv [OF inv m]
  have "book_inv (a_rest cp inc q (?A(opposite ?s := ys)))"
  proof (cases "q = 0")
    case False
    have "\<forall>y\<in>set ys. \<not> price_crosses ?s (no_price_ticks inc) (ao_price y)"
      using rest_out_of_reach [OF m _ False] inv by (simp add: book_inv_def)
    moreover have "order_valid (order_of inc q)"
    proof -
      have "unat q \<le> unat (no_quantity inc)" using match_flat_conserves [OF m] by simp
      with val False show ?thesis
        by (auto simp: validate_new_order_def order_valid_def order_of_def kMinEngineQuantity_def word_le_nat_alt
            word_less_nat_alt unat_gt_0 Suc_le_eq split: if_splits)
    qed
    ultimately show ?thesis
      using rest_keeps_inv [OF I, of ?s "order_of inc q"] I by (auto simp: a_rest_def order_of_def)
  qed (use I in \<open>simp add: a_rest_def\<close>)
  with m show ?thesis by (simp add: a_new_order_def)
qed

lemma book_inv_sub:
  assumes "book_inv A" "\<And>s. priority_sorted s (B s)" "\<And>s. set (B s) \<subseteq> set (A s)"
  shows "book_inv B"
  using assms unfolding book_inv_def uncrossed_def by blast

lemma cancel_keeps_inv:
  assumes "book_inv A"
  shows "book_inv (a_cancel i A)"
proof (rule book_inv_sub [OF assms])
  fix s
  have "priority_sorted s (A s)" for s using assms by (simp add: book_inv_def)
  then show "priority_sorted s (a_cancel i A s)" by (auto simp: a_cancel_def a_delete_sorted)
  show "set (a_cancel i A s) \<subseteq> set (A s)" using set_a_delete by (auto simp: a_cancel_def)
qed

lemma empty_inv: "book_inv (\<lambda>_. [])"
  by (simp add: book_inv_def uncrossed_def)

lemma trades_of_nth:
  "k < length fs \<Longrightarrow> trades_of n i fs ! k = trade_of (n + of_nat k) i (fs ! k)"
proof (induction fs arbitrary: n k)
  case (Cons f fs)
  then show ?case by (cases k) (auto simp: ac_simps)
qed simp

lemma length_trades_of [simp]: "length (trades_of n i fs) = length fs"
  by (induction fs arbitrary: n) auto

lemma trades_of_qty: "(\<Sum>t\<leftarrow>trades_of n i fs. unat (tr_quantity t)) = fill_qty fs"
  by (induction fs arbitrary: n) (auto simp: fill_qty_def trade_of_def)

lemma total_qty_a_insert: "total_qty (a_insert s x xs) = total_qty xs + unat (ao_qty x)"
proof -
  have "total_qty xs = total_qty (takeWhile (\<lambda>y. \<not> ao_before s x y) xs) + total_qty (dropWhile (\<lambda>y. \<not> ao_before s x y) xs)"
    by (metis (no_types, lifting) map_append sum_list_append takeWhile_dropWhile_id total_qty_def)
  then show ?thesis by (simp add: a_insert_def total_qty_def)
qed

text \<open>
  C1. Matching refines its specification: in every well-formed state the engine returns, hands the
  sink exactly the trades of the specification in order, and ends in a state that represents the
  specification's next state.
\<close>

theorem process_new_order_matches_spec:
  assumes "engine_rel cp e a"
  shows "\<exists>e'. process_new_order collect inc e [] = Some (e', fst (a_new_order cp inc a))
    \<and> engine_rel cp e' (snd (a_new_order cp inc a))"
  using process_new_order_refines [OF assms, of collect inc] by auto

text \<open>What a limit means: a buyer pays at most, a seller receives at least the limit price.\<close>

definition within_limit :: "Side \<Rightarrow> u64 \<Rightarrow> u64 \<Rightarrow> bool" where
  "within_limit s limit price \<longleftrightarrow> (case s of Buy \<Rightarrow> price \<le> limit | Sell \<Rightarrow> limit \<le> price)"

lemma price_crosses_limit: "within_limit s limit price = price_crosses s limit price"
  by (cases s) (simp_all add: within_limit_def price_crosses_def)

text \<open>
  C2. Price-time priority: the trades walk down the opposite side's priority list from its head,
  skipping nobody; every trade is at the resting order's own price, within the incoming limit,
  and takes a resting order completely before moving on to the next; matching stops early only
  when the incoming quantity is used up or the next resting order is out of reach.
\<close>

theorem matching_price_time_priority:
  assumes "engine_rel cp e a" "xs = ae_book a (opposite (no_side inc))"
  shows "\<exists>e' ts. process_new_order collect inc e [] = Some (e', ts)
    \<and> priority_sorted (opposite (no_side inc)) xs \<and> length ts \<le> length xs
    \<and> (\<forall>k < length ts. tr_resting_id (ts ! k) = ao_id (xs ! k) \<and> tr_price_ticks (ts ! k) = ao_price (xs ! k)
         \<and> tr_incoming_id (ts ! k) = no_order_id inc \<and> tr_quantity (ts ! k) \<le> ao_qty (xs ! k)
         \<and> within_limit (no_side inc) (no_price_ticks inc) (tr_price_ticks (ts ! k))
         \<and> (Suc k < length ts \<longrightarrow> tr_quantity (ts ! k) = ao_qty (xs ! k)))
    \<and> (length ts < length xs \<longrightarrow> (\<Sum>t\<leftarrow>ts. unat (tr_quantity t)) = unat (no_quantity inc)
         \<or> \<not> within_limit (no_side inc) (no_price_ticks inc) (ao_price (xs ! length ts)))"
proof -
  obtain fs q ys where m: "match_flat (no_side inc) (no_price_ticks inc) (no_quantity inc) xs = (fs, q, ys)"
    by (cases "match_flat (no_side inc) (no_price_ticks inc) (no_quantity inc) xs") auto
  let ?ts = "trades_of (ae_seq a) (no_order_id inc) fs"
  have ts: "fst (a_new_order cp inc a) = ?ts" using m assms(2) by (simp add: a_new_order_def)
  from process_new_order_refines [OF assms(1), of collect inc] obtain e' where
    run: "process_new_order collect inc e [] = Some (e', ?ts)" unfolding ts by auto
  note P = match_flat_priority [OF m]
  have st: "priority_sorted (opposite (no_side inc)) xs"
    using assms book.sorted [of "me_book e" "ae_book a"] by (simp add: engine_rel_def)
  have fst_k: "fst (fs ! k) = xs ! k" "k < length xs" if "k < length fs" for k
    using P that by (metis nth_map nth_take, linarith)
  have "(\<Sum>t\<leftarrow>?ts. unat (tr_quantity t)) = unat (no_quantity inc)
      \<or> \<not> price_crosses (no_side inc) (no_price_ticks inc) (ao_price (xs ! length ?ts))" if "length ?ts < length xs"
    using P that match_flat_conserves [OF m] unfolding trades_of_qty by auto
  moreover have "tr_resting_id (?ts ! k) = ao_id (xs ! k) \<and> tr_price_ticks (?ts ! k) = ao_price (xs ! k)
         \<and> tr_incoming_id (?ts ! k) = no_order_id inc \<and> tr_quantity (?ts ! k) \<le> ao_qty (xs ! k)
         \<and> price_crosses (no_side inc) (no_price_ticks inc) (tr_price_ticks (?ts ! k))
         \<and> (Suc k < length ?ts \<longrightarrow> tr_quantity (?ts ! k) = ao_qty (xs ! k))" if k: "k < length ?ts" for k
  proof -
    from k have k': "k < length fs" by simp
    have "fs ! k \<in> set fs" using k' by simp
    moreover have "Suc k < length fs \<Longrightarrow> fs ! k \<in> set (butlast fs)"
      by (metis Suc_lessE diff_Suc_1 length_butlast nth_butlast nth_mem Suc_less_eq)
    moreover have "\<forall>f\<in>set fs. price_crosses (no_side inc) (no_price_ticks inc) (ao_price (fst f)) \<and> snd f \<le> ao_qty (fst f)"
      "\<forall>f\<in>set (butlast fs). snd f = ao_qty (fst f)" using P by blast+
    ultimately show ?thesis unfolding trades_of_nth [OF k'] trade_of_def length_trades_of
      using fst_k(1) [OF k'] by fastforce
  qed
  moreover have "length ?ts \<le> length xs" using P by simp
  ultimately show ?thesis unfolding price_crosses_limit using run st by blast
qed

subsection \<open>A small state for the witnesses\<close>

definition demo_order :: "u64 \<Rightarrow> Side \<Rightarrow> u64 \<Rightarrow> u32 \<Rightarrow> u64 \<Rightarrow> NewOrder" where
  "demo_order i s p q t = \<lparr>no_order_id = i, no_side = s, no_price_ticks = p, no_quantity = q, no_seq = t\<rparr>"

definition demo_resting :: "u64 \<Rightarrow> u64 \<Rightarrow> u32 \<Rightarrow> u64 \<Rightarrow> AOrder" where
  "demo_resting i p q t = \<lparr>ao_id = i, ao_seq = t, ao_price = p, ao_qty = q\<rparr>"

definition demo_state :: AEngine where
  "demo_state = \<lparr>ae_book = (\<lambda>s. if s = Buy then [demo_resting 3 90 7 3] else [demo_resting 2 100 5 2, demo_resting 1 101 4 1]),
     ae_seq = 1, ae_hist = []\<rparr>"

lemma demo_engine: "\<exists>e. engine_rel (4, 3) e demo_state"
proof -
  have "engine_rel (4, 3) (engine_new 4 3) \<lparr>ae_book = (\<lambda>_. []), ae_seq = 1, ae_hist = []\<rparr>"
    by (rule engine_new_rel) (simp_all add: kNullNode_def)
  from process_new_order_refines [OF this, of collect "demo_order 1 Sell 101 4 1"] obtain e1 where
    "engine_rel (4, 3) e1 (snd (a_new_order (4, 3) (demo_order 1 Sell 101 4 1) \<lparr>ae_book = (\<lambda>_. []), ae_seq = 1, ae_hist = []\<rparr>))"
    by blast
  from process_new_order_refines [OF this, of collect "demo_order 2 Sell 100 5 2"] obtain e2 where
    "engine_rel (4, 3) e2 (snd (a_new_order (4, 3) (demo_order 2 Sell 100 5 2)
      (snd (a_new_order (4, 3) (demo_order 1 Sell 101 4 1) \<lparr>ae_book = (\<lambda>_. []), ae_seq = 1, ae_hist = []\<rparr>))))"
    by blast
  from process_new_order_refines [OF this, of collect "demo_order 3 Buy 90 7 3"] obtain e3 where
    "engine_rel (4, 3) e3 (snd (a_new_order (4, 3) (demo_order 3 Buy 90 7 3) (snd (a_new_order (4, 3) (demo_order 2 Sell 100 5 2)
      (snd (a_new_order (4, 3) (demo_order 1 Sell 101 4 1) \<lparr>ae_book = (\<lambda>_. []), ae_seq = 1, ae_hist = []\<rparr>))))))"
    by blast
  moreover have "snd (a_new_order (4, 3) (demo_order 3 Buy 90 7 3) (snd (a_new_order (4, 3) (demo_order 2 Sell 100 5 2)
      (snd (a_new_order (4, 3) (demo_order 1 Sell 101 4 1) \<lparr>ae_book = (\<lambda>_. []), ae_seq = 1, ae_hist = []\<rparr>))))) = demo_state"
    by code_simp
  ultimately show ?thesis by auto
qed

theorem process_new_order_matches_spec_witness:
  "\<exists>e e'. engine_rel (4, 3) e demo_state
    \<and> process_new_order collect (demo_order 9 Buy 101 6 4) e [] = Some (e', [
        \<lparr>tr_exec_seq = 1, tr_price_ticks = 100, tr_quantity = 5, tr_incoming_id = 9, tr_resting_id = 2\<rparr>,
        \<lparr>tr_exec_seq = 2, tr_price_ticks = 101, tr_quantity = 1, tr_incoming_id = 9, tr_resting_id = 1\<rparr>])"
proof -
  from demo_engine obtain e where e: "engine_rel (4, 3) e demo_state" by blast
  have "fst (a_new_order (4, 3) (demo_order 9 Buy 101 6 4) demo_state) = [
        \<lparr>tr_exec_seq = 1, tr_price_ticks = 100, tr_quantity = 5, tr_incoming_id = 9, tr_resting_id = 2\<rparr>,
        \<lparr>tr_exec_seq = 2, tr_price_ticks = 101, tr_quantity = 1, tr_incoming_id = 9, tr_resting_id = 1\<rparr>]"
    by code_simp
  with process_new_order_matches_spec [OF e, of "demo_order 9 Buy 101 6 4"] e show ?thesis by metis
qed

theorem matching_price_time_priority_witness:
  "\<exists>e e' ts. engine_rel (4, 3) e demo_state \<and> process_new_order collect (demo_order 9 Buy 101 6 4) e [] = Some (e', ts)
    \<and> length ts \<le> 2 \<and> (0 < length ts \<longrightarrow> tr_resting_id (ts ! 0) = 2)"
proof -
  from demo_engine obtain e where e: "engine_rel (4, 3) e demo_state" by blast
  have xs: "[demo_resting 2 100 5 2, demo_resting 1 101 4 1] = ae_book demo_state (opposite (no_side (demo_order 9 Buy 101 6 4)))"
    by code_simp
  from matching_price_time_priority [OF e xs] e show ?thesis by (auto simp: demo_resting_def)
qed

text \<open>
  C3. Quantity is conserved: what an incoming order trades and what is left of it add up to its
  quantity; the opposite side loses exactly the traded quantity; the remainder rests on the own
  side when the pools have room, and is dropped, leaving the own side as it was, when they have not.
\<close>

theorem matching_conserves_quantity:
  assumes "engine_rel cp e a"
  shows "\<exists>e' ts a'. process_new_order collect inc e [] = Some (e', ts) \<and> engine_rel cp e' a'
    \<and> (\<Sum>t\<leftarrow>ts. unat (tr_quantity t)) \<le> unat (no_quantity inc)
    \<and> total_qty (ae_book a (opposite (no_side inc)))
        = total_qty (ae_book a' (opposite (no_side inc))) + (\<Sum>t\<leftarrow>ts. unat (tr_quantity t))
    \<and> (if a_has_room cp (no_side inc) (no_price_ticks inc)
            ((ae_book a')(no_side inc := ae_book a (no_side inc)))
       then total_qty (ae_book a' (no_side inc)) + (\<Sum>t\<leftarrow>ts. unat (tr_quantity t))
              = total_qty (ae_book a (no_side inc)) + unat (no_quantity inc)
       else ae_book a' (no_side inc) = ae_book a (no_side inc))"
proof -
  let ?s = "no_side inc" let ?A = "ae_book a"
  obtain fs q ys where m: "match_flat ?s (no_price_ticks inc) (no_quantity inc) (?A (opposite ?s)) = (fs, q, ys)"
    by (cases "match_flat ?s (no_price_ticks inc) (no_quantity inc) (?A (opposite ?s))") auto
  let ?ts = "trades_of (ae_seq a) (no_order_id inc) fs" let ?a = "snd (a_new_order cp inc a)"
  from process_new_order_refines [OF assms, of collect inc] m obtain e' where
    run: "process_new_order collect inc e [] = Some (e', ?ts)" "engine_rel cp e' ?a" by (auto simp: a_new_order_def)
  have bk: "ae_book ?a = a_rest cp inc q (?A(opposite ?s := ys))" using m by (simp add: a_new_order_def)
  have "(ae_book ?a)(?s := ?A ?s) = ?A(opposite ?s := ys)" unfolding bk by (auto simp: a_rest_def fun_eq_iff)
  moreover have "ae_book ?a (opposite ?s) = ys" unfolding bk by (simp add: a_rest_def)
  moreover have "total_qty (ae_book ?a ?s) = total_qty (?A ?s) + (if a_has_room cp ?s (no_price_ticks inc) (?A(opposite ?s := ys)) then unat q else 0)"
    unfolding bk by (cases "q = 0") (auto simp: a_rest_def total_qty_a_insert order_of_def word_neq_0_conv)
  moreover have "\<not> a_has_room cp ?s (no_price_ticks inc) (?A(opposite ?s := ys)) \<Longrightarrow> ae_book ?a ?s = ?A ?s"
    unfolding bk by (auto simp: a_rest_def)
  ultimately show ?thesis
    using run match_flat_conserves [OF m] by (intro exI [of _ e'] exI [of _ ?ts] exI [of _ ?a]) (simp add: trades_of_qty)
qed

theorem matching_conserves_quantity_witness:
  "\<exists>e e' ts a'. engine_rel (4, 3) e demo_state \<and> process_new_order collect (demo_order 9 Buy 101 6 4) e [] = Some (e', ts)
    \<and> engine_rel (4, 3) e' a' \<and> (\<Sum>t\<leftarrow>ts. unat (tr_quantity t)) \<le> 6
    \<and> 9 = total_qty (ae_book a' Sell) + (\<Sum>t\<leftarrow>ts. unat (tr_quantity t))"
proof -
  from demo_engine obtain e where e: "engine_rel (4, 3) e demo_state" by blast
  have "total_qty (ae_book demo_state Sell) = 9" "opposite (no_side (demo_order 9 Buy 101 6 4)) = Sell"
    "unat (no_quantity (demo_order 9 Buy 101 6 4)) = 6" by code_simp+
  with matching_conserves_quantity [OF e, of "demo_order 9 Buy 101 6 4"] e show ?thesis by auto
qed

text \<open>
  Execution numbers: the trades of one order carry consecutive numbers from
  \<open>next_exec_seq\<close>, which afterwards has advanced by the number of trades.
\<close>

theorem trades_are_numbered:
  assumes "engine_rel cp e a"
  shows "\<exists>e' ts. process_new_order collect inc e [] = Some (e', ts)
    \<and> (\<forall>k < length ts. tr_exec_seq (ts ! k) = next_exec_seq e + of_nat k)
    \<and> next_exec_seq e' = next_exec_seq e + of_nat (length ts)"
proof -
  obtain fs q ys where m: "match_flat (no_side inc) (no_price_ticks inc) (no_quantity inc) (ae_book a (opposite (no_side inc))) = (fs, q, ys)"
    by (cases "match_flat (no_side inc) (no_price_ticks inc) (no_quantity inc) (ae_book a (opposite (no_side inc)))") auto
  from process_new_order_refines [OF assms, of collect inc] m obtain e' where
    "process_new_order collect inc e [] = Some (e', trades_of (ae_seq a) (no_order_id inc) fs)"
    "me_next_exec_seq e' = ae_seq a + of_nat (length fs)" by (auto simp: a_new_order_def engine_rel_def)
  with assms show ?thesis by (auto simp: engine_rel_def next_exec_seq_def trades_of_nth trade_of_def)
qed

theorem trades_are_numbered_witness:
  "\<exists>e e' ts. engine_rel (4, 3) e demo_state \<and> process_new_order collect (demo_order 9 Buy 101 6 4) e [] = Some (e', ts)
    \<and> next_exec_seq e' = 1 + of_nat (length ts)"
proof -
  from demo_engine obtain e where e: "engine_rel (4, 3) e demo_state" by blast
  then have "next_exec_seq e = 1" by (simp add: engine_rel_def next_exec_seq_def demo_state_def)
  with trades_are_numbered [OF e, of "demo_order 9 Buy 101 6 4"] e show ?thesis by auto
qed

subsection \<open>Cancellation\<close>

text \<open>How often an identifier rests in the book.\<close>

definition id_count :: "u64 \<Rightarrow> ABook \<Rightarrow> nat" where
  "id_count i A = length (filter (\<lambda>x. ao_id x = i) (A Buy)) + length (filter (\<lambda>x. ao_id x = i) (A Sell))"

lemma a_delete_count:
  "length (filter (\<lambda>x. ao_id x = j) (a_delete i xs)) =
     length (filter (\<lambda>x. ao_id x = j) xs) - (if j = i then 1 else 0)"
  by (induction xs) auto

lemma a_ids_count: "i \<in> a_ids xs \<longleftrightarrow> 0 < length (filter (\<lambda>x. ao_id x = i) xs)"
  by (auto simp: a_ids_def filter_empty_conv)

lemma resting_count: "i \<in> a_resting a \<longleftrightarrow> 0 < id_count i (ae_book a)"
  by (auto simp: a_resting_def id_count_def a_ids_count)

lemma cancel_count: "id_count j (a_cancel i A) = id_count j A - (if j = i then 1 else 0)"
  by (cases "filter (\<lambda>x. ao_id x = i) (A Buy)") (auto simp: a_cancel_def id_count_def a_delete_count a_ids_count)

definition cancel_into :: "CancelOrder \<Rightarrow> MatchingEngine \<Rightarrow> (bool \<times> MatchingEngine \<times> BinaryMessage list) option" where
  "cancel_into c e = process_cancel_order (\<lambda>x. collect (BM_Ack x)) (\<lambda>x. collect (BM_Reject x)) c e []"

lemma cancel_into_spec:
  assumes "engine_rel cp e a"
  shows "\<exists>e'. cancel_into c e = Some (co_order_id c \<in> a_resting a, e',
      [if co_order_id c \<in> a_resting a then BM_Ack \<lparr>ack_order_id = co_order_id c, ack_kind = Cancelled\<rparr>
       else BM_Reject \<lparr>rej_order_id = co_order_id c,
         rej_reason = (if co_order_id c \<in> set (ae_hist a) then NoLongerResting else OrderNotFound)\<rparr>])
    \<and> (if co_order_id c \<in> a_resting a then engine_rel cp e' (a_cancel_order cp (co_order_id c) a) else e' = e)"
  using process_cancel_order_refines [OF assms, of "\<lambda>x. collect (BM_Ack x)" "\<lambda>x. collect (BM_Reject x)" c]
  by (cases "co_order_id c \<in> a_resting a") (auto simp: cancel_into_def collect_def)

text \<open>
  C17. Cancellation: an order that rests is removed, the first in scan order when an identifier
  rests more than once, everything else stays, its identifier enters the history and one
  acknowledgement is emitted; otherwise the engine is unchanged and one rejection says whether the
  identifier is in the history of retired identifiers.
\<close>

theorem cancel_behaviour:
  assumes "engine_rel cp e a"
  shows "\<exists>e'. (if co_order_id c \<in> a_resting a
     then cancel_into c e = Some (True, e', [BM_Ack \<lparr>ack_order_id = co_order_id c, ack_kind = Cancelled\<rparr>])
       \<and> engine_rel cp e' (a_cancel_order cp (co_order_id c) a)
       \<and> (\<forall>j. id_count j (a_cancel (co_order_id c) (ae_book a)) = id_count j (ae_book a) - (if j = co_order_id c then 1 else 0))
     else cancel_into c e = Some (False, e, [BM_Reject \<lparr>rej_order_id = co_order_id c,
            rej_reason = (if co_order_id c \<in> set (ae_hist a) then NoLongerResting else OrderNotFound)\<rparr>]))"
  using cancel_into_spec [OF assms, of c] by (cases "co_order_id c \<in> a_resting a") (auto simp: cancel_count)

theorem cancel_behaviour_witness:
  "\<exists>e e'. engine_rel (4, 3) e demo_state
    \<and> cancel_into \<lparr>co_order_id = 2\<rparr> e = Some (True, e', [BM_Ack \<lparr>ack_order_id = 2, ack_kind = Cancelled\<rparr>])
    \<and> cancel_into \<lparr>co_order_id = 8\<rparr> e = Some (False, e, [BM_Reject \<lparr>rej_order_id = 8, rej_reason = OrderNotFound\<rparr>])"
proof -
  from demo_engine obtain e where e: "engine_rel (4, 3) e demo_state" by blast
  have "2 \<in> a_resting demo_state" "8 \<notin> a_resting demo_state" "8 \<notin> set (ae_hist demo_state)" by code_simp+
  with cancel_behaviour [OF e, of "\<lparr>co_order_id = 2\<rparr>"] cancel_behaviour [OF e, of "\<lparr>co_order_id = 8\<rparr>"] e
  show ?thesis by auto
qed

text \<open>
  Cancelling an order that rests once and then cancelling it again is answered with an
  acknowledgement and then with \<open>NoLongerResting\<close>, and the second attempt changes nothing.
\<close>

theorem second_cancel_no_longer_resting:
  assumes "engine_rel cp e a" "id_count (co_order_id c) (ae_book a) = 1"
  shows "\<exists>e'. cancel_into c e = Some (True, e', [BM_Ack \<lparr>ack_order_id = co_order_id c, ack_kind = Cancelled\<rparr>])
    \<and> cancel_into c e' = Some (False, e', [BM_Reject \<lparr>rej_order_id = co_order_id c, rej_reason = NoLongerResting\<rparr>])"
proof -
  let ?i = "co_order_id c" let ?a = "a_cancel_order cp ?i a"
  from cancel_into_spec [OF assms(1), of c] assms(2)
  obtain e' where e': "cancel_into c e = Some (True, e', [BM_Ack \<lparr>ack_order_id = ?i, ack_kind = Cancelled\<rparr>])"
    "engine_rel cp e' ?a" by (auto simp: resting_count)
  have "?i \<notin> a_resting ?a" "?i \<in> set (ae_hist ?a)"
    using assms(2) by (simp_all add: resting_count a_cancel_order_def cancel_count h_insert_def)
  with cancel_into_spec [OF e'(2), of c] e'(1) show ?thesis by auto
qed

theorem second_cancel_no_longer_resting_witness:
  "\<exists>e e'. engine_rel (4, 3) e demo_state
    \<and> cancel_into \<lparr>co_order_id = 2\<rparr> e = Some (True, e', [BM_Ack \<lparr>ack_order_id = 2, ack_kind = Cancelled\<rparr>])
    \<and> cancel_into \<lparr>co_order_id = 2\<rparr> e' = Some (False, e', [BM_Reject \<lparr>rej_order_id = 2, rej_reason = NoLongerResting\<rparr>])"
proof -
  from demo_engine obtain e where e: "engine_rel (4, 3) e demo_state" by blast
  have "id_count 2 (ae_book demo_state) = 1" by code_simp
  with second_cancel_no_longer_resting [OF e, of "\<lparr>co_order_id = 2\<rparr>"] e show ?thesis by auto
qed

subsection \<open>Reachable engine states\<close>

definition submit_into :: "NewOrder \<Rightarrow> MatchingEngine \<Rightarrow> (bool \<times> MatchingEngine \<times> BinaryMessage list) option" where
  "submit_into inc e = process_new_order_checked (\<lambda>x. collect (BM_Trade x)) (\<lambda>x. collect (BM_Reject x)) inc e []"

inductive engine_reach :: "nat \<Rightarrow> nat \<Rightarrow> MatchingEngine \<Rightarrow> bool" for n m where
  start: "engine_reach n m (engine_new n m)"
| new_order: "engine_reach n m e \<Longrightarrow> submit_into inc e = Some (r, e', evs) \<Longrightarrow> engine_reach n m e'"
| cancel_order: "engine_reach n m e \<Longrightarrow> cancel_into c e = Some (r, e', evs) \<Longrightarrow> engine_reach n m e'"
| forget_history: "engine_reach n m e \<Longrightarrow> engine_reach n m (clear_retired e)"

definition good_state :: "nat \<times> nat \<Rightarrow> MatchingEngine \<Rightarrow> AEngine \<Rightarrow> bool" where
  "good_state cp e a \<longleftrightarrow> engine_rel cp e a \<and> book_inv (ae_book a)"

lemma for_each_comp: "for_each (\<lambda>x. collect (f x)) ys xs = Some (xs @ map f ys)"
  by (induction ys arbitrary: xs) (auto simp: collect_def)

lemma submit_good:
  assumes "good_state cp e a"
  shows "\<exists>r e' evs a'. submit_into inc e = Some (r, e', evs) \<and> good_state cp e' a'"
proof (cases "validate_new_order inc")
  case None
  from process_new_order_refines [of cp e a "\<lambda>x. collect (BM_Trade x)" inc] assms obtain e' where
    "\<forall>st. process_new_order (\<lambda>x. collect (BM_Trade x)) inc e st = Some (e', st @ map BM_Trade (fst (a_new_order cp inc a)))"
    "engine_rel cp e' (snd (a_new_order cp inc a))" by (auto simp: good_state_def for_each_comp)
  moreover have "book_inv (ae_book (snd (a_new_order cp inc a)))"
    using new_order_keeps_inv [OF _ None] assms by (simp add: good_state_def)
  ultimately show ?thesis using None by (auto simp: submit_into_def process_new_order_checked_def good_state_def)
next
  case (Some reason)
  with assms show ?thesis by (auto simp: submit_into_def process_new_order_checked_def collect_def)
qed

lemma cancel_good:
  assumes "good_state cp e a"
  shows "\<exists>r e' evs a'. cancel_into c e = Some (r, e', evs) \<and> good_state cp e' a'"
proof -
  have rel: "engine_rel cp e a" and inv: "book_inv (ae_book a)" using assms by (auto simp: good_state_def)
  from cancel_into_spec [OF rel, of c] obtain e' r evs where
    run: "cancel_into c e = Some (r, e', evs)"
    and e': "if co_order_id c \<in> a_resting a then engine_rel cp e' (a_cancel_order cp (co_order_id c) a) else e' = e"
    by blast
  have "book_inv (ae_book (a_cancel_order cp (co_order_id c) a))"
    using cancel_keeps_inv [OF inv] by (simp add: a_cancel_order_def)
  with e' assms have "\<exists>a'. good_state cp e' a'" by (auto simp: good_state_def split: if_splits)
  with run show ?thesis by blast
qed

lemma engine_reach_good:
  assumes "engine_reach n m e" "0 < n" "n \<le> kNullNode" "0 < m" "m \<le> kNullNode"
  shows "\<exists>a. good_state (n, m) e a"
  using assms(1)
proof induction
  case start
  then show ?case using engine_new_rel [OF assms(2-5)] empty_inv by (auto simp: good_state_def)
next
  case (new_order e inc r e' evs)
  with submit_good [of "(n, m)" e _ inc] show ?case by fastforce
next
  case (cancel_order e c r e' evs)
  with cancel_good [of "(n, m)" e _ c] show ?case by fastforce
next
  case (forget_history e)
  then show ?case using clear_retired_rel by (fastforce simp: good_state_def)
qed

text \<open>
  C12. Safety of every reachable state, for pools of any permitted size: whatever sequence of orders
  and cancellations the engine has seen, the links and pools represent two lists of resting orders
  in strict price-time priority, every resting order has a permitted price and a positive quantity
  within the engine's limit, and no bid reaches an ask.
\<close>

theorem reachable_book_sound:
  assumes "engine_reach n m e" "0 < n" "n \<le> kNullNode" "0 < m" "m \<le> kNullNode"
  shows "\<exists>A. book_rel (me_book e) A \<and> (\<forall>s. priority_sorted s (A s)) \<and> uncrossed A
    \<and> (\<forall>s. \<forall>x\<in>set (A s). 1 \<le> unat (ao_price x) \<and> unat (ao_price x) \<le> 99999999999
         \<and> 1 \<le> unat (ao_qty x) \<and> unat (ao_qty x) \<le> 1000000)
    \<and> a_order_count A \<le> n \<and> a_level_count A \<le> m"
proof -
  from engine_reach_good [OF assms] obtain a where g: "good_state (n, m) e a" by blast
  then have rel: "book_rel (me_book e) (ae_book a)" "caps (me_book e) = (n, m)" by (auto simp: good_state_def engine_rel_def)
  from rel(1) obtain sh where "book_ok (me_book e) sh" "ae_book a = abs_book (me_book e) sh" by (auto simp: book_rel_def)
  from book_counts [OF this(1)] this(2) rel(2) have "a_order_count (ae_book a) \<le> n" "a_level_count (ae_book a) \<le> m"
    by (auto simp: caps_def)
  moreover have "1 \<le> unat (ao_price x) \<and> unat (ao_price x) \<le> 99999999999
         \<and> 1 \<le> unat (ao_qty x) \<and> unat (ao_qty x) \<le> 1000000" if "order_valid x" for x
    using that by (auto simp: order_valid_def word_le_nat_alt kMinPriceTicks_def kMaxPriceTicks_def
        kMinEngineQuantity_def kMaxEngineQuantity_def)
  ultimately show ?thesis using g rel(1) unfolding good_state_def book_inv_def by blast
qed

theorem reachable_book_sound_witness:
  "\<exists>e A. engine_reach 4 3 e \<and> book_rel (me_book e) A \<and> uncrossed A \<and> a_order_count A \<le> 4"
proof -
  have "engine_reach 4 3 (engine_new 4 3)" by (rule engine_reach.start)
  from reachable_book_sound [OF this] this show ?thesis by (auto simp: kNullNode_def)
qed

text \<open>
  C13. Progress: in every reachable state the engine answers every order and every cancellation;
  no command makes it read outside a pool, follow a broken link or loop forever.
\<close>

theorem reachable_engine_progress:
  assumes "engine_reach n m e" "0 < n" "n \<le> kNullNode" "0 < m" "m \<le> kNullNode"
  shows "(\<exists>r e' evs. submit_into inc e = Some (r, e', evs) \<and> engine_reach n m e')
    \<and> (\<exists>r e' evs. cancel_into c e = Some (r, e', evs) \<and> engine_reach n m e')"
proof -
  from engine_reach_good [OF assms] obtain a where g: "good_state (n, m) e a" by blast
  from submit_good [OF g, of inc] cancel_good [OF g, of c] assms(1) show ?thesis
    by (meson engine_reach.new_order engine_reach.cancel_order)
qed

theorem reachable_engine_progress_witness:
  "\<exists>r e' evs. submit_into (demo_order 1 Buy 100 5 1) (engine_new 2 2) = Some (r, e', evs) \<and> engine_reach 2 2 e'"
proof -
  have "engine_reach 2 2 (engine_new 2 2)" by (rule engine_reach.start)
  from reachable_engine_progress [OF this, of "demo_order 1 Buy 100 5 1"] show ?thesis by (simp add: kNullNode_def)
qed

end
