(* ===== verification/Integrity_Guard.thy ===== *)
theory Integrity_Guard
  imports Matching_Properties
begin

text \<open>
  \<open>integrity_guard.hpp\<close>: the run-time checks of the order book and the guard that undoes an
  operation which breaks one of them.  The checks only use the public accessors of the book; their
  loops are \<open>partial_function (option)\<close> like the book's own.  \<open>commit\<close> takes the operation and the
  error sink as functions; \<open>'s\<close> is whatever else they capture.
\<close>

datatype Invariant = Inv_None | PriceOrdering | PositiveQuantity | QuantityConservation

fun invariant_name :: "Invariant \<Rightarrow> string" where
  "invariant_name Inv_None = ''none''"
| "invariant_name PriceOrdering = ''price-ordering''"
| "invariant_name PositiveQuantity = ''positive-quantity''"
| "invariant_name QuantityConservation = ''quantity-conservation''"

record IntegrityError =
  ie_invariant :: Invariant
  ie_name :: string

definition make_integrity_reject :: "u64 \<Rightarrow> Reject" where
  "make_integrity_reject order_id = \<lparr>rej_order_id = order_id, rej_reason = IntegrityViolation\<rparr>"

text \<open>The two walks of \<open>check_price_ordering\<close>; \<open>None\<close> inside is the null pointer.\<close>

partial_function (option) bids_descend :: "OrderBook \<Rightarrow> PriceLevel option \<Rightarrow> PriceLevel option \<Rightarrow> bool option" where
  "bids_descend b prev lvl = (case lvl of
     None \<Rightarrow> Some True
   | Some l \<Rightarrow>
       if (case prev of None \<Rightarrow> False | Some p \<Rightarrow> lv_price_ticks l \<ge> lv_price_ticks p) then Some False
       else do { l' \<leftarrow> level_after b l; bids_descend b (Some l) l' })"

partial_function (option) asks_ascend :: "OrderBook \<Rightarrow> PriceLevel option \<Rightarrow> PriceLevel option \<Rightarrow> bool option" where
  "asks_ascend b prev lvl = (case lvl of
     None \<Rightarrow> Some True
   | Some l \<Rightarrow>
       if (case prev of None \<Rightarrow> False | Some p \<Rightarrow> lv_price_ticks l \<le> lv_price_ticks p) then Some False
       else do { l' \<leftarrow> level_after b l; asks_ascend b (Some l) l' })"

definition check_price_ordering :: "OrderBook \<Rightarrow> bool option" where
  "check_price_ordering b = do {
     bid \<leftarrow> best_bid b;
     ok \<leftarrow> bids_descend b None bid;
     if \<not> ok then Some False
     else do {
       ask \<leftarrow> best_ask b;
       ok \<leftarrow> asks_ascend b None ask;
       if \<not> ok then Some False
       else (case (bid, ask) of
           (Some x, Some y) \<Rightarrow> Some (\<not> lv_price_ticks x \<ge> lv_price_ticks y)
         | _ \<Rightarrow> Some True)
     }
   }"

text \<open>The three nested loops of \<open>check_positive_quantity\<close>, innermost first.\<close>

partial_function (option) orders_positive :: "OrderBook \<Rightarrow> NodeIndex \<Rightarrow> bool option" where
  "orders_positive b node =
     (if node = kNullNode then Some True
      else do {
        r \<leftarrow> order_at b node;
        if ro_remaining_qty r = 0 then Some False else orders_positive b (ro_next r)
      })"

partial_function (option) levels_positive :: "OrderBook \<Rightarrow> PriceLevel option \<Rightarrow> bool option" where
  "levels_positive b lvl = (case lvl of
     None \<Rightarrow> Some True
   | Some l \<Rightarrow> do {
       ok \<leftarrow> orders_positive b (level_head l);
       if \<not> ok then Some False
       else do { l' \<leftarrow> level_after b l; levels_positive b l' }
     })"

fun sides_positive :: "OrderBook \<Rightarrow> Side list \<Rightarrow> bool option" where
  "sides_positive b [] = Some True"
| "sides_positive b (s # ss) = do {
     start \<leftarrow> (if s = Buy then best_bid b else best_ask b);
     ok \<leftarrow> levels_positive b start;
     if \<not> ok then Some False else sides_positive b ss
   }"

definition check_positive_quantity :: "OrderBook \<Rightarrow> bool option" where
  "check_positive_quantity b = sides_positive b [Buy, Sell]"

definition check_quantity_conservation :: "u64 \<Rightarrow> u64 \<Rightarrow> u64 \<Rightarrow> bool" where
  "check_quantity_conservation incoming_qty traded_qty rested_qty \<longleftrightarrow> incoming_qty = traded_qty + rested_qty"

definition find_state_violation :: "OrderBook \<Rightarrow> Invariant option" where
  "find_state_violation b = do {
     ok \<leftarrow> check_price_ordering b;
     if \<not> ok then Some PriceOrdering
     else do {
       ok \<leftarrow> check_positive_quantity b;
       if \<not> ok then Some PositiveQuantity else Some Inv_None
     }
   }"

record OpOutcome =
  oo_check_conservation :: bool
  oo_incoming_qty :: u64
  oo_traded_qty :: u64
  oo_rested_qty :: u64

definition no_conservation :: OpOutcome where
  "no_conservation = \<lparr>oo_check_conservation = False, oo_incoming_qty = 0, oo_traded_qty = 0, oo_rested_qty = 0\<rparr>"

definition conserving :: "u64 \<Rightarrow> u64 \<Rightarrow> u64 \<Rightarrow> OpOutcome" where
  "conserving incoming traded rested = \<lparr>oo_check_conservation = True, oo_incoming_qty = incoming,
     oo_traded_qty = traded, oo_rested_qty = rested\<rparr>"

record IntegrityGuard =
  ig_snapshot :: OrderBook

definition snapshot :: "OrderBook \<Rightarrow> IntegrityGuard \<Rightarrow> IntegrityGuard" where
  "snapshot b g = g\<lparr>ig_snapshot := b\<rparr>"

definition restore :: "IntegrityGuard \<Rightarrow> OrderBook \<Rightarrow> OrderBook" where
  "restore g b = ig_snapshot g"

definition evaluate :: "OrderBook \<Rightarrow> OpOutcome \<Rightarrow> Invariant option" where
  "evaluate b outcome = do {
     st \<leftarrow> find_state_violation b;
     if st \<noteq> Inv_None then Some st
     else if oo_check_conservation outcome
       \<and> \<not> check_quantity_conservation (oo_incoming_qty outcome) (oo_traded_qty outcome) (oo_rested_qty outcome)
     then Some QuantityConservation
     else Some Inv_None
   }"

definition commit ::
  "(OrderBook \<Rightarrow> 's \<Rightarrow> (OpOutcome \<times> OrderBook \<times> 's) option) \<Rightarrow> (IntegrityError \<Rightarrow> 's \<Rightarrow> 's)
     \<Rightarrow> IntegrityGuard \<Rightarrow> OrderBook \<Rightarrow> 's \<Rightarrow> (bool \<times> IntegrityGuard \<times> OrderBook \<times> 's) option" where
  "commit op emit_error g b st = do {
     g \<leftarrow> Some (snapshot b g);
     (outcome, b, st) \<leftarrow> op b st;
     violated \<leftarrow> evaluate b outcome;
     if violated \<noteq> Inv_None
     then Some (False, g, restore g b, emit_error \<lparr>ie_invariant = violated, ie_name = invariant_name violated\<rparr> st)
     else Some (True, g, b, st)
   }"

declare bids_descend.simps [code] asks_ascend.simps [code] orders_positive.simps [code] levels_positive.simps [code]

subsection \<open>The checks decide what they announce\<close>

text \<open>
  The checks walk along the next links only.  All they need of a book is that these links can be
  followed: \<open>walkable b sh\<close> says that they lead, in range and to the null index, through the levels
  and orders of \<open>sh\<close>.  Nothing is assumed of prices, quantities, backward links, counters or pools,
  so a book with its levels out of order is among the books considered.
\<close>

fun chain :: "(nat \<Rightarrow> nat) \<Rightarrow> nat \<Rightarrow> nat list \<Rightarrow> bool" where
  "chain next h [] \<longleftrightarrow> h = kNullNode"
| "chain next h (x # xs) \<longleftrightarrow> h = x \<and> x \<noteq> kNullNode \<and> chain next (next x) xs"

definition walkable :: "OrderBook \<Rightarrow> (Side \<Rightarrow> shape) \<Rightarrow> bool" where
  "walkable b sh \<longleftrightarrow> (\<forall>s. chain (field lv_next_level (slots (levels b))) (side_head s b) (map fst (sh s))
     \<and> (\<forall>(l, ns)\<in>set (sh s). l < length (slots (levels b))
          \<and> chain (field ro_next (slots (orders b))) (lv_head (slots (levels b) ! l)) ns \<and> (\<forall>n\<in>set ns. n < length (slots (orders b)))))"

definition level_prices :: "OrderBook \<Rightarrow> shape \<Rightarrow> u64 list" where
  "level_prices b ls = map (\<lambda>l. lv_price_ticks (slots (levels b) ! l)) (map fst ls)"

definition quantities :: "OrderBook \<Rightarrow> shape \<Rightarrow> u32 list" where
  "quantities b ls = map (\<lambda>n. ro_remaining_qty (slots (orders b) ! n)) (nodes_of ls)"

text \<open>The announced price ordering, for the prices of the two sides, best level first.\<close>

definition prices_ordered :: "u64 list \<Rightarrow> u64 list \<Rightarrow> bool" where
  "prices_ordered bids asks \<longleftrightarrow> sorted_wrt (>) bids \<and> sorted_wrt (<) asks \<and> (\<forall>p\<in>set bids. \<forall>q\<in>set asks. p < q)"

definition level_opt :: "OrderBook \<Rightarrow> NodeIndex list \<Rightarrow> PriceLevel option" where
  "level_opt b ls = (case ls of [] \<Rightarrow> None | l # _ \<Rightarrow> Some (slots (levels b) ! l))"

lemma level_opt_simps [simp]: "level_opt b [] = None" "level_opt b (l # ls) = Some (slots (levels b) ! l)"
  by (simp_all add: level_opt_def)

lemma head_level:
  assumes "chain N h ls" "\<forall>k\<in>set ls. k < length (slots (levels b))"
  shows "(if h = kNullNode then Some None else map_option Some (level_at b h)) = Some (level_opt b ls)"
  using assms by (cases ls) auto

lemma level_after_ok:
  assumes "chain (field lv_next_level (slots (levels b))) h (l # ls)" "\<forall>k\<in>set (l # ls). k < length (slots (levels b))"
  shows "level_after b (slots (levels b) ! l) = Some (level_opt b ls)"
  unfolding level_after_def using assms by (intro head_level [of "field lv_next_level (slots (levels b))"]) (simp_all add: field_def)

text \<open>Comparing each level with its predecessor is comparing it with all before it.\<close>

lemma bids_descend_exact:
  assumes "chain (field lv_next_level (slots (levels b))) h ls" "\<forall>k\<in>set ls. k < length (slots (levels b))"
  shows "bids_descend b prev (level_opt b ls)
    = Some (sorted_wrt (>) ((case prev of None \<Rightarrow> [] | Some x \<Rightarrow> [lv_price_ticks x]) @ map (\<lambda>l. lv_price_ticks (slots (levels b) ! l)) ls))"
  using assms
proof (induction ls arbitrary: h prev)
  case Nil
  then show ?case by (simp add: bids_descend.simps split: option.split)
next
  case (Cons l ls)
  from Cons.prems have "chain (field lv_next_level (slots (levels b))) (lv_next_level (slots (levels b) ! l)) ls"
    "\<forall>k\<in>set ls. k < length (slots (levels b))" by (simp_all add: field_def)
  from Cons.IH [OF this, of "Some (slots (levels b) ! l)"] level_after_ok [OF Cons.prems] show ?case
    by (subst bids_descend.simps) (auto simp: not_le split: option.split)
qed

lemma asks_ascend_exact:
  assumes "chain (field lv_next_level (slots (levels b))) h ls" "\<forall>k\<in>set ls. k < length (slots (levels b))"
  shows "asks_ascend b prev (level_opt b ls)
    = Some (sorted_wrt (<) ((case prev of None \<Rightarrow> [] | Some x \<Rightarrow> [lv_price_ticks x]) @ map (\<lambda>l. lv_price_ticks (slots (levels b) ! l)) ls))"
  using assms
proof (induction ls arbitrary: h prev)
  case Nil
  then show ?case by (simp add: asks_ascend.simps split: option.split)
next
  case (Cons l ls)
  from Cons.prems have "chain (field lv_next_level (slots (levels b))) (lv_next_level (slots (levels b) ! l)) ls"
    "\<forall>k\<in>set ls. k < length (slots (levels b))" by (simp_all add: field_def)
  from Cons.IH [OF this, of "Some (slots (levels b) ! l)"] level_after_ok [OF Cons.prems] show ?case
    by (subst asks_ascend.simps) (auto simp: not_le split: option.split)
qed

lemma orders_positive_exact:
  assumes "chain (field ro_next (slots (orders b))) h ns" "\<forall>n\<in>set ns. n < length (slots (orders b))"
  shows "orders_positive b h = Some (\<forall>n\<in>set ns. ro_remaining_qty (slots (orders b) ! n) \<noteq> 0)"
  using assms
proof (induction ns arbitrary: h)
  case Nil
  then show ?case by (simp add: orders_positive.simps)
next
  case (Cons n ns)
  then show ?case by (subst orders_positive.simps) (auto simp: field_def)
qed

lemma levels_positive_exact:
  assumes "chain (field lv_next_level (slots (levels b))) h (map fst ls)"
    and "\<forall>(l, ns)\<in>set ls. l < length (slots (levels b))
      \<and> chain (field ro_next (slots (orders b))) (lv_head (slots (levels b) ! l)) ns \<and> (\<forall>n\<in>set ns. n < length (slots (orders b)))"
  shows "levels_positive b (level_opt b (map fst ls)) = Some (0 \<notin> set (quantities b ls))"
  using assms
proof (induction ls arbitrary: h)
  case Nil
  then show ?case by (simp add: levels_positive.simps quantities_def)
next
  case (Cons x ls)
  obtain l ns where x: "x = (l, ns)" by (cases x)
  have "\<forall>k\<in>set (l # map fst ls). k < length (slots (levels b))" using Cons.prems(2) x by auto
  note A = level_after_ok [OF Cons.prems(1) [unfolded x list.map fst_conv] this]
  have o: "orders_positive b (level_head (slots (levels b) ! l)) = Some (\<forall>n\<in>set ns. ro_remaining_qty (slots (orders b) ! n) \<noteq> 0)"
    unfolding level_head_def using Cons.prems(2) unfolding x list.set ball_simps prod.case by (intro orders_positive_exact) blast+
  have "levels_positive b (level_opt b (map fst ls)) = Some (0 \<notin> set (quantities b ls))"
    by (rule Cons.IH [of "field lv_next_level (slots (levels b)) l"]) (use Cons.prems x in auto)
  with o A x show ?case by (subst levels_positive.simps) (auto simp: quantities_def)
qed

lemma walkable_side:
  assumes "walkable b sh"
  shows "chain (field lv_next_level (slots (levels b))) (side_head s b) (map fst (sh s))"
    "\<forall>(l, ns)\<in>set (sh s). l < length (slots (levels b))
      \<and> chain (field ro_next (slots (orders b))) (lv_head (slots (levels b) ! l)) ns \<and> (\<forall>n\<in>set ns. n < length (slots (orders b)))"
    "\<forall>k\<in>set (map fst (sh s)). k < length (slots (levels b))"
proof -
  from assms show "chain (field lv_next_level (slots (levels b))) (side_head s b) (map fst (sh s))"
    and r: "\<forall>(l, ns)\<in>set (sh s). l < length (slots (levels b))
      \<and> chain (field ro_next (slots (orders b))) (lv_head (slots (levels b) ! l)) ns \<and> (\<forall>n\<in>set ns. n < length (slots (orders b)))"
    unfolding walkable_def by blast+
  from r show "\<forall>k\<in>set (map fst (sh s)). k < length (slots (levels b))" by fastforce
qed

lemma walk_starts:
  assumes "walkable b sh"
  shows "best_bid b = Some (level_opt b (map fst (sh Buy)))" "best_ask b = Some (level_opt b (map fst (sh Sell)))"
proof -
  have "best_level s b = Some (level_opt b (map fst (sh s)))" for s
    unfolding best_level_head by (rule head_level [OF walkable_side(1,3) [OF assms]])
  from this [of Buy] this [of Sell] show "best_bid b = Some (level_opt b (map fst (sh Buy)))" "best_ask b = Some (level_opt b (map fst (sh Sell)))"
    by (simp_all add: best_level_def)
qed

lemma heads_ordered:
  assumes "sorted_wrt (>) (p # ps)" "sorted_wrt (<) (q # qs)"
  shows "(\<forall>x\<in>set (p # ps). \<forall>y\<in>set (q # qs). x < y) \<longleftrightarrow> p < (q :: 'a :: linorder)"
  using assms by fastforce

lemma price_check_exact:
  assumes "walkable b sh"
  shows "check_price_ordering b = Some (prices_ordered (level_prices b (sh Buy)) (level_prices b (sh Sell)))"
proof -
  note r = walkable_side(1,3) [OF assms]
  have bids: "bids_descend b None (level_opt b (map fst (sh Buy))) = Some (sorted_wrt (>) (level_prices b (sh Buy)))"
    using bids_descend_exact [OF r, of None Buy] by (simp add: level_prices_def)
  have asks: "asks_ascend b None (level_opt b (map fst (sh Sell))) = Some (sorted_wrt (<) (level_prices b (sh Sell)))"
    using asks_ascend_exact [OF r, of None Sell] by (simp add: level_prices_def)
  show ?thesis
  proof (cases "sh Buy = [] \<or> sh Sell = []")
    case True
    then show ?thesis unfolding check_price_ordering_def walk_starts [OF assms] bind.bind_lunit bids asks
      by (auto simp: prices_ordered_def level_prices_def split: option.splits)
  next
    case False
    then obtain x xs y ys where xy: "sh Buy = x # xs" "sh Sell = y # ys" by (meson neq_Nil_conv)
    have "prices_ordered (level_prices b (sh Buy)) (level_prices b (sh Sell)) \<longleftrightarrow>
        sorted_wrt (>) (level_prices b (sh Buy)) \<and> sorted_wrt (<) (level_prices b (sh Sell))
        \<and> lv_price_ticks (slots (levels b) ! fst x) < lv_price_ticks (slots (levels b) ! fst y)"
      unfolding prices_ordered_def xy level_prices_def list.map using heads_ordered by blast
    with xy bids asks show ?thesis unfolding check_price_ordering_def walk_starts [OF assms] bind.bind_lunit bids asks
      by (auto simp: not_le)
  qed
qed

lemma quantity_check_exact:
  assumes "walkable b sh"
  shows "check_positive_quantity b = Some (\<forall>s. 0 \<notin> set (quantities b (sh s)))"
proof -
  have "levels_positive b (level_opt b (map fst (sh s))) = Some (0 \<notin> set (quantities b (sh s)))" for s
    by (rule levels_positive_exact [OF walkable_side(1,2) [OF assms]])
  moreover have "(\<forall>s. Q s) \<longleftrightarrow> Q Buy \<and> Q Sell" for Q by (metis Side.exhaust)
  ultimately show ?thesis by (simp add: check_positive_quantity_def walk_starts [OF assms])
qed

text \<open>The first announced invariant that fails.\<close>

definition announced_violation :: "OrderBook \<Rightarrow> (Side \<Rightarrow> shape) \<Rightarrow> OpOutcome \<Rightarrow> Invariant" where
  "announced_violation b sh outcome =
     (if \<not> prices_ordered (level_prices b (sh Buy)) (level_prices b (sh Sell)) then PriceOrdering
      else if 0 \<in> set (quantities b (sh Buy)) \<union> set (quantities b (sh Sell)) then PositiveQuantity
      else if oo_check_conservation outcome \<and> oo_incoming_qty outcome \<noteq> oo_traded_qty outcome + oo_rested_qty outcome
      then QuantityConservation else Inv_None)"

lemma evaluate_exact:
  assumes "walkable b sh"
  shows "evaluate b outcome = Some (announced_violation b sh outcome)"
proof -
  have "(\<forall>s. Q s) \<longleftrightarrow> Q Buy \<and> Q Sell" for Q by (metis Side.exhaust)
  then show ?thesis
    by (simp add: evaluate_def find_state_violation_def price_check_exact [OF assms] quantity_check_exact [OF assms]
        check_quantity_conservation_def announced_violation_def)
qed

subsection \<open>The checks on a well-formed book\<close>

lemma dseg_chain:
  "dseg N P p h xs t kNullNode \<Longrightarrow> \<forall>x\<in>set xs. x \<noteq> kNullNode \<Longrightarrow> chain N h xs"
  by (induction xs arbitrary: p h) auto

lemma book_ok_walkable:
  assumes ok: "book_ok b sh"
  shows "walkable b sh"
proof -
  have "book_pools b (set (shape_nodes sh)) (set (shape_levels sh))" using ok by (simp add: book_ok_def)
  note rng = book_ranges [OF this]
  have "chain (field lv_next_level (slots (levels b))) (side_head s b) (map fst (sh s))" for s
    using book_ok_side [OF ok, of s] rng(2) [of s] unfolding side_ok_def by (blast intro: dseg_chain)
  moreover have "l < length (slots (levels b)) \<and> chain (field ro_next (slots (orders b))) (lv_head (slots (levels b) ! l)) ns
      \<and> (\<forall>n\<in>set ns. n < length (slots (orders b)))" if "(l, ns) \<in> set (sh s)" for s l ns
  proof -
    have "level_ok (slots (orders b)) (slots (levels b) ! l) s ns" using book_ok_side [OF ok, of s] that by (auto simp: side_ok_def)
    moreover have "l < length (slots (levels b))" "\<forall>n\<in>set ns. n < length (slots (orders b)) \<and> n \<noteq> kNullNode"
      using rng [of s] that by force+
    ultimately show ?thesis unfolding level_ok_def by (blast intro: dseg_chain)
  qed
  ultimately show ?thesis unfolding walkable_def by blast
qed

lemma book_ok_prices:
  assumes ok: "book_ok b sh"
  shows "sorted_wrt (>) (level_prices b (sh Buy))" "sorted_wrt (<) (level_prices b (sh Sell))"
    "set (level_prices b (sh s)) = ao_price ` set (abs_book b sh s)"
proof -
  have "sorted_wrt (\<lambda>l k. price_ranks_first s (lv_price_ticks (slots (levels b) ! l)) (lv_price_ticks (slots (levels b) ! k))) (map fst (sh s))" for s
    using book_ok_side [OF ok, of s] by (simp add: side_ok_def)
  from this [of Buy] this [of Sell] show "sorted_wrt (>) (level_prices b (sh Buy))" "sorted_wrt (<) (level_prices b (sh Sell))"
    by (simp_all add: level_prices_def price_ranks_first_def sorted_wrt_map)
  let ?L = "\<lambda>l. lv_price_ticks (slots (levels b) ! l)" and ?O = "\<lambda>n. ro_price_ticks (slots (orders b) ! n)"
  have "{?L l} = ?O ` set ns" if "(l, ns) \<in> set (sh s)" for l ns
  proof -
    have "level_ok (slots (orders b)) (slots (levels b) ! l) s ns" using book_ok_side [OF ok, of s] that unfolding side_ok_def by blast
    moreover have "ns \<noteq> []" using ok that unfolding book_ok_def no_empty_level_def by blast
    ultimately show ?thesis by (cases ns) (auto simp: level_ok_def)
  qed
  then have "(\<Union>x\<in>set (sh s). {?L (fst x)}) = (\<Union>x\<in>set (sh s). ?O ` set (snd x))" by (intro SUP_cong) auto
  moreover have "set (level_prices b (sh s)) = (\<Union>x\<in>set (sh s). {?L (fst x)})" by (auto simp: level_prices_def)
  ultimately show "set (level_prices b (sh s)) = ao_price ` set (abs_book b sh s)"
    by (simp add: abs_book_def abs_side_def abs_order_def image_image image_UN)
qed

lemma check_price_ordering_ok:
  assumes "book_rel b A"
  shows "check_price_ordering b = Some (uncrossed A)"
proof -
  from assms obtain sh where ok: "book_ok b sh" and A: "A = abs_book b sh" by (auto simp: book_rel_def)
  show ?thesis unfolding price_check_exact [OF book_ok_walkable [OF ok]] prices_ordered_def book_ok_prices(3) [OF ok] A uncrossed_def
    using book_ok_prices(1,2) [OF ok] by auto
qed

lemma check_positive_quantity_ok:
  assumes "book_rel b A"
  shows "check_positive_quantity b = Some (\<forall>s. \<forall>x\<in>set (A s). ao_qty x \<noteq> 0)"
proof -
  from assms obtain sh where ok: "book_ok b sh" and A: "A = abs_book b sh" by (auto simp: book_rel_def)
  have "0 \<notin> set (quantities b (sh s)) \<longleftrightarrow> (\<forall>x\<in>set (A s). ao_qty x \<noteq> 0)" for s
    by (auto simp: A quantities_def abs_book_def abs_side_def abs_order_def)
  then show ?thesis unfolding quantity_check_exact [OF book_ok_walkable [OF ok]] by simp
qed

text \<open>What the guard accepts, over the abstract book.\<close>

definition first_violation :: "ABook \<Rightarrow> OpOutcome \<Rightarrow> Invariant" where
  "first_violation A outcome =
     (if \<not> uncrossed A then PriceOrdering
      else if \<exists>s. \<exists>x\<in>set (A s). ao_qty x = 0 then PositiveQuantity
      else if oo_check_conservation outcome \<and> oo_incoming_qty outcome \<noteq> oo_traded_qty outcome + oo_rested_qty outcome
      then QuantityConservation else Inv_None)"

lemma evaluate_ok:
  assumes "book_rel b A"
  shows "evaluate b outcome = Some (first_violation A outcome)"
proof -
  have "find_state_violation b = Some (if \<not> uncrossed A then PriceOrdering
      else if \<exists>s. \<exists>x\<in>set (A s). ao_qty x = 0 then PositiveQuantity else Inv_None)"
    by (auto simp: find_state_violation_def check_price_ordering_ok [OF assms] check_positive_quantity_ok [OF assms])
  then show ?thesis by (auto simp: evaluate_def first_violation_def check_quantity_conservation_def)
qed

text \<open>
  C30. The run-time checks decide exactly what they announce, on every book whose links can be
  followed, in order or not: the price check accepts iff the bid levels descend strictly, the ask
  levels ascend strictly and every bid is below every ask; the quantity check accepts iff no linked
  order is empty; \<open>find_state_violation\<close> and \<open>evaluate\<close> report the first invariant that fails, in the
  order price, quantity, conservation.
\<close>

theorem integrity_checks_exact:
  assumes "walkable b sh"
  shows "check_price_ordering b = Some (prices_ordered (level_prices b (sh Buy)) (level_prices b (sh Sell)))
    \<and> check_positive_quantity b = Some (\<forall>s. 0 \<notin> set (quantities b (sh s)))
    \<and> find_state_violation b = Some (announced_violation b sh no_conservation)
    \<and> evaluate b outcome = Some (announced_violation b sh outcome)"
proof -
  have "evaluate b no_conservation = find_state_violation b"
    by (cases "find_state_violation b") (simp_all add: evaluate_def no_conservation_def)
  with price_check_exact [OF assms] quantity_check_exact [OF assms] evaluate_exact [OF assms] show ?thesis by simp
qed

text \<open>A book whose two bid levels were linked the wrong way round: 100 in front of 105.\<close>

definition misplaced_book :: OrderBook where
  "misplaced_book =
     \<lparr>orders = \<lparr>slots = [\<lparr>ro_order_id = 1, ro_seq = 1, ro_price_ticks = 100, ro_remaining_qty = 5, ro_side = Buy, ro_next = kNullNode, ro_prev = kNullNode\<rparr>,
                       \<lparr>ro_order_id = 2, ro_seq = 2, ro_price_ticks = 105, ro_remaining_qty = 5, ro_side = Buy, ro_next = kNullNode, ro_prev = kNullNode\<rparr>],
                next_free = [kNullNode, kNullNode], free_head = kNullNode, in_use = 2\<rparr>,
      levels = \<lparr>slots = [\<lparr>lv_price_ticks = 100, lv_order_count = 1, lv_head = 0, lv_tail = 0, lv_next_level = 1, lv_prev_level = kNullNode\<rparr>,
                       \<lparr>lv_price_ticks = 105, lv_order_count = 1, lv_head = 1, lv_tail = 1, lv_next_level = kNullNode, lv_prev_level = 0\<rparr>],
                next_free = [kNullNode, kNullNode], free_head = kNullNode, in_use = 2\<rparr>,
      bid_head = 0, ask_head = kNullNode\<rparr>"

theorem integrity_checks_exact_witness:
  "check_price_ordering misplaced_book = Some False \<and> check_positive_quantity misplaced_book = Some True
   \<and> evaluate misplaced_book (conserving 5 3 1) = Some PriceOrdering"
proof -
  let ?sh = "\<lambda>s. if s = Buy then [(0, [0]), (1, [1])] else [] :: shape"
  have "walkable misplaced_book ?sh"
    by (simp add: walkable_def misplaced_book_def side_head_def field_def kNullNode_def)
  note W = integrity_checks_exact [OF this, of "conserving 5 3 1"]
  have "level_prices misplaced_book (?sh Buy) = [100, 105]" "quantities misplaced_book (?sh s) = (if s = Buy then [5, 5] else [])" for s
    by (simp_all add: level_prices_def quantities_def misplaced_book_def)
  with W show ?thesis by (simp add: prices_ordered_def announced_violation_def)
qed



text \<open>
  C31. The matching engine needs no rollback: in every state it can reach, both run-time checks of
  the book pass.
\<close>

theorem reachable_book_passes_checks:
  assumes "engine_reach n m e" "0 < n" "n \<le> kNullNode" "0 < m" "m \<le> kNullNode"
  shows "find_state_violation (me_book e) = Some Inv_None"
proof -
  from engine_reach_good [OF assms] obtain a where "good_state (n, m) e a" by blast
  then have a: "book_rel (me_book e) (ae_book a)" "book_inv (ae_book a)" by (simp_all add: good_state_def engine_rel_def)
  have "ao_qty x \<noteq> 0" if "x \<in> set (ae_book a s)" for s x
    using a(2) that by (fastforce simp: book_inv_def order_valid_def kMinEngineQuantity_def)
  with a show ?thesis
    by (simp add: find_state_violation_def check_price_ordering_ok check_positive_quantity_ok book_inv_def)
qed

theorem reachable_book_passes_checks_witness:
  "\<exists>r e evs. submit_into (demo_order 1 Buy 100 5 1) (engine_new 2 2) = Some (r, e, evs) \<and> find_state_violation (me_book e) = Some Inv_None"
proof -
  have rel: "good_state (2, 2) (engine_new 2 2) \<lparr>ae_book = (\<lambda>_. []), ae_seq = 1, ae_hist = []\<rparr>"
    using engine_new_rel [of 2 2] empty_inv by (simp add: good_state_def kNullNode_def)
  from submit_good [OF rel, of "demo_order 1 Buy 100 5 1"] obtain r e evs where
    e: "submit_into (demo_order 1 Buy 100 5 1) (engine_new 2 2) = Some (r, e, evs)" by blast
  have "engine_reach 2 2 e" using engine_reach.new_order [OF engine_reach.start e] .
  from reachable_book_passes_checks [OF this] e show ?thesis by (simp add: kNullNode_def)
qed

end
