(* ===== verification/Trace_Refinement.thy ===== *)
theory Trace_Refinement
  imports HME_Prelude
begin

text \<open>
  Refinement of whole traces.  A component is driven by a sequence of events; each event may fail
  (\<open>None\<close>) and yields observations.  The specification is a total function on abstract states, with a
  condition under which the environment may issue an event.  The locale \<open>forward_simulation\<close> states what
  one step of the component promises; its lemma carries the promise to traces of any length.
\<close>

fun run_trace :: "('e \<Rightarrow> 'c \<Rightarrow> ('o list \<times> 'c) option) \<Rightarrow> 'e list \<Rightarrow> 'c \<Rightarrow> ('o list \<times> 'c) option" where
  "run_trace step [] c = Some ([], c)"
| "run_trace step (e # es) c = do { (os, c) \<leftarrow> step e c; (ps, c) \<leftarrow> run_trace step es c; Some (os @ ps, c) }"

fun spec_trace :: "('e \<Rightarrow> 'a \<Rightarrow> 'o list \<times> 'a) \<Rightarrow> 'e list \<Rightarrow> 'a \<Rightarrow> 'o list \<times> 'a" where
  "spec_trace step [] a = ([], a)"
| "spec_trace step (e # es) a =
     (fst (step e a) @ fst (spec_trace step es (snd (step e a))), snd (spec_trace step es (snd (step e a))))"

fun may_trace :: "('e \<Rightarrow> 'a \<Rightarrow> bool) \<Rightarrow> ('e \<Rightarrow> 'a \<Rightarrow> 'o list \<times> 'a) \<Rightarrow> 'e list \<Rightarrow> 'a \<Rightarrow> bool" where
  "may_trace may step [] a \<longleftrightarrow> True"
| "may_trace may step (e # es) a \<longleftrightarrow> may e a \<and> may_trace may step es (snd (step e a))"

lemma may_always: "may_trace (\<lambda>_ _. True) step es a"
  by (induction es arbitrary: a) simp_all

lemma spec_trace_append:
  "spec_trace step (es @ fs) a = (fst (spec_trace step es a) @ fst (spec_trace step fs (snd (spec_trace step es a))),
     snd (spec_trace step fs (snd (spec_trace step es a))))"
  by (induction es arbitrary: a) simp_all

lemma may_trace_append:
  "may_trace may step (es @ fs) a \<longleftrightarrow> may_trace may step es a \<and> may_trace may step fs (snd (spec_trace step es a))"
  by (induction es arbitrary: a) simp_all

locale forward_simulation =
  fixes rel :: "'c \<Rightarrow> 'a \<Rightarrow> bool"
    and cstep :: "'e \<Rightarrow> 'c \<Rightarrow> ('o list \<times> 'c) option"
    and may :: "'e \<Rightarrow> 'a \<Rightarrow> bool"
    and astep :: "'e \<Rightarrow> 'a \<Rightarrow> 'o list \<times> 'a"
  assumes simulates: "rel c a \<Longrightarrow> may e a \<Longrightarrow> \<exists>c'. cstep e c = Some (fst (astep e a), c') \<and> rel c' (snd (astep e a))"
begin

lemma simulates_trace:
  assumes "rel c a" "may_trace may astep es a"
  shows "\<exists>c'. run_trace cstep es c = Some (fst (spec_trace astep es a), c') \<and> rel c' (snd (spec_trace astep es a))"
  using assms
proof (induction es arbitrary: c a)
  case (Cons e es)
  from simulates [of c a e] Cons.prems obtain c1 where
    c1: "cstep e c = Some (fst (astep e a), c1)" "rel c1 (snd (astep e a))" by auto
  from Cons.IH [OF c1(2)] Cons.prems(2) c1(1) show ?case by auto
qed auto

text \<open>What every abstract step keeps, every trace of the component keeps.\<close>

lemma trace_invariant:
  assumes "rel c a" "may_trace may astep es a" "I a" "\<And>e a. may e a \<Longrightarrow> I a \<Longrightarrow> I (snd (astep e a))"
    and "run_trace cstep es c = Some (os, c')"
  shows "\<exists>a'. rel c' a' \<and> I a'"
proof -
  have "I (snd (spec_trace astep es a))" using assms(2,3)
  proof (induction es arbitrary: a)
    case (Cons e es)
    from Cons.prems assms(4) [of e a] Cons.IH [of "snd (astep e a)"] show ?case by simp
  qed simp
  with simulates_trace [OF assms(1,2)] assms(5) show ?thesis by auto
qed

end

end
