(* ===== verification/Container_Traces.thy ===== *)
theory Container_Traces
  imports Matching_Engine Trace_Refinement
begin

text \<open>
  The two containers of the matching engine under any sequence of calls: the order book against two
  priority lists, and the retired-id set against a bounded first-in-first-out history.
\<close>

subsection \<open>The order book\<close>

datatype BookEvent = Insert u64 Side u64 u64 u32 | Remove u64 | Front Side | Fill Side u32 | Count | Clear

datatype BookReply = Inserted bool | Removed bool | FrontIs "AOrder option" | Filled "(u64 \<times> u32) option" | Counted u64 u64 bool

text \<open>
  \<open>Remove\<close> is a cancellation, \<open>find_order\<close> followed by \<open>remove_order\<close>; \<open>Fill\<close> is what the matching loop
  does with the first order of a side.
\<close>

definition book_fill :: "Side \<Rightarrow> u32 \<Rightarrow> OrderBook \<Rightarrow> ((u64 \<times> u32) option \<times> OrderBook) option" where
  "book_fill s q b = do {
     best \<leftarrow> best_level s b;
     (case best of
        None \<Rightarrow> Some (None, b)
      | Some lv \<Rightarrow> do {
          resting \<leftarrow> order_at b (level_head lv);
          let t = min q (ro_remaining_qty resting);
          b \<leftarrow> modify_order (level_head lv) (\<lambda>r. r\<lparr>ro_remaining_qty := ro_remaining_qty r - t\<rparr>) b;
          b \<leftarrow> (if ro_remaining_qty resting - t = 0 then remove_order (level_head lv) b else Some b);
          Some (Some (ro_order_id resting, t), b)
        })
   }"

definition book_step :: "BookEvent \<Rightarrow> OrderBook \<Rightarrow> (BookReply list \<times> OrderBook) option" where
  "book_step ev b =
     (case ev of
        Insert i s p t q \<Rightarrow> do { (ok, b) \<leftarrow> insert_order i s p t q b; Some ([Inserted ok], b) }
      | Remove i \<Rightarrow> do {
          node \<leftarrow> find_order b i;
          if node = kNullNode then Some ([Removed False], b)
          else do { b \<leftarrow> remove_order node b; Some ([Removed True], b) }
        }
      | Front s \<Rightarrow> do { r \<leftarrow> front_order s b; Some ([FrontIs (map_option abs_order r)], b) }
      | Fill s q \<Rightarrow> do { (f, b) \<leftarrow> book_fill s q b; Some ([Filled f], b) }
      | Count \<Rightarrow> Some ([Counted (order_count b) (level_count b) (book_empty b)], b)
      | Clear \<Rightarrow> Some ([], book_clear b))"

definition a_fill :: "u32 \<Rightarrow> AOrder list \<Rightarrow> (u64 \<times> u32) option \<times> AOrder list" where
  "a_fill q xs =
     (case xs of [] \<Rightarrow> (None, [])
      | x # xs \<Rightarrow> (Some (ao_id x, min q (ao_qty x)), if ao_qty x \<le> q then xs else x\<lparr>ao_qty := ao_qty x - q\<rparr> # xs))"

definition lists_step :: "nat \<times> nat \<Rightarrow> BookEvent \<Rightarrow> ABook \<Rightarrow> BookReply list \<times> ABook" where
  "lists_step cp ev A =
     (case ev of
        Insert i s p t q \<Rightarrow>
          if a_has_room cp s p A
          then ([Inserted True], A(s := a_insert s \<lparr>ao_id = i, ao_seq = t, ao_price = p, ao_qty = q\<rparr> (A s)))
          else ([Inserted False], A)
      | Remove i \<Rightarrow>
          if i \<in> a_ids (A Buy) \<union> a_ids (A Sell) then ([Removed True], a_cancel i A) else ([Removed False], A)
      | Front s \<Rightarrow> ([FrontIs (case A s of [] \<Rightarrow> None | x # xs \<Rightarrow> Some x)], A)
      | Fill s q \<Rightarrow> ([Filled (fst (a_fill q (A s)))], A(s := snd (a_fill q (A s))))
      | Count \<Rightarrow> ([Counted (of_nat (a_order_count A)) (of_nat (a_level_count A)) (A Buy = [] \<and> A Sell = [])], A)
      | Clear \<Rightarrow> ([], \<lambda>_. []))"

definition book_sim :: "nat \<times> nat \<Rightarrow> OrderBook \<Rightarrow> ABook \<Rightarrow> bool" where
  "book_sim cp b A \<longleftrightarrow> book_rel b A \<and> caps b = cp"

lemma front_order_ok:
  assumes "book_rel b A"
  shows "\<exists>r. front_order s b = Some r \<and> map_option abs_order r = (case A s of [] \<Rightarrow> None | x # xs \<Rightarrow> Some x)"
proof (cases "A s")
  case Nil
  with book.best_none [OF assms] have "best_level s b = Some None" by simp
  then have "front_order s b = Some None" by (auto simp: best_level_head front_order_def split: if_splits)
  with Nil show ?thesis by simp
next
  case (Cons x xs)
  from assms obtain sh where sh: "book_ok b sh" "A = abs_book b sh" by (auto simp: book_rel_def)
  from front_shape [OF sh(1)] Cons sh(2) obtain l n ns B where
    f: "best_level s b = Some (Some (slots (levels b) ! l))" "level_head (slots (levels b) ! l) = n" "n < length (slots (orders b))"
      "abs_order (slots (orders b) ! n) = x" by metis
  have "pool_capacity (orders b) \<le> kNullNode" using book_rel_caps [OF assms] by simp
  with f(3) have "n \<noteq> kNullNode" by (simp add: pool_capacity_def)
  with f have "front_order s b = Some (Some (slots (orders b) ! n))"
    by (auto simp: best_level_head front_order_def level_head_def order_at_def pool_get_def split: if_splits)
  with f(4) Cons show ?thesis by simp
qed

lemma fill_ok:
  assumes "book_sim cp b A"
  shows "\<exists>b'. book_fill s q b = Some (fst (a_fill q (A s)), b') \<and> book_sim cp b' (A(s := snd (a_fill q (A s))))"
proof (cases "A s")
  case Nil
  from book.best_none [of b A s] assms Nil have "best_level s b = Some None" by (simp add: book_sim_def)
  moreover have "A(s := []) = A" using Nil by auto
  ultimately show ?thesis using assms Nil by (simp add: book_fill_def a_fill_def)
next
  case (Cons x xs)
  from assms have rel: "book_rel b A" "caps b = cp" by (auto simp: book_sim_def)
  from book.best_front [OF rel(1) Cons] obtain lv r where
    lv: "best_level s b = Some (Some lv)" "order_at b (level_head lv) = Some r" "abs_order r = x" by blast
  have r: "ro_remaining_qty r = ao_qty x" "ro_order_id r = ao_id x" using lv(3) by (auto simp: abs_order_def)
  let ?t = "min q (ao_qty x)"
  have mc: "modify_order (level_head lv) (\<lambda>r. r\<lparr>ro_remaining_qty := ro_remaining_qty r - ?t\<rparr>) b
      = modify_order (level_head lv) (set_qty (ao_qty x - ?t)) b"
    by (rule modify_order_cong [OF lv(2)]) (simp only: set_qty_def r(1))
  from book.fill_front [OF rel(1) Cons lv(1), of "ao_qty x - ?t"] obtain b1 b2 where
    b2: "modify_order (level_head lv) (set_qty (ao_qty x - ?t)) b = Some b1"
      "(if ao_qty x - ?t = 0 then remove_order (level_head lv) b1 else Some b1) = Some b2"
      "book_rel b2 (A(s := (if ao_qty x - ?t = 0 then xs else x\<lparr>ao_qty := ao_qty x - ?t\<rparr> # xs)))" "caps b2 = caps b" by blast
  have z: "ao_qty x - ?t = 0 \<longleftrightarrow> ao_qty x \<le> q" "\<not> ao_qty x \<le> q \<Longrightarrow> ?t = q" by (auto simp: min_def)
  have "book_fill s q b = Some (Some (ao_id x, ?t), b2)" using lv mc b2(1,2) r by (simp add: book_fill_def Let_def)
  moreover have "snd (a_fill q (A s)) = (if ao_qty x - ?t = 0 then xs else x\<lparr>ao_qty := ao_qty x - ?t\<rparr> # xs)"
    using Cons z by (simp add: a_fill_def)
  ultimately show ?thesis using b2(3,4) rel(2) Cons by (simp add: book_sim_def a_fill_def)
qed

lemma counts_ok:
  assumes "book_rel b A"
  shows "order_count b = of_nat (a_order_count A)" "level_count b = of_nat (a_level_count A)" "book_empty b \<longleftrightarrow> A Buy = [] \<and> A Sell = []"
proof -
  from assms obtain sh where sh: "book_ok b sh" "A = abs_book b sh" by (auto simp: book_rel_def)
  then have p: "in_use (orders b) = of_nat (a_order_count A)" "in_use (levels b) = of_nat (a_level_count A)"
    using book_counts [OF sh(1)] by (simp_all add: book_ok_def book_pools_def pool_ok_def)
  then show "order_count b = of_nat (a_order_count A)" "level_count b = of_nat (a_level_count A)"
    by (simp_all add: order_count_def level_count_def pool_size_def)
  have "a_order_count A < 2 ^ LENGTH(64)"
    using book_counts(3) [OF sh(1)] book_rel_caps [OF assms] sh(2) by (simp add: caps_def kNullNode_def)
  then have "(of_nat (a_order_count A) :: u64) = 0 \<longleftrightarrow> a_order_count A = 0"
    by (auto simp: word_of_nat_eq_0_iff dest: dvd_imp_le)
  with p(1) show "book_empty b \<longleftrightarrow> A Buy = [] \<and> A Sell = []" by (simp add: book_empty_def pool_empty_def a_order_count_def)
qed

interpretation obook: forward_simulation "book_sim cp" book_step "\<lambda>_ _. True" "lists_step cp" for cp
proof
  fix b A e
  assume sim: "book_sim cp b A"
  then have rel: "book_rel b A" "caps b = cp" by (auto simp: book_sim_def)
  show "\<exists>b'. book_step e b = Some (fst (lists_step cp e A), b') \<and> book_sim cp b' (snd (lists_step cp e A))"
  proof (cases e)
    case (Insert i s p t q)
    from book.insert_total [OF rel(1), of i s p t q] rel(2) Insert show ?thesis
      by (auto simp: book_step_def lists_step_def book_sim_def)
  next
    case (Remove i)
    from book.lookup_none [OF rel(1), of i] book.lookup_some [OF rel(1), of i] rel Remove show ?thesis
      by (cases "i \<in> a_ids (A Buy) \<union> a_ids (A Sell)") (fastforce simp: book_step_def lists_step_def book_sim_def)+
  next
    case (Front s)
    from front_order_ok [OF rel(1), of s] sim Front show ?thesis by (auto simp: book_step_def lists_step_def)
  next
    case (Fill s q)
    from fill_ok [OF sim, of s q] Fill show ?thesis by (auto simp: book_step_def lists_step_def)
  next
    case Count
    with counts_ok [OF rel(1)] sim show ?thesis by (simp add: book_step_def lists_step_def)
  next
    case Clear
    from book_cleared [of b] book_rel_caps [OF rel(1)] rel(2) Clear show ?thesis by (simp add: book_step_def lists_step_def book_sim_def)
  qed
qed

lemma book_new_sim:
  assumes "0 < n" "n \<le> kNullNode" "0 < m" "m \<le> kNullNode"
  shows "book_sim (n, m) (book_new n m) (\<lambda>_. [])"
  using engine_new_rel [OF assms] by (simp add: book_sim_def engine_rel_def engine_new_def)

text \<open>
  C15. The order book is well-formed and behaves as two sorted lists under any sequence of operations:
  from an empty book, every insertion, cancellation by identifier, look at the front, fill of the
  front, count and reset returns (no link or handle ever leaves its pool, no list is cyclic), answers
  as the two priority lists do, refusing an insertion exactly when a pool is exhausted, and leaves a
  book whose pools, levels and links represent those lists, sorted by price and arrival.
\<close>

theorem order_book_refines_lists:
  assumes "0 < n" "n \<le> kNullNode" "0 < m" "m \<le> kNullNode"
  shows "\<exists>b'. run_trace book_step evs (book_new n m) = Some (fst (spec_trace (lists_step (n, m)) evs (\<lambda>_. [])), b')
    \<and> book_rel b' (snd (spec_trace (lists_step (n, m)) evs (\<lambda>_. []))) \<and> caps b' = (n, m)
    \<and> (\<forall>s. priority_sorted s (snd (spec_trace (lists_step (n, m)) evs (\<lambda>_. [])) s))"
proof -
  from obook.simulates_trace [OF book_new_sim [OF assms] may_always, of evs] obtain b' where
    "run_trace book_step evs (book_new n m) = Some (fst (spec_trace (lists_step (n, m)) evs (\<lambda>_. [])), b')"
    "book_sim (n, m) b' (snd (spec_trace (lists_step (n, m)) evs (\<lambda>_. [])))" by blast
  with book.sorted show ?thesis by (auto simp: book_sim_def)
qed

text \<open>Two asks and a bid in a book of two price levels: the third price finds the level pool exhausted.\<close>

theorem order_book_refines_lists_witness:
  "\<exists>b'. run_trace book_step [Insert 1 Sell 105 1 4, Insert 2 Sell 101 2 6, Insert 3 Buy 99 3 5, Front Sell, Fill Sell 6, Remove 1, Count] (book_new 4 2)
    = Some ([Inserted True, Inserted True, Inserted False, FrontIs (Some \<lparr>ao_id = 2, ao_seq = 2, ao_price = 101, ao_qty = 6\<rparr>),
        Filled (Some (2, 6)), Removed True, Counted 0 0 True], b')"
proof -
  let ?evs = "[Insert 1 Sell 105 1 4, Insert 2 Sell 101 2 6, Insert 3 Buy 99 3 5, Front Sell, Fill Sell 6, Remove 1, Count]"
  have "fst (spec_trace (lists_step (4, 2)) ?evs (\<lambda>_. [])) =
      [Inserted True, Inserted True, Inserted False, FrontIs (Some \<lparr>ao_id = 2, ao_seq = 2, ao_price = 101, ao_qty = 6\<rparr>),
        Filled (Some (2, 6)), Removed True, Counted 0 0 True]"
    by (simp add: lists_step_def a_has_room_def a_order_count_def a_level_count_def a_prices_def a_insert_def ao_before_def
        price_ranks_first_def ao_prio_def a_fill_def a_cancel_def a_ids_def)
  with order_book_refines_lists [of 4 2 ?evs] show ?thesis by (auto simp: kNullNode_def simp del: run_trace.simps spec_trace.simps)
qed

subsection \<open>The retired identifiers\<close>

datatype IdEvent = Retire u64 | Ask u64 | Forget

definition retired_step :: "IdEvent \<Rightarrow> RetiredIdSet \<Rightarrow> (bool list \<times> RetiredIdSet) option" where
  "retired_step ev r =
     (case ev of
        Retire i \<Rightarrow> do { r \<leftarrow> rs_insert i r; Some ([], r) }
      | Ask i \<Rightarrow> do { known \<leftarrow> rs_contains r i; Some ([known], r) }
      | Forget \<Rightarrow> Some ([], rs_clear r))"

definition history_step :: "nat \<Rightarrow> IdEvent \<Rightarrow> u64 list \<Rightarrow> bool list \<times> u64 list" where
  "history_step cap ev L =
     (case ev of Retire i \<Rightarrow> ([], h_insert cap i L) | Ask i \<Rightarrow> ([i \<in> set L], L) | Forget \<Rightarrow> ([], []))"

definition history_sim :: "nat \<Rightarrow> RetiredIdSet \<Rightarrow> u64 list \<Rightarrow> bool" where
  "history_sim cap r L \<longleftrightarrow> rs_rel r L \<and> rs_capacity r = cap"

interpretation history: forward_simulation "history_sim cap" retired_step "\<lambda>_ _. True" "history_step cap" for cap
proof
  fix r L e
  assume "history_sim cap r L"
  then have r: "rs_rel r L" "rs_capacity r = cap" by (auto simp: history_sim_def)
  show "\<exists>r'. retired_step e r = Some (fst (history_step cap e L), r') \<and> history_sim cap r' (snd (history_step cap e L))"
  proof (cases e)
    case (Retire i)
    from retired.add_ok [OF r(1), of i] r(2) Retire show ?thesis by (auto simp: retired_step_def history_step_def history_sim_def)
  next
    case (Ask i)
    with retired.member_iff [OF r(1), of i] r show ?thesis by (simp add: retired_step_def history_step_def history_sim_def)
  next
    case Forget
    with retired.forget_ok [OF r(1)] r(2) show ?thesis by (simp add: retired_step_def history_step_def history_sim_def)
  qed
qed

text \<open>
  C18. The retired-id set is a bounded first-in-first-out history: for every sequence of insertions,
  queries and resets, every call returns (no probe loop runs forever, no slot index leaves the table)
  and every query answers whether the identifier is among those the history still holds, which
  evicts the oldest one, and only that, when a new identifier arrives and it is full.
\<close>

theorem retired_ids_refine_history:
  assumes "0 < cap" "cap \<le> kNullNode"
  shows "\<exists>r'. run_trace retired_step evs (rs_new cap) = Some (fst (spec_trace (history_step cap) evs []), r')
    \<and> rs_rel r' (snd (spec_trace (history_step cap) evs [])) \<and> rs_capacity r' = cap"
proof -
  have "history_sim cap (rs_new cap) []" using rs_new_ok [of cap] assms by (simp add: history_sim_def cap_ok_def)
  from history.simulates_trace [OF this may_always] show ?thesis by (auto simp: history_sim_def)
qed

theorem retired_ids_refine_history_witness:
  "\<exists>r'. run_trace retired_step [Retire 1, Retire 2, Retire 1, Retire 3, Ask 1, Ask 2, Ask 3] (rs_new 2) = Some ([False, True, True], r')"
  using retired_ids_refine_history [of 2 "[Retire 1, Retire 2, Retire 1, Retire 3, Ask 1, Ask 2, Ask 3]"]
  by (auto simp: history_step_def h_insert_def kNullNode_def simp del: run_trace.simps)

end
