(* ===== verification/Ring_Buffer.thy ===== *)
theory Ring_Buffer
  imports HME_Prelude
begin

text \<open>
  The fixed-capacity FIFO of \<open>ring_buffer.hpp\<close>.  \<open>Capacity\<close> is the length of the inline slot
  array.  The locale \<open>bounded_fifo\<close> is the interface its clients (the ingress and egress rings of
  the engine processor) rely on: strict first-in-first-out order, refusal without any change when
  full.  It is interpreted on the ring buffer at the end.
\<close>

record 'a RingBuffer =
  rb_slots :: "'a list"
  rb_head :: nat
  rb_tail :: nat
  rb_count :: nat

definition rb_capacity :: "'a RingBuffer \<Rightarrow> nat" where
  "rb_capacity rb = length (rb_slots rb)"

definition rb_size :: "'a RingBuffer \<Rightarrow> nat" where
  "rb_size rb = rb_count rb"

definition rb_empty :: "'a RingBuffer \<Rightarrow> bool" where
  "rb_empty rb \<longleftrightarrow> rb_count rb = 0"

definition rb_full :: "'a RingBuffer \<Rightarrow> bool" where
  "rb_full rb \<longleftrightarrow> rb_count rb = rb_capacity rb"

definition rb_advance :: "'a RingBuffer \<Rightarrow> nat \<Rightarrow> nat" where
  "rb_advance rb i = (if i + 1 = rb_capacity rb then 0 else i + 1)"

definition try_push :: "'a \<Rightarrow> 'a RingBuffer \<Rightarrow> (bool \<times> 'a RingBuffer) option" where
  "try_push v rb =
     (if rb_count rb = rb_capacity rb then Some (False, rb)
      else do {
        slots \<leftarrow> arr_set (rb_slots rb) (rb_tail rb) v;
        Some (True, rb\<lparr>rb_slots := slots, rb_tail := rb_advance rb (rb_tail rb),
                       rb_count := rb_count rb + 1\<rparr>)
      })"

definition try_pop :: "'a RingBuffer \<Rightarrow> ('a option \<times> 'a RingBuffer) option" where
  "try_pop rb =
     (if rb_count rb = 0 then Some (None, rb)
      else do {
        v \<leftarrow> arr_get (rb_slots rb) (rb_head rb);
        Some (Some v, rb\<lparr>rb_head := rb_advance rb (rb_head rb), rb_count := rb_count rb - 1\<rparr>)
      })"

text \<open>A freshly constructed buffer: \<open>n\<close> default-initialised slots, all indices zero.\<close>

definition rb_new :: "'a \<Rightarrow> nat \<Rightarrow> 'a RingBuffer" where
  "rb_new d n = \<lparr>rb_slots = replicate n d, rb_head = 0, rb_tail = 0, rb_count = 0\<rparr>"

text \<open>The abstraction: the buffered elements, oldest first; and the representation invariant.\<close>

definition rb_items :: "'a RingBuffer \<Rightarrow> 'a list" where
  "rb_items rb = map (\<lambda>i. rb_slots rb ! ((rb_head rb + i) mod rb_capacity rb)) [0..<rb_count rb]"

definition rb_inv :: "'a RingBuffer \<Rightarrow> bool" where
  "rb_inv rb \<longleftrightarrow> 0 < rb_capacity rb \<and> rb_head rb < rb_capacity rb \<and> rb_count rb \<le> rb_capacity rb
     \<and> rb_tail rb = (rb_head rb + rb_count rb) mod rb_capacity rb"

text \<open>Draining a queue: pop until it reports empty.\<close>

partial_function (option) pop_all ::
  "('q \<Rightarrow> ('a option \<times> 'q) option) \<Rightarrow> 'q \<Rightarrow> ('a list \<times> 'q) option" where
  "pop_all pop q = do {
     (r, q') \<leftarrow> pop q;
     (case r of
        None \<Rightarrow> Some ([], q')
      | Some x \<Rightarrow> do { (xs, q'') \<leftarrow> pop_all pop q'; Some (x # xs, q'') })
   }"

text \<open>Pushing a sequence; the flags record which elements were accepted.\<close>

fun push_all :: "('a \<Rightarrow> 'q \<Rightarrow> (bool \<times> 'q) option) \<Rightarrow> 'a list \<Rightarrow> 'q \<Rightarrow> (bool list \<times> 'q) option" where
  "push_all push [] q = Some ([], q)"
| "push_all push (x # xs) q = do {
     (r, q') \<leftarrow> push x q;
     (rs, q'') \<leftarrow> push_all push xs q';
     Some (r # rs, q'')
   }"

declare pop_all.simps [code]

locale bounded_fifo =
  fixes push :: "'a \<Rightarrow> 'q \<Rightarrow> (bool \<times> 'q) option"
    and pop :: "'q \<Rightarrow> ('a option \<times> 'q) option"
    and items :: "'q \<Rightarrow> 'a list"
    and inv :: "'q \<Rightarrow> bool"
    and cap :: "'q \<Rightarrow> nat"
  assumes items_le_cap: "inv q \<Longrightarrow> length (items q) \<le> cap q"
    and push_full: "inv q \<Longrightarrow> length (items q) = cap q \<Longrightarrow> push x q = Some (False, q)"
    and push_room: "inv q \<Longrightarrow> length (items q) < cap q \<Longrightarrow>
      \<exists>q'. push x q = Some (True, q') \<and> inv q' \<and> items q' = items q @ [x] \<and> cap q' = cap q"
    and pop_nil: "inv q \<Longrightarrow> items q = [] \<Longrightarrow> pop q = Some (None, q)"
    and pop_cons: "inv q \<Longrightarrow> items q = x # xs \<Longrightarrow>
      \<exists>q'. pop q = Some (Some x, q') \<and> inv q' \<and> items q' = xs \<and> cap q' = cap q"
begin

text \<open>A push either appends or leaves the queue as it was, and it says which.\<close>

lemma push_cases [consumes 1, case_names full room]:
  assumes "inv q"
  obtains (full) "length (items q) = cap q" "push x q = Some (False, q)"
  | (room) q' where "length (items q) < cap q" "push x q = Some (True, q')" "inv q'"
      "items q' = items q @ [x]" "cap q' = cap q"
  using assms items_le_cap [of q] push_full [of q x] push_room [of q x]
  by (metis le_neq_implies_less)

text \<open>Whatever was buffered comes out in arrival order, and the queue is empty afterwards.\<close>

lemma pop_all_items:
  "inv q \<Longrightarrow> \<exists>q'. pop_all pop q = Some (items q, q') \<and> inv q' \<and> items q' = [] \<and> cap q' = cap q"
proof (induction "items q" arbitrary: q)
  case Nil
  then show ?case by (subst pop_all.simps) (simp add: pop_nil)
next
  case (Cons x xs)
  from pop_cons [OF Cons.prems, of x xs] Cons.hyps(2) obtain q1 where
    q1: "pop q = Some (Some x, q1)" "inv q1" "items q1 = xs" "cap q1 = cap q" by auto
  from Cons.hyps(1) [of q1] q1 obtain q2 where
    "pop_all pop q1 = Some (xs, q2)" "inv q2" "items q2 = []" "cap q2 = cap q1" by auto
  with q1 Cons.hyps(2) show ?case by (subst pop_all.simps) auto
qed

text \<open>
  A burst of pushes accepts exactly the prefix that fits and refuses the rest; what was buffered
  before stays in front, unchanged.
\<close>

lemma push_all_prefix:
  assumes "inv q"
  shows "\<exists>q'. push_all push xs q =
      Some (replicate (min (length xs) (cap q - length (items q))) True
            @ replicate (length xs - (cap q - length (items q))) False, q')
    \<and> inv q' \<and> items q' = items q @ take (cap q - length (items q)) xs \<and> cap q' = cap q"
  using assms
proof (induction xs arbitrary: q)
  case Nil
  then show ?case by simp
next
  case (Cons x xs)
  from Cons.prems show ?case
  proof (cases rule: push_cases [where x = x])
    case full
    then show ?thesis using Cons.IH [OF Cons.prems] by auto
  next
    case (room q1)
    then have "cap q - length (items q) = Suc (cap q1 - length (items q1))" by simp
    with Cons.IH [OF room(3)] room show ?thesis by auto
  qed
qed

end

lemma rb_capacity_update [simp]:
  "rb_capacity (rb\<lparr>rb_slots := xs\<rparr>) = length xs"
  "rb_capacity (rb\<lparr>rb_head := h\<rparr>) = rb_capacity rb"
  "rb_capacity (rb\<lparr>rb_tail := t\<rparr>) = rb_capacity rb"
  "rb_capacity (rb\<lparr>rb_count := c\<rparr>) = rb_capacity rb"
  by (simp_all add: rb_capacity_def)

lemma rb_items_length [simp]: "length (rb_items rb) = rb_count rb"
  by (simp add: rb_items_def)

lemma rb_advance_mod: "i < rb_capacity rb \<Longrightarrow> rb_advance rb i = (i + 1) mod rb_capacity rb"
  by (auto simp: rb_advance_def)

lemma rb_items_nth:
  "i < rb_count rb \<Longrightarrow> rb_items rb ! i = rb_slots rb ! ((rb_head rb + i) mod rb_capacity rb)"
  by (simp add: rb_items_def)

lemma try_push_full: "rb_count rb = rb_capacity rb \<Longrightarrow> try_push v rb = Some (False, rb)"
  by (simp add: try_push_def)

lemma try_push_room:
  assumes "rb_inv rb" "rb_count rb < rb_capacity rb"
  shows "\<exists>rb'. try_push v rb = Some (True, rb') \<and> rb_inv rb'
    \<and> rb_items rb' = rb_items rb @ [v] \<and> rb_capacity rb' = rb_capacity rb"
proof -
  let ?n = "rb_capacity rb" and ?t = "rb_tail rb"
  let ?rb = "rb\<lparr>rb_slots := (rb_slots rb)[?t := v], rb_tail := rb_advance rb ?t,
                  rb_count := rb_count rb + 1\<rparr>"
  from assms have t: "?t < ?n" "?t = (rb_head rb + rb_count rb) mod ?n"
    by (auto simp: rb_inv_def)
  have cap: "rb_capacity ?rb = ?n" by (simp add: rb_capacity_def)
  have "rb_slots ?rb ! ((rb_head rb + i) mod ?n) = rb_slots rb ! ((rb_head rb + i) mod ?n)"
    if "i < rb_count rb" for i
    using mod_add_neq [of i "rb_count rb" ?n "rb_head rb"] that assms t by simp
  then have "rb_items ?rb = rb_items rb @ [v]"
    using t cap by (simp add: rb_items_def rb_capacity_def)
  moreover have "rb_inv ?rb"
    using assms t by (simp add: rb_inv_def rb_advance_mod mod_Suc_eq rb_capacity_def [symmetric])
  moreover have "try_push v rb = Some (True, ?rb)"
    using assms t by (simp add: try_push_def rb_capacity_def)
  ultimately show ?thesis using cap by auto
qed

lemma try_pop_empty: "rb_count rb = 0 \<Longrightarrow> try_pop rb = Some (None, rb)"
  by (simp add: try_pop_def)

lemma try_pop_cons:
  assumes "rb_inv rb" "rb_items rb = x # xs"
  shows "\<exists>rb'. try_pop rb = Some (Some x, rb') \<and> rb_inv rb'
    \<and> rb_items rb' = xs \<and> rb_capacity rb' = rb_capacity rb"
proof -
  let ?n = "rb_capacity rb" and ?h = "rb_head rb"
  let ?rb = "rb\<lparr>rb_head := rb_advance rb ?h, rb_count := rb_count rb - 1\<rparr>"
  from assms have c: "0 < rb_count rb" by (metis rb_items_length length_Cons zero_less_Suc)
  from assms have h: "?h < ?n" by (simp add: rb_inv_def)
  have cap: "rb_capacity ?rb = ?n" by (simp add: rb_capacity_def)
  have hd: "rb_items rb ! 0 = rb_slots rb ! ?h" using c h by (simp add: rb_items_nth)
  have "rb_items ?rb = tl (rb_items rb)"
    using c h by (intro nth_equalityI)
      (auto simp: rb_items_nth rb_advance_mod nth_tl mod_simps)
  moreover have "rb_inv ?rb"
    using assms c h by (cases "rb_count rb") (auto simp: rb_inv_def rb_advance_mod mod_simps)
  moreover have "try_pop rb = Some (Some x, ?rb)"
    using c h hd assms by (simp add: try_pop_def rb_capacity_def)
  ultimately show ?thesis using assms cap by auto
qed

interpretation ring: bounded_fifo try_push try_pop rb_items rb_inv rb_capacity
proof unfold_locales
  fix q :: "'a RingBuffer" and x :: 'a and xs
  show "rb_inv q \<Longrightarrow> length (rb_items q) \<le> rb_capacity q" by (simp add: rb_inv_def)
  show "length (rb_items q) = rb_capacity q \<Longrightarrow> try_push x q = Some (False, q)"
    by (simp add: try_push_full)
  show "rb_inv q \<Longrightarrow> length (rb_items q) < rb_capacity q \<Longrightarrow>
      \<exists>q'. try_push x q = Some (True, q') \<and> rb_inv q' \<and> rb_items q' = rb_items q @ [x]
        \<and> rb_capacity q' = rb_capacity q"
    by (simp add: try_push_room)
  show "rb_items q = [] \<Longrightarrow> try_pop q = Some (None, q)"
    by (metis try_pop_empty rb_items_length list.size(3))
  show "rb_inv q \<Longrightarrow> rb_items q = x # xs \<Longrightarrow>
      \<exists>q'. try_pop q = Some (Some x, q') \<and> rb_inv q' \<and> rb_items q' = xs
        \<and> rb_capacity q' = rb_capacity q"
    by (rule try_pop_cons)
qed

lemma rb_new_inv:
  "0 < n \<Longrightarrow> rb_inv (rb_new d n) \<and> rb_items (rb_new d n) = [] \<and> rb_capacity (rb_new d n) = n"
  by (simp add: rb_inv_def rb_new_def rb_items_def rb_capacity_def)

text \<open>
  C27. The ring is a bounded FIFO queue with back-pressure: a burst of pushes accepts exactly the
  prefix that fits and refuses the rest (the flags say which), nothing already buffered is
  overwritten, and popping until empty returns everything accepted in arrival order and ends.
\<close>

theorem ring_burst_fifo:
  assumes "rb_inv q"
  shows "\<exists>q' q''. push_all try_push xs q =
      Some (replicate (min (length xs) (rb_capacity q - rb_count q)) True @ replicate (length xs - (rb_capacity q - rb_count q)) False, q')
    \<and> pop_all try_pop q' = Some (rb_items q @ take (rb_capacity q - rb_count q) xs, q'') \<and> rb_inv q'' \<and> rb_items q'' = []"
proof -
  from ring.push_all_prefix [OF assms, of xs] obtain q' where
    q': "push_all try_push xs q = Some (replicate (min (length xs) (rb_capacity q - rb_count q)) True
        @ replicate (length xs - (rb_capacity q - rb_count q)) False, q')"
      "rb_inv q'" "rb_items q' = rb_items q @ take (rb_capacity q - rb_count q) xs" by auto
  from ring.pop_all_items [OF q'(2)] q' show ?thesis by auto
qed

theorem ring_burst_fifo_witness:
  "\<exists>q' q''. push_all try_push [10, 20, 30 :: nat] (rb_new 0 2) = Some ([True, True, False], q')
    \<and> pop_all try_pop q' = Some ([10, 20], q'')"
proof -
  have "rb_inv (rb_new (0 :: nat) 2)" using rb_new_inv [of 2 "0 :: nat"] by simp
  moreover have "rb_count (rb_new (0 :: nat) 2) = 0" by (simp add: rb_new_def)
  ultimately show ?thesis
    using ring_burst_fifo [of "rb_new (0 :: nat) 2" "[10, 20, 30]"] rb_new_inv [of 2 "0 :: nat"] by (auto simp: numeral_2_eq_2)
qed

end
