(* ===== verification/Codec.thy ===== *)
theory Codec
  imports Binary_Message
begin

text \<open>
  The binary codec of \<open>codec.cpp\<close>.  \<open>LeWriter\<close> and \<open>LeReader\<close> are the little-endian cursors;
  \<open>encode\<close> returns its result together with the caller's buffer as it leaves it, since the
  C++ function writes into a span.  Cursor accesses are array accesses: \<open>None\<close> would be a write
  or read outside the buffer, and the theorems show it cannot happen.

  \<open>frame_of\<close> is the byte-level specification of a message; \<open>encode\<close> is proved to write exactly
  that, and \<open>decode\<close> to invert it in both directions.
\<close>

record LeWriter =
  w_out :: "u8 list"
  w_pos :: nat

record LeReader =
  r_in :: "u8 list"
  r_pos :: nat

definition w_u8 :: "u8 \<Rightarrow> LeWriter \<Rightarrow> LeWriter option" where
  "w_u8 v w = do {
     out \<leftarrow> arr_set (w_out w) (w_pos w) v;
     Some (w\<lparr>w_out := out, w_pos := w_pos w + 1\<rparr>)
   }"

definition w_u32 :: "u32 \<Rightarrow> LeWriter \<Rightarrow> LeWriter option" where
  "w_u32 v w = do {
     w \<leftarrow> w_u8 (ucast (v AND 0xFF)) w;
     w \<leftarrow> w_u8 (ucast (drop_bit 8 v AND 0xFF)) w;
     w \<leftarrow> w_u8 (ucast (drop_bit 16 v AND 0xFF)) w;
     w_u8 (ucast (drop_bit 24 v AND 0xFF)) w
   }"

definition w_u64 :: "u64 \<Rightarrow> LeWriter \<Rightarrow> LeWriter option" where
  "w_u64 v w = for_each (\<lambda>i. w_u8 (ucast (drop_bit (8 * i) v AND 0xFF))) [0..<8] w"

definition r_u8 :: "LeReader \<Rightarrow> (u8 \<times> LeReader) option" where
  "r_u8 r = do { b \<leftarrow> arr_get (r_in r) (r_pos r); Some (b, r\<lparr>r_pos := r_pos r + 1\<rparr>) }"

definition r_u32 :: "LeReader \<Rightarrow> (u32 \<times> LeReader) option" where
  "r_u32 r = for_each (\<lambda>i (v, r). do {
       (b, r) \<leftarrow> r_u8 r;
       Some (v OR push_bit (8 * i) (ucast b), r)
     }) [0..<4] (0, r)"

definition r_u64 :: "LeReader \<Rightarrow> (u64 \<times> LeReader) option" where
  "r_u64 r = for_each (\<lambda>i (v, r). do {
       (b, r) \<leftarrow> r_u8 r;
       Some (v OR push_bit (8 * i) (ucast b), r)
     }) [0..<8] (0, r)"

definition price_ticks_in_range :: "u64 \<Rightarrow> bool" where
  "price_ticks_in_range p \<longleftrightarrow> p \<ge> kMinPriceTicks \<and> p \<le> kMaxPriceTicks"

definition quantity_in_range :: "u32 \<Rightarrow> bool" where
  "quantity_in_range q \<longleftrightarrow> q \<ge> kMinGatewayQuantity \<and> q \<le> kMaxGatewayQuantity"

text \<open>
  The visitor of \<open>encode\<close>: the range checks of the message's type, then its fields in order.
  Returns the result and the cursor.
\<close>

definition encode_fields :: "BinaryMessage \<Rightarrow> LeWriter \<Rightarrow> (nat CodecResult \<times> LeWriter) option" where
  "encode_fields msg w =
    (case msg of
       BM_NewOrder m \<Rightarrow>
         if \<not> price_ticks_in_range (no_price_ticks m)
         then Some (Inl (field_out_of_range ''price_ticks''), w)
         else if \<not> quantity_in_range (no_quantity m)
         then Some (Inl (field_out_of_range ''quantity''), w)
         else do {
           w \<leftarrow> w_u64 (no_order_id m) w;
           w \<leftarrow> w_u8 (side_as_byte (no_side m)) w;
           w \<leftarrow> w_u64 (no_price_ticks m) w;
           w \<leftarrow> w_u32 (no_quantity m) w;
           w \<leftarrow> w_u64 (no_seq m) w;
           Some (Inr (w_pos w), w)
         }
     | BM_CancelOrder m \<Rightarrow> do {
           w \<leftarrow> w_u64 (co_order_id m) w;
           Some (Inr (w_pos w), w)
         }
     | BM_Trade m \<Rightarrow>
         if \<not> price_ticks_in_range (tr_price_ticks m)
         then Some (Inl (field_out_of_range ''price_ticks''), w)
         else if \<not> quantity_in_range (tr_quantity m)
         then Some (Inl (field_out_of_range ''quantity''), w)
         else do {
           w \<leftarrow> w_u64 (tr_exec_seq m) w;
           w \<leftarrow> w_u64 (tr_price_ticks m) w;
           w \<leftarrow> w_u32 (tr_quantity m) w;
           w \<leftarrow> w_u64 (tr_incoming_id m) w;
           w \<leftarrow> w_u64 (tr_resting_id m) w;
           Some (Inr (w_pos w), w)
         }
     | BM_Ack m \<Rightarrow> do {
           w \<leftarrow> w_u64 (ack_order_id m) w;
           w \<leftarrow> w_u8 (ack_kind_as_byte (ack_kind m)) w;
           Some (Inr (w_pos w), w)
         }
     | BM_Reject m \<Rightarrow> do {
           w \<leftarrow> w_u64 (rej_order_id m) w;
           w \<leftarrow> w_u8 (reject_reason_as_byte (rej_reason m)) w;
           Some (Inr (w_pos w), w)
         })"

definition encode :: "BinaryMessage \<Rightarrow> u8 list \<Rightarrow> (nat CodecResult \<times> u8 list) option" where
  "encode msg out =
    (if length out < encoded_len_of msg then Some (Inl insufficient_length, out)
     else do {
       w \<leftarrow> w_u8 (message_type_as_byte (message_type_of msg)) \<lparr>w_out = out, w_pos = 0\<rparr>;
       (res, w) \<leftarrow> encode_fields msg w;
       Some (res, w_out w)
     })"

text \<open>The \<open>switch\<close> of \<open>decode\<close>, after the type byte has been consumed.\<close>

definition decode_fields :: "MessageType \<Rightarrow> LeReader \<Rightarrow> BinaryMessage CodecResult option" where
  "decode_fields t r =
    (case t of
       MT_NewOrder \<Rightarrow> do {
         (order_id, r) \<leftarrow> r_u64 r;
         (side_byte, r) \<leftarrow> r_u8 r;
         (case side_from_byte side_byte of
            None \<Rightarrow> Some (Inl (field_out_of_range ''side''))
          | Some side \<Rightarrow> do {
              (price_ticks, r) \<leftarrow> r_u64 r;
              (quantity, r) \<leftarrow> r_u32 r;
              (seq, r) \<leftarrow> r_u64 r;
              if \<not> price_ticks_in_range price_ticks
              then Some (Inl (field_out_of_range ''price_ticks''))
              else if \<not> quantity_in_range quantity
              then Some (Inl (field_out_of_range ''quantity''))
              else Some (Inr (BM_NewOrder \<lparr>no_order_id = order_id, no_side = side,
                     no_price_ticks = price_ticks, no_quantity = quantity, no_seq = seq\<rparr>))
            })
       }
     | MT_CancelOrder \<Rightarrow> do {
         (order_id, r) \<leftarrow> r_u64 r;
         Some (Inr (BM_CancelOrder \<lparr>co_order_id = order_id\<rparr>))
       }
     | MT_Trade \<Rightarrow> do {
         (exec_seq, r) \<leftarrow> r_u64 r;
         (price_ticks, r) \<leftarrow> r_u64 r;
         (quantity, r) \<leftarrow> r_u32 r;
         (incoming_id, r) \<leftarrow> r_u64 r;
         (resting_id, r) \<leftarrow> r_u64 r;
         if \<not> price_ticks_in_range price_ticks
         then Some (Inl (field_out_of_range ''price_ticks''))
         else if \<not> quantity_in_range quantity
         then Some (Inl (field_out_of_range ''quantity''))
         else Some (Inr (BM_Trade \<lparr>tr_exec_seq = exec_seq, tr_price_ticks = price_ticks,
                tr_quantity = quantity, tr_incoming_id = incoming_id, tr_resting_id = resting_id\<rparr>))
       }
     | MT_Ack \<Rightarrow> do {
         (order_id, r) \<leftarrow> r_u64 r;
         (kind_byte, r) \<leftarrow> r_u8 r;
         (case ack_kind_from_byte kind_byte of
            None \<Rightarrow> Some (Inl (field_out_of_range ''kind''))
          | Some kind \<Rightarrow> Some (Inr (BM_Ack \<lparr>ack_order_id = order_id, ack_kind = kind\<rparr>)))
       }
     | MT_Reject \<Rightarrow> do {
         (order_id, r) \<leftarrow> r_u64 r;
         (reason_byte, r) \<leftarrow> r_u8 r;
         (case reject_reason_from_byte reason_byte of
            None \<Rightarrow> Some (Inl (field_out_of_range ''reason''))
          | Some reason \<Rightarrow> Some (Inr (BM_Reject \<lparr>rej_order_id = order_id, rej_reason = reason\<rparr>)))
       })"

definition decode :: "u8 list \<Rightarrow> BinaryMessage CodecResult option" where
  "decode bytes =
    (case bytes of
       [] \<Rightarrow> Some (Inl insufficient_length)
     | type_byte # _ \<Rightarrow>
         (case message_type_from_byte type_byte of
            None \<Rightarrow> Some (Inl (unknown_type_error type_byte))
          | Some t \<Rightarrow> do {
              needed \<leftarrow> message_len t;
              if length bytes < needed then Some (Inl insufficient_length)
              else if length bytes > needed then Some (Inl excess_trailing_bytes)
              else do {
                (_, r) \<leftarrow> r_u8 \<lparr>r_in = bytes, r_pos = 0\<rparr>;
                decode_fields t r
              }
            }))"

text \<open>Specification: the little-endian bytes of a word, and the frame of a message.\<close>

definition le_bytes :: "nat \<Rightarrow> 'w::len word \<Rightarrow> u8 list" where
  "le_bytes n v = map (\<lambda>i. ucast (drop_bit (8 * i) v)) [0..<n]"

fun le_val :: "u8 list \<Rightarrow> 'w::len word" where
  "le_val [] = 0"
| "le_val (b # bs) = ucast b OR push_bit 8 (le_val bs)"

definition fields_of :: "BinaryMessage \<Rightarrow> u8 list" where
  "fields_of msg =
    (case msg of
       BM_NewOrder m \<Rightarrow> le_bytes 8 (no_order_id m) @ [side_as_byte (no_side m)]
         @ le_bytes 8 (no_price_ticks m) @ le_bytes 4 (no_quantity m) @ le_bytes 8 (no_seq m)
     | BM_CancelOrder m \<Rightarrow> le_bytes 8 (co_order_id m)
     | BM_Trade m \<Rightarrow> le_bytes 8 (tr_exec_seq m) @ le_bytes 8 (tr_price_ticks m)
         @ le_bytes 4 (tr_quantity m) @ le_bytes 8 (tr_incoming_id m) @ le_bytes 8 (tr_resting_id m)
     | BM_Ack m \<Rightarrow> le_bytes 8 (ack_order_id m) @ [ack_kind_as_byte (ack_kind m)]
     | BM_Reject m \<Rightarrow> le_bytes 8 (rej_order_id m) @ [reject_reason_as_byte (rej_reason m)])"

definition frame_of :: "BinaryMessage \<Rightarrow> u8 list" where
  "frame_of msg = message_type_as_byte (message_type_of msg) # fields_of msg"

definition msg_in_range :: "BinaryMessage \<Rightarrow> bool" where
  "msg_in_range msg =
    (case msg of
       BM_NewOrder m \<Rightarrow> price_ticks_in_range (no_price_ticks m) \<and> quantity_in_range (no_quantity m)
     | BM_Trade m \<Rightarrow> price_ticks_in_range (tr_price_ticks m) \<and> quantity_in_range (tr_quantity m)
     | _ \<Rightarrow> True)"

text \<open>The field a range check names, in the order the encoder and the decoder test them.\<close>

definition bad_field :: "BinaryMessage \<Rightarrow> string" where
  "bad_field m =
    (case m of
       BM_NewOrder n \<Rightarrow> if price_ticks_in_range (no_price_ticks n) then ''quantity'' else ''price_ticks''
     | BM_Trade t \<Rightarrow> if price_ticks_in_range (tr_price_ticks t) then ''quantity'' else ''price_ticks''
     | _ \<Rightarrow> [])"

text \<open>Overwriting a run of bytes in the caller's buffer.\<close>

definition put :: "'a list \<Rightarrow> nat \<Rightarrow> 'a list \<Rightarrow> 'a list" where
  "put out p bs = take p out @ bs @ drop (p + length bs) out"

subsection \<open>Bytes and words\<close>

lemma put_length [simp]: "p + length bs \<le> length out \<Longrightarrow> length (put out p bs) = length out"
  by (simp add: put_def)

lemma put_Nil [simp]: "put out p [] = out"
  by (simp add: put_def)

lemma put_put:
  "p + length as + length bs \<le> length out \<Longrightarrow> q = p + length as \<Longrightarrow>
   put (put out p as) q bs = put out p (as @ bs)"
  by (cases as) (auto simp: put_def min_def ac_simps)

lemma length_le_bytes [simp]: "length (le_bytes n v) = n"
  by (simp add: le_bytes_def)

lemma byte_mask: "ucast (w AND 0xFF) = (ucast (w :: 'w::len word) :: u8)"
proof (rule bit_eqI)
  fix k
  assume "possible_bit TYPE(u8) k"
  then have k: "k < 8" by simp
  have m: "(0xFF :: 'w word) = mask 8" by (simp add: mask_eq_exp_minus_1)
  show "bit (ucast (w AND 0xFF) :: u8) k \<longleftrightarrow> bit (ucast w :: u8) k"
    using k by (auto simp: m bit_simps dest: bit_imp_le_length)
qed

lemma w_u8_put:
  "w_pos w < length (w_out w) \<Longrightarrow>
   w_u8 v w = Some (w\<lparr>w_out := put (w_out w) (w_pos w) [v], w_pos := w_pos w + 1\<rparr>)"
  by (simp add: w_u8_def put_def upd_conv_take_nth_drop)

lemma w_bytes_put:
  "w_pos w + length is \<le> length (w_out w) \<Longrightarrow>
   for_each (\<lambda>i. w_u8 (f i)) is w =
     Some (w\<lparr>w_out := put (w_out w) (w_pos w) (map f is), w_pos := w_pos w + length is\<rparr>)"
proof (induction "is" arbitrary: w)
  case Nil
  then show ?case by simp
next
  case (Cons i "is")
  then show ?case by (simp add: w_u8_put put_put)
qed

lemma w_u64_put:
  "w_pos w + 8 \<le> length (w_out w) \<Longrightarrow>
   w_u64 v w = Some (w\<lparr>w_out := put (w_out w) (w_pos w) (le_bytes 8 v), w_pos := w_pos w + 8\<rparr>)"
  by (simp only: w_u64_def le_bytes_def byte_mask w_bytes_put length_upt) simp

lemma w_u32_put:
  "w_pos w + 4 \<le> length (w_out w) \<Longrightarrow>
   w_u32 v w = Some (w\<lparr>w_out := put (w_out w) (w_pos w) (le_bytes 4 v), w_pos := w_pos w + 4\<rparr>)"
proof -
  have e: "le_bytes 4 v = [ucast v, ucast (drop_bit 8 v), ucast (drop_bit 16 v), ucast (drop_bit 24 v)]"
    by (simp add: le_bytes_def upt_rec numeral_eq_Suc)
  show "w_pos w + 4 \<le> length (w_out w) \<Longrightarrow> ?thesis"
    by (simp add: w_u32_def w_u8_put put_put byte_mask e)
qed

lemma le_val_snoc: "le_val (bs @ [b]) = le_val bs OR push_bit (8 * length bs) (ucast b)"
  by (induction bs) (simp_all add: push_bit_or or.assoc)

lemma bit_le_val:
  "bit (le_val bs :: 'w::len word) k \<longleftrightarrow>
     k < LENGTH('w) \<and> k < 8 * length bs \<and> bit (bs ! (k div 8)) (k mod 8)"
proof (induction bs rule: rev_induct)
  case Nil
  then show ?case by simp
next
  case (snoc b bs)
  show ?case
  proof (cases "8 * length bs \<le> k")
    case True
    then have "k < 8 * length bs + 8 \<Longrightarrow> k div 8 = length bs"
      and "k < 8 * length bs + 8 \<Longrightarrow> k mod 8 = k - 8 * length bs"
      by (auto simp: div_nat_eqI modulo_nat_def)
    moreover from True have "bit b (k - 8 * length bs) \<Longrightarrow> k < 8 * length bs + 8"
      by (auto dest: bit_imp_le_length)
    ultimately show ?thesis
      using True by (auto simp: le_val_snoc snoc bit_simps nth_append)
  next
    case False
    then show ?thesis by (auto simp: le_val_snoc snoc bit_simps nth_append)
  qed
qed

lemma le_val_le_bytes: "8 * n = LENGTH('w) \<Longrightarrow> le_val (le_bytes n v) = (v :: 'w::len word)"
  by (rule bit_word_eqI) (auto simp: bit_le_val le_bytes_def bit_simps)

lemma le_bytes_le_val:
  assumes "length bs = n" "8 * n = LENGTH('w)"
  shows "le_bytes n (le_val bs :: 'w::len word) = bs"
proof (rule nth_equalityI)
  fix i
  assume i: "i < length (le_bytes n (le_val bs :: 'w word))"
  have *: "i * 8 + k < LENGTH('w) \<and> (i * 8 + k) div 8 = i \<and> (i * 8 + k) mod 8 = k" if "k < 8" for k
    using that i assms by auto
  show "le_bytes n (le_val bs :: 'w word) ! i = bs ! i"
    by (rule bit_word_eqI) (use i assms * in \<open>auto simp: bit_le_val le_bytes_def bit_simps ac_simps\<close>)
qed (use assms in simp)

subsection \<open>The reading cursor\<close>

lemma r_u8_at: "r_pos r < length (r_in r) \<Longrightarrow> r_u8 r = Some (r_in r ! r_pos r, r\<lparr>r_pos := r_pos r + 1\<rparr>)"
  by (simp add: r_u8_def)

lemma r_word_loop:
  "r_pos r + n \<le> length (r_in r) \<Longrightarrow>
   for_each (\<lambda>i (v :: 'w::len word, r). do {
       (b, r) \<leftarrow> r_u8 r; Some (v OR push_bit (8 * i) (ucast b), r) }) [0..<n] (0, r)
   = Some (le_val (take n (drop (r_pos r) (r_in r))), r\<lparr>r_pos := r_pos r + n\<rparr>)"
proof (induction n)
  case 0
  then show ?case by simp
next
  case (Suc n)
  then have "take (Suc n) (drop (r_pos r) (r_in r))
      = take n (drop (r_pos r) (r_in r)) @ [r_in r ! (r_pos r + n)]"
    by (simp add: take_Suc_conv_app_nth)
  with Suc show ?case by (simp add: for_each_append r_u8_at le_val_snoc)
qed

lemma r_u64_at:
  "r_pos r + 8 \<le> length (r_in r) \<Longrightarrow>
   r_u64 r = Some (le_val (take 8 (drop (r_pos r) (r_in r))), r\<lparr>r_pos := r_pos r + 8\<rparr>)"
  unfolding r_u64_def by (rule r_word_loop)

lemma r_u32_at:
  "r_pos r + 4 \<le> length (r_in r) \<Longrightarrow>
   r_u32 r = Some (le_val (take 4 (drop (r_pos r) (r_in r))), r\<lparr>r_pos := r_pos r + 4\<rparr>)"
  unfolding r_u32_def by (rule r_word_loop)

subsection \<open>Encoding writes exactly the frame\<close>

lemma length_fields_of: "length (fields_of m) + 1 = encoded_len_of m"
  by (cases m) (simp_all add: fields_of_def encoded_len_of_def wire_lengths)

lemma length_frame_of: "length (frame_of m) = encoded_len_of m"
  using length_fields_of [of m] by (simp add: frame_of_def)

lemma encode_fields_in_range:
  assumes "msg_in_range m" "w_pos w + length (fields_of m) \<le> length (w_out w)"
  shows "encode_fields m w =
    Some (Inr (w_pos w + length (fields_of m)),
          w\<lparr>w_out := put (w_out w) (w_pos w) (fields_of m), w_pos := w_pos w + length (fields_of m)\<rparr>)"
  using assms
  by (cases m)
    (simp_all add: encode_fields_def fields_of_def msg_in_range_def w_u64_put w_u32_put w_u8_put
      put_put)

lemma encode_in_range:
  assumes "msg_in_range m" "encoded_len_of m \<le> length out"
  shows "encode m out = Some (Inr (encoded_len_of m), frame_of m @ drop (encoded_len_of m) out)"
proof -
  let ?t = "message_type_as_byte (message_type_of m)"
  let ?w = "\<lparr>w_out = put out 0 [?t], w_pos = 1\<rparr>"
  have len: "Suc (length (fields_of m)) = encoded_len_of m" using length_fields_of [of m] by simp
  have "w_u8 ?t \<lparr>w_out = out, w_pos = 0\<rparr> = Some ?w"
    using assms len by (subst w_u8_put) auto
  moreover have "encode_fields m ?w =
      Some (Inr (encoded_len_of m), \<lparr>w_out = put out 0 (frame_of m), w_pos = encoded_len_of m\<rparr>)"
    using assms len by (subst encode_fields_in_range) (auto simp: put_put frame_of_def)
  ultimately show ?thesis
    using assms by (simp add: encode_def put_def length_frame_of)
qed

lemma encode_too_short:
  "length out < encoded_len_of m \<Longrightarrow> encode m out = Some (Inl insufficient_length, out)"
  by (simp add: encode_def)

lemma encode_out_of_range:
  assumes "\<not> msg_in_range m" "encoded_len_of m \<le> length out"
  shows "encode m out = Some (Inl (field_out_of_range (bad_field m)),
           out[0 := message_type_as_byte (message_type_of m)])"
  using assms encoded_len_bounds [of m]
  by (cases m)
    (auto simp: encode_def encode_fields_def msg_in_range_def bad_field_def w_u8_def arr_set_def)

subsection \<open>Decoding inverts it\<close>

lemma frame_of_Cons: "frame_of m = t # bs \<longleftrightarrow>
    t = message_type_as_byte (message_type_of m) \<and> bs = fields_of m"
  by (auto simp: frame_of_def)

lemma decode_fields_frame:
  assumes "msg_in_range m"
  shows "decode_fields (message_type_of m) \<lparr>r_in = frame_of m, r_pos = 1\<rparr> = Some (Inr m)"
  using assms
  by (cases m)
    (simp_all add: decode_fields_def message_type_of_eq msg_in_range_def frame_of_def fields_of_def
      r_u64_at r_u32_at r_u8_at le_val_le_bytes nth_append)

lemma decode_frame:
  assumes "msg_in_range m"
  shows "decode (frame_of m) = Some (Inr m)"
proof -
  have "decode (frame_of m) = decode_fields (message_type_of m) \<lparr>r_in = frame_of m, r_pos = 1\<rparr>"
    by (simp add: decode_def frame_of_def message_len_of_type length_fields_of [symmetric] r_u8_def)
  then show ?thesis using decode_fields_frame [OF assms] by simp
qed

lemma split_bytes:
  "length xs = n + k \<Longrightarrow> \<exists>as bs. xs = as @ bs \<and> length as = n \<and> length bs = k"
  by (rule exI [of _ "take n xs"], rule exI [of _ "drop n xs"]) simp

lemma le_bytes_le_val_u64: "length bs = 8 \<Longrightarrow> le_bytes 8 (le_val bs :: u64) = bs"
  by (rule le_bytes_le_val) simp_all

lemma le_bytes_le_val_u32: "length bs = 4 \<Longrightarrow> le_bytes 4 (le_val bs :: u32) = bs"
  by (rule le_bytes_le_val) simp_all

lemmas cursor_simps = r_u64_at r_u32_at r_u8_at nth_append

lemma decode_fields_NewOrder_inv:
  assumes "length bs = 29" "decode_fields MT_NewOrder \<lparr>r_in = b # bs, r_pos = 1\<rparr> = Some (Inr m)"
  shows "msg_in_range m \<and> message_type_of m = MT_NewOrder \<and> fields_of m = bs"
proof -
  obtain a bs1 where 1: "bs = a @ bs1" "length a = 8" "length bs1 = 21"
    using split_bytes [of bs 8 21] assms by auto
  then obtain s bs2 where 2: "bs1 = s # bs2" "length bs2 = 20" by (cases bs1) auto
  then obtain p bs3 where 3: "bs2 = p @ bs3" "length p = 8" "length bs3 = 12"
    using split_bytes [of bs2 8 12] by auto
  then obtain q t where 4: "bs3 = q @ t" "length q = 4" "length t = 8"
    using split_bytes [of bs3 4 8] by auto
  from assms(2) 1 2 3 4 show ?thesis
    by (auto simp: decode_fields_def cursor_simps message_type_of_eq msg_in_range_def fields_of_def
        le_bytes_le_val_u64 le_bytes_le_val_u32 side_from_byte_Some split: option.splits if_splits)
qed

lemma decode_fields_Trade_inv:
  assumes "length bs = 36" "decode_fields MT_Trade \<lparr>r_in = b # bs, r_pos = 1\<rparr> = Some (Inr m)"
  shows "msg_in_range m \<and> message_type_of m = MT_Trade \<and> fields_of m = bs"
proof -
  obtain a bs1 where 1: "bs = a @ bs1" "length a = 8" "length bs1 = 28"
    using split_bytes [of bs 8 28] assms by auto
  then obtain p bs2 where 2: "bs1 = p @ bs2" "length p = 8" "length bs2 = 20"
    using split_bytes [of bs1 8 20] by auto
  then obtain q bs3 where 3: "bs2 = q @ bs3" "length q = 4" "length bs3 = 16"
    using split_bytes [of bs2 4 16] by auto
  then obtain i j where 4: "bs3 = i @ j" "length i = 8" "length j = 8"
    using split_bytes [of bs3 8 8] by auto
  from assms(2) 1 2 3 4 show ?thesis
    by (auto simp: decode_fields_def cursor_simps message_type_of_eq msg_in_range_def fields_of_def
        le_bytes_le_val_u64 le_bytes_le_val_u32 split: if_splits)
qed

lemma decode_fields_short_inv:
  assumes "t = MT_CancelOrder \<and> length bs = 8 \<or> t \<in> {MT_Ack, MT_Reject} \<and> length bs = 9"
    and "decode_fields t \<lparr>r_in = b # bs, r_pos = 1\<rparr> = Some (Inr m)"
  shows "msg_in_range m \<and> message_type_of m = t \<and> fields_of m = bs"
proof -
  obtain a k where 1: "bs = a @ k" "length a = 8" "length k \<le> 1"
    by (rule that [of "take 8 bs" "drop 8 bs"]) (use assms in auto)
  then have "k = [] \<or> (\<exists>x. k = [x])" by (cases k) auto
  with assms 1 show ?thesis
    by (auto simp: decode_fields_def cursor_simps message_type_of_eq msg_in_range_def fields_of_def
        le_bytes_le_val_u64 ack_kind_from_byte_Some reject_reason_from_byte_Some split: option.splits)
qed

lemma decode_inv:
  assumes "decode bytes = Some (Inr m)"
  shows "msg_in_range m \<and> bytes = frame_of m"
proof -
  from assms obtain b bs t n where b: "bytes = b # bs" and t: "message_type_from_byte b = Some t"
    and n: "message_len t = Some n" "length bytes = n"
    and d: "decode_fields t \<lparr>r_in = b # bs, r_pos = 1\<rparr> = Some (Inr m)"
    by (auto simp: decode_def r_u8_def split: list.splits option.splits bind_splits if_splits)
  have "msg_in_range m \<and> message_type_of m = t \<and> fields_of m = bs"
    using n b d decode_fields_NewOrder_inv [of bs b m] decode_fields_Trade_inv [of bs b m]
      decode_fields_short_inv [of t bs b m]
    by (cases t) (auto simp: message_len_def wire_lengths)
  with b message_type_from_byte_Some [OF t] show ?thesis by (simp add: frame_of_def)
qed

text \<open>Decoding always returns, and every failure is one of the four documented errors.\<close>

lemma decode_fields_total:
  assumes "message_len t = Some (length bytes)"
  shows "\<exists>r. decode_fields t \<lparr>r_in = bytes, r_pos = 1\<rparr> = Some r
    \<and> ((\<exists>m. r = Inr m) \<or> (\<exists>f. r = Inl (field_out_of_range f)))"
  using assms
  by (cases t) (auto simp: message_len_def wire_lengths decode_fields_def cursor_simps
      split: option.splits)

text \<open>
  C33. Round trip from messages: whenever \<open>encode\<close> succeeds it has written a prefix of exactly the
  message type's fixed length, left the rest of the buffer alone, and \<open>decode\<close> of that prefix gives
  the original message back.
\<close>

theorem encode_decode_roundtrip:
  assumes "encode m out = Some (Inr n, out')"
  shows "n = encoded_len_of m \<and> decode (take n out') = Some (Inr m) \<and> drop n out' = drop n out
    \<and> length out' = length out"
proof -
  from assms have len: "encoded_len_of m \<le> length out" and rng: "msg_in_range m"
    using encode_too_short [of out m] encode_out_of_range [of m out] by fastforce+
  from assms encode_in_range [OF rng len] show ?thesis
    using len decode_frame [OF rng] by (auto simp: length_frame_of)
qed

theorem encode_decode_roundtrip_witness:
  "encode (BM_Ack \<lparr>ack_order_id = 258, ack_kind = Cancelled\<rparr>) (replicate 12 0)
     = Some (Inr 10, [3, 2, 1, 0, 0, 0, 0, 0, 0, 1, 0, 0])
   \<and> decode [3, 2, 1, 0, 0, 0, 0, 0, 0, 1] = Some (Inr (BM_Ack \<lparr>ack_order_id = 258, ack_kind = Cancelled\<rparr>))"
proof -
  have e: "encode (BM_Ack \<lparr>ack_order_id = 258, ack_kind = Cancelled\<rparr>) (replicate 12 0)
     = Some (Inr 10, [3, 2, 1, 0, 0, 0, 0, 0, 0, 1, 0, 0])"
    by code_simp
  show ?thesis using e encode_decode_roundtrip [OF e] by simp
qed

text \<open>
  C34. Round trip from bytes: a byte sequence decodes to a message exactly when it is that
  message's frame and the message is in range, so re-encoding reproduces the bytes.
\<close>

theorem decode_iff_frame:
  "decode bytes = Some (Inr m) \<longleftrightarrow> msg_in_range m \<and> bytes = frame_of m"
  using decode_inv decode_frame by blast

text \<open>
  Re-encoding a decoded message into any buffer that can hold it reproduces the bytes it came
  from and leaves the rest of the buffer alone.
\<close>

theorem decode_encode_roundtrip:
  assumes "decode bytes = Some (Inr m)" "length bytes \<le> length out"
  shows "encode m out = Some (Inr (length bytes), bytes @ drop (length bytes) out)"
  using decode_inv [OF assms(1)] assms(2) encode_in_range [of m out] by (simp add: length_frame_of)

theorem decode_encode_roundtrip_witness:
  "encode (BM_CancelOrder \<lparr>co_order_id = 7\<rparr>) (replicate 10 0xEE)
     = Some (Inr 9, [1, 7, 0, 0, 0, 0, 0, 0, 0, 0xEE])"
proof -
  have f: "frame_of (BM_CancelOrder \<lparr>co_order_id = 7\<rparr>) = [1, 7, 0, 0, 0, 0, 0, 0, 0]"
    by code_simp
  have "decode [1, 7, 0, 0, 0, 0, 0, 0, 0] = Some (Inr (BM_CancelOrder \<lparr>co_order_id = 7\<rparr>))"
    by (subst f [symmetric], rule decode_frame) (simp add: msg_in_range_def)
  from decode_encode_roundtrip [OF this, of "replicate 10 0xEE"] show ?thesis
    by (simp add: numeral_eq_Suc)
qed

text \<open>
  C35. Malformed input: decoding always returns, never reads outside the buffer, and names the
  error in the documented order: missing type byte, unknown type, too short, too long, and only
  then a field outside its range.
\<close>

theorem decode_error_classification:
  "\<exists>r. decode bytes = Some r \<and>
    (case bytes of
       [] \<Rightarrow> r = Inl insufficient_length
     | b # _ \<Rightarrow>
        (case message_type_from_byte b of
           None \<Rightarrow> r = Inl (unknown_type_error b)
         | Some t \<Rightarrow>
            if length bytes < the (message_len t) then r = Inl insufficient_length
            else if length bytes > the (message_len t) then r = Inl excess_trailing_bytes
            else (\<exists>m. r = Inr m) \<or> (\<exists>f. r = Inl (field_out_of_range f))))"
proof (cases bytes)
  case Nil
  then show ?thesis by (simp add: decode_def)
next
  case (Cons b bs)
  show ?thesis
  proof (cases "message_type_from_byte b")
    case None
    with Cons show ?thesis by (simp add: decode_def)
  next
    case (Some t)
    obtain n where n: "message_len t = Some n" by (cases t) (auto simp: message_len_def)
    show ?thesis
    proof (cases "length bytes = n")
      case True
      with decode_fields_total [of t bytes] Cons Some n obtain r where
        "decode bytes = Some r" "(\<exists>m. r = Inr m) \<or> (\<exists>f. r = Inl (field_out_of_range f))"
        by (auto simp: decode_def r_u8_def)
      with Cons Some n True show ?thesis by auto
    next
      case False
      with Cons Some n show ?thesis by (auto simp: decode_def)
    qed
  qed
qed

text \<open>
  C36. An out-of-range message is refused with the name of the first offending field; the
  encoder has by then already stored the type byte in the caller's buffer and touches nothing
  else.
\<close>

theorem encode_out_of_range_buffer:
  assumes "\<not> msg_in_range m" "encoded_len_of m \<le> length out"
  shows "encode m out = Some (Inl (field_out_of_range (bad_field m)),
           out[0 := message_type_as_byte (message_type_of m)])"
  using assms by (rule encode_out_of_range)

theorem encode_out_of_range_buffer_witness:
  "encode (BM_NewOrder \<lparr>no_order_id = 1, no_side = Buy, no_price_ticks = 0, no_quantity = 5, no_seq = 1\<rparr>)
     (replicate 30 7)
   = Some (Inl (field_out_of_range ''price_ticks''), 0 # replicate 29 7)"
proof -
  have "\<not> msg_in_range (BM_NewOrder \<lparr>no_order_id = 1, no_side = Buy, no_price_ticks = 0,
      no_quantity = 5, no_seq = 1\<rparr>)"
    by (simp add: msg_in_range_def price_ticks_in_range_def kMinPriceTicks_def)
  from encode_out_of_range_buffer [OF this, of "replicate 30 7"] show ?thesis
    by (simp add: encoded_len_of_def wire_lengths bad_field_def price_ticks_in_range_def
        kMinPriceTicks_def message_type_of_eq message_type_as_byte_def numeral_eq_Suc)
qed

end
