(* ===== verification/Engine_Processor.thy ===== *)
theory Engine_Processor
  imports Matching_Properties Ring_Buffer Codec
begin

text \<open>
  \<open>EngineProcessor\<close> of \<open>engine_processor.hpp\<close>: the single-threaded loop that takes decoded messages
  from the ingress ring, runs the matching engine and pushes the resulting events onto the egress
  ring.  The lambdas the code passes as sinks capture \<open>this\<close>; here they thread the processor, and
  the engine they run inside is written back afterwards.
\<close>

datatype StartupError = SE_None | InsufficientMemory

record EngineConfig =
  cfg_max_orders :: nat
  cfg_max_price_levels :: nat
  cfg_ingress_capacity :: nat
  cfg_egress_capacity :: nat
  cfg_force_reservation_failure :: bool

record EngineProcessor =
  ep_engine :: MatchingEngine
  ep_ingress :: "BinaryMessage RingBuffer"
  ep_egress :: "BinaryMessage RingBuffer"
  ep_processed_count :: u64
  ep_error_event_count :: u64
  ep_egress_overflow_count :: u64
  ep_operational :: bool
  ep_startup_error :: StartupError

definition initialize :: "EngineConfig \<Rightarrow> EngineProcessor \<Rightarrow> bool \<times> EngineProcessor" where
  "initialize config p =
     (let p = p\<lparr>ep_operational := False\<rparr>;
          book = me_book (ep_engine p);
          reservation_failed = (cfg_force_reservation_failure config
            \<or> cfg_max_orders config > pool_capacity (orders book)
            \<or> cfg_max_price_levels config > pool_capacity (levels book)
            \<or> cfg_ingress_capacity config > rb_capacity (ep_ingress p)
            \<or> cfg_egress_capacity config > rb_capacity (ep_egress p))
      in if reservation_failed then (False, p\<lparr>ep_startup_error := InsufficientMemory\<rparr>)
         else (True, p\<lparr>ep_engine := clear_retired ((ep_engine p)\<lparr>me_book := book_clear book\<rparr>),
                       ep_startup_error := SE_None, ep_operational := True\<rparr>))"

definition submit :: "BinaryMessage \<Rightarrow> EngineProcessor \<Rightarrow> (bool \<times> EngineProcessor) option" where
  "submit msg p = do {
     (ok, r) \<leftarrow> try_push msg (ep_ingress p);
     Some (ok, p\<lparr>ep_ingress := r\<rparr>)
   }"

definition emit :: "BinaryMessage \<Rightarrow> EngineProcessor \<Rightarrow> EngineProcessor option" where
  "emit event p = do {
     (ok, r) \<leftarrow> try_push event (ep_egress p);
     let p = p\<lparr>ep_egress := r\<rparr>;
     Some (if ok then p else p\<lparr>ep_egress_overflow_count := ep_egress_overflow_count p + 1\<rparr>)
   }"

definition kInvalidMessageReason :: RejectReason where
  "kInvalidMessageReason = IntegrityViolation"

definition invalid_message_order_id :: "BinaryMessage \<Rightarrow> u64" where
  "invalid_message_order_id msg =
     (case msg of BM_Trade t \<Rightarrow> tr_incoming_id t | BM_Ack a \<Rightarrow> ack_order_id a
      | BM_Reject r \<Rightarrow> rej_order_id r | _ \<Rightarrow> 0)"

definition count_error :: "EngineProcessor \<Rightarrow> EngineProcessor" where
  "count_error p = p\<lparr>ep_error_event_count := ep_error_event_count p + 1\<rparr>"

definition emit_invalid_message_error :: "BinaryMessage \<Rightarrow> EngineProcessor \<Rightarrow> EngineProcessor option" where
  "emit_invalid_message_error msg p = do {
     p \<leftarrow> emit (BM_Reject \<lparr>rej_order_id = invalid_message_order_id msg, rej_reason = kInvalidMessageReason\<rparr>) p;
     Some (count_error p)
   }"

definition dispatch :: "BinaryMessage \<Rightarrow> EngineProcessor \<Rightarrow> EngineProcessor option" where
  "dispatch msg p =
     (case msg of
        BM_NewOrder ord \<Rightarrow> do {
          (accepted, eng, p) \<leftarrow> process_new_order_checked (\<lambda>t. emit (BM_Trade t))
             (\<lambda>r p. do { p \<leftarrow> emit (BM_Reject r) p; Some (count_error p) }) ord (ep_engine p) p;
          let p = p\<lparr>ep_engine := eng\<rparr>;
          if accepted
          then emit (BM_Ack \<lparr>ack_order_id = no_order_id ord, ack_kind = Accepted\<rparr>) p
          else Some p
        }
      | BM_CancelOrder cancel \<Rightarrow> do {
          (_, eng, p) \<leftarrow> process_cancel_order (\<lambda>a. emit (BM_Ack a)) (\<lambda>r. emit (BM_Reject r)) cancel (ep_engine p) p;
          Some (p\<lparr>ep_engine := eng\<rparr>)
        }
      | _ \<Rightarrow> emit_invalid_message_error msg p)"

definition process_next :: "EngineProcessor \<Rightarrow> (bool \<times> EngineProcessor) option" where
  "process_next p =
     (if \<not> ep_operational p then Some (False, p)
      else do {
        (m, r) \<leftarrow> try_pop (ep_ingress p);
        (case m of
           None \<Rightarrow> Some (False, p\<lparr>ep_ingress := r\<rparr>)
         | Some msg \<Rightarrow> do {
             p \<leftarrow> dispatch msg (p\<lparr>ep_ingress := r, ep_processed_count := ep_processed_count p + 1\<rparr>);
             Some (True, p)
           })
      })"

text \<open>The \<open>while (process_next())\<close> loop of \<open>process_all\<close>, with its counter.\<close>

partial_function (option) process_all_from :: "u64 \<Rightarrow> EngineProcessor \<Rightarrow> (u64 \<times> EngineProcessor) option" where
  "process_all_from count p = do {
     (more, p) \<leftarrow> process_next p;
     if more then process_all_from (count + 1) p else Some (count, p)
   }"

declare process_all_from.simps [code]

definition process_all :: "EngineProcessor \<Rightarrow> (u64 \<times> EngineProcessor) option" where
  "process_all p = process_all_from 0 p"

definition next_event :: "EngineProcessor \<Rightarrow> (BinaryMessage option \<times> EngineProcessor) option" where
  "next_event p = do {
     (m, r) \<leftarrow> try_pop (ep_egress p);
     Some (m, p\<lparr>ep_egress := r\<rparr>)
   }"

text \<open>The observers.\<close>

definition operational :: "EngineProcessor \<Rightarrow> bool" where
  "operational p = ep_operational p"

definition startup_error :: "EngineProcessor \<Rightarrow> StartupError" where
  "startup_error p = ep_startup_error p"

definition processed_count :: "EngineProcessor \<Rightarrow> u64" where
  "processed_count p = ep_processed_count p"

definition error_event_count :: "EngineProcessor \<Rightarrow> u64" where
  "error_event_count p = ep_error_event_count p"

definition egress_overflow_count :: "EngineProcessor \<Rightarrow> u64" where
  "egress_overflow_count p = ep_egress_overflow_count p"

text \<open>
  A freshly constructed processor: operational, everything empty; the ring slots hold
  default-constructed messages, i.e. a zero \<open>NewOrder\<close>, the first alternative of the variant.
\<close>

definition default_message :: BinaryMessage where
  "default_message = BM_NewOrder \<lparr>no_order_id = 0, no_side = Buy, no_price_ticks = 0, no_quantity = 0, no_seq = 0\<rparr>"

definition processor_new :: "nat \<Rightarrow> nat \<Rightarrow> nat \<Rightarrow> nat \<Rightarrow> EngineProcessor" where
  "processor_new n m i g = \<lparr>ep_engine = engine_new n m,
     ep_ingress = rb_new default_message i,
     ep_egress = rb_new default_message g,
     ep_processed_count = 0, ep_error_event_count = 0, ep_egress_overflow_count = 0,
     ep_operational = True, ep_startup_error = SE_None\<rparr>"

subsection \<open>Specification\<close>

text \<open>What one message does to the abstract engine, and the events it causes.\<close>

definition a_dispatch :: "nat \<times> nat \<Rightarrow> BinaryMessage \<Rightarrow> AEngine \<Rightarrow> BinaryMessage list \<times> AEngine" where
  "a_dispatch cp msg a =
     (case msg of
        BM_NewOrder ord \<Rightarrow>
          (case validate_new_order ord of
             Some reason \<Rightarrow> ([BM_Reject \<lparr>rej_order_id = no_order_id ord, rej_reason = reason\<rparr>], a)
           | None \<Rightarrow> (map BM_Trade (fst (a_new_order cp ord a))
                      @ [BM_Ack \<lparr>ack_order_id = no_order_id ord, ack_kind = Accepted\<rparr>], snd (a_new_order cp ord a)))
      | BM_CancelOrder c \<Rightarrow>
          if co_order_id c \<in> a_resting a
          then ([BM_Ack \<lparr>ack_order_id = co_order_id c, ack_kind = Cancelled\<rparr>], a_cancel_order cp (co_order_id c) a)
          else ([BM_Reject \<lparr>rej_order_id = co_order_id c,
                   rej_reason = (if co_order_id c \<in> set (ae_hist a) then NoLongerResting else OrderNotFound)\<rparr>], a)
      | _ \<Rightarrow> ([BM_Reject \<lparr>rej_order_id = invalid_message_order_id msg, rej_reason = kInvalidMessageReason\<rparr>], a))"

fun a_run :: "nat \<times> nat \<Rightarrow> BinaryMessage list \<Rightarrow> AEngine \<Rightarrow> BinaryMessage list \<times> AEngine" where
  "a_run cp [] a = ([], a)"
| "a_run cp (m # ms) a =
     (case a_dispatch cp m a of (es, a') \<Rightarrow> case a_run cp ms a' of (fs, a'') \<Rightarrow> (es @ fs, a''))"

lemma a_run_append:
  "a_run cp (xs @ ys) a = (fst (a_run cp xs a) @ fst (a_run cp ys (snd (a_run cp xs a))), snd (a_run cp ys (snd (a_run cp xs a))))"
  by (induction xs arbitrary: a) (auto split: prod.splits)

text \<open>The messages that count as errors.\<close>

definition is_error :: "BinaryMessage \<Rightarrow> bool" where
  "is_error msg = (case msg of BM_NewOrder ord \<Rightarrow> validate_new_order ord \<noteq> None | BM_CancelOrder c \<Rightarrow> False | _ \<Rightarrow> True)"

text \<open>
  \<open>proc_rel cp p a ins outs\<close>: the processor represents the engine state \<open>a\<close>, has \<open>ins\<close> queued and
  \<open>outs\<close> waiting on the egress ring.
\<close>

definition proc_rel :: "nat \<times> nat \<Rightarrow> EngineProcessor \<Rightarrow> AEngine \<Rightarrow> BinaryMessage list \<Rightarrow> BinaryMessage list \<Rightarrow> bool" where
  "proc_rel cp p a ins outs \<longleftrightarrow> engine_rel cp (ep_engine p) a \<and> rb_inv (ep_ingress p) \<and> rb_items (ep_ingress p) = ins
     \<and> rb_inv (ep_egress p) \<and> rb_items (ep_egress p) = outs"

definition egress_cap :: "EngineProcessor \<Rightarrow> nat" where
  "egress_cap p = rb_capacity (ep_egress p)"

definition ingress_cap :: "EngineProcessor \<Rightarrow> nat" where
  "ingress_cap p = rb_capacity (ep_ingress p)"

text \<open>Emitting a list of events: those that fit are queued, the others are counted.\<close>

definition emitted :: "BinaryMessage list \<Rightarrow> EngineProcessor \<Rightarrow> EngineProcessor \<Rightarrow> bool" where
  "emitted es p p' \<longleftrightarrow> (\<exists>r. rb_inv r \<and> rb_capacity r = rb_capacity (ep_egress p)
     \<and> rb_items r = take (rb_capacity (ep_egress p)) (rb_items (ep_egress p) @ es)
     \<and> p' = p\<lparr>ep_egress := r, ep_egress_overflow_count := ep_egress_overflow_count p
           + of_nat (length (rb_items (ep_egress p)) + length es - rb_capacity (ep_egress p))\<rparr>)"

lemma emit_one:
  assumes "rb_inv (ep_egress p)"
  shows "\<exists>p'. emit e p = Some p' \<and> emitted [e] p p'"
  using assms
proof (cases rule: ring.push_cases [where x = e])
  case full
  then show ?thesis using assms by (auto simp: emit_def emitted_def intro!: exI [of _ "ep_egress p"])
next
  case (room q')
  then show ?thesis by (auto simp: emit_def emitted_def intro!: exI [of _ q'])
qed

lemma emitted_Nil: "rb_inv (ep_egress p) \<Longrightarrow> emitted [] p p"
  using ring.items_le_cap [of "ep_egress p"] by (auto simp: emitted_def intro!: exI [of _ "ep_egress p"])

lemma take_take_append: "take n (take n xs @ ys) = take n (xs @ ys)"
  by (cases "n \<le> length xs") auto

lemma emitted_append:
  assumes "rb_inv (ep_egress p)" "emitted es p p1" "emitted fs p1 p2"
  shows "emitted (es @ fs) p p2"
proof -
  let ?n = "rb_capacity (ep_egress p)" let ?xs = "rb_items (ep_egress p)"
  have k: "length ?xs \<le> ?n" using ring.items_le_cap [OF assms(1)] .
  from assms(2) obtain r1 where r1: "rb_capacity r1 = ?n" "rb_items r1 = take ?n (?xs @ es)"
    "p1 = p\<lparr>ep_egress := r1, ep_egress_overflow_count := ep_egress_overflow_count p + of_nat (length ?xs + length es - ?n)\<rparr>"
    unfolding emitted_def by blast
  from assms(3) obtain r2 where r2: "rb_inv r2" "rb_capacity r2 = ?n" "rb_items r2 = take ?n (rb_items r1 @ fs)"
    "p2 = p1\<lparr>ep_egress := r2, ep_egress_overflow_count := ep_egress_overflow_count p1 + of_nat (length (rb_items r1) + length fs - ?n)\<rparr>"
    unfolding emitted_def r1(3) using r1(1) by auto
  have n: "length ?xs + length (es @ fs) - ?n = (length ?xs + length es - ?n) + (length (rb_items r1) + length fs - ?n)"
    using k unfolding r1(2) by (simp add: min_def)
  have "rb_items r2 = take ?n (?xs @ es @ fs)"
    unfolding r2(3) r1(2) take_take_append by simp
  moreover have "p2 = p\<lparr>ep_egress := r2, ep_egress_overflow_count := ep_egress_overflow_count p + of_nat (length ?xs + length (es @ fs) - ?n)\<rparr>"
    unfolding n r2(4) r1(3) by (simp add: add.assoc)
  ultimately show ?thesis unfolding emitted_def using r2(1,2) by blast
qed

lemma emitted_inv: "emitted es p p' \<Longrightarrow> rb_inv (ep_egress p')"
  by (auto simp: emitted_def)

lemma for_each_emit:
  assumes "rb_inv (ep_egress p)"
  shows "\<exists>p'. for_each (\<lambda>t. emit (f t)) ts p = Some p' \<and> emitted (map f ts) p p'"
  using assms
proof (induction ts arbitrary: p)
  case (Cons t ts)
  from emit_one [OF Cons.prems, of "f t"] obtain p1 where p1: "emit (f t) p = Some p1" "emitted [f t] p p1" by blast
  from Cons.IH [OF emitted_inv [OF p1(2)]] obtain p2 where p2: "for_each (\<lambda>t. emit (f t)) ts p1 = Some p2"
    "emitted (map f ts) p1 p2" by blast
  from emitted_append [OF Cons.prems p1(2) p2(2)] p1(1) p2(1) show ?case by auto
qed (use emitted_Nil in auto)

lemma emit_engine: "emit e (p\<lparr>ep_engine := x\<rparr>) = map_option (\<lambda>p. p\<lparr>ep_engine := x\<rparr>) (emit e p)"
  by (auto simp: emit_def Let_def split: Option.bind_splits)

lemma emitted_sel:
  assumes "emitted es p p'"
  shows "ep_engine p' = ep_engine p" "ep_ingress p' = ep_ingress p" "ep_processed_count p' = ep_processed_count p"
    "ep_error_event_count p' = ep_error_event_count p" "ep_operational p' = ep_operational p"
    "ep_startup_error p' = ep_startup_error p" "rb_capacity (ep_egress p') = rb_capacity (ep_egress p)"
    "rb_items (ep_egress p') = take (rb_capacity (ep_egress p)) (rb_items (ep_egress p) @ es)"
    "ep_egress_overflow_count p' = ep_egress_overflow_count p
       + of_nat (length (rb_items (ep_egress p)) + length es - rb_capacity (ep_egress p))"
  using assms by (auto simp: emitted_def)

definition after_dispatch :: "BinaryMessage \<Rightarrow> MatchingEngine \<Rightarrow> EngineProcessor \<Rightarrow> EngineProcessor" where
  "after_dispatch msg eng p = p\<lparr>ep_engine := eng,
     ep_error_event_count := ep_error_event_count p + (if is_error msg then 1 else 0)\<rparr>"

lemma dispatch_invalid:
  assumes rel: "engine_rel cp (ep_engine p) a" and inv: "rb_inv (ep_egress p)"
    and msg: "\<And>x. msg \<noteq> BM_NewOrder x" "\<And>x. msg \<noteq> BM_CancelOrder x"
  shows "\<exists>p1 eng. emitted (fst (a_dispatch cp msg a)) p p1 \<and> dispatch msg p = Some (after_dispatch msg eng p1)
    \<and> engine_rel cp eng (snd (a_dispatch cp msg a))"
proof -
  let ?rej = "BM_Reject \<lparr>rej_order_id = invalid_message_order_id msg, rej_reason = kInvalidMessageReason\<rparr>"
  from emit_one [OF inv, of ?rej] obtain p1 where p1: "emit ?rej p = Some p1" "emitted [?rej] p p1" by blast
  have "a_dispatch cp msg a = ([?rej], a)" "is_error msg" "dispatch msg p = emit_invalid_message_error msg p"
    using msg by (cases msg; simp add: a_dispatch_def is_error_def dispatch_def)+
  moreover have "emit_invalid_message_error msg p = Some (after_dispatch msg (ep_engine p) p1)"
    using p1 \<open>is_error msg\<close> by (simp add: emit_invalid_message_error_def after_dispatch_def count_error_def emitted_sel [OF p1(2), symmetric])
  ultimately show ?thesis using p1(2) rel by auto
qed

lemma dispatch_new:
  assumes rel: "engine_rel cp (ep_engine p) a" and inv: "rb_inv (ep_egress p)" and msg: "msg = BM_NewOrder ord"
  shows "\<exists>p1 eng. emitted (fst (a_dispatch cp msg a)) p p1 \<and> dispatch msg p = Some (after_dispatch msg eng p1)
    \<and> engine_rel cp eng (snd (a_dispatch cp msg a))"
proof (cases "validate_new_order ord")
  case None
  from process_new_order_refines [OF rel, of "\<lambda>t. emit (BM_Trade t)" ord] obtain eng where
    run: "\<forall>st. process_new_order (\<lambda>t. emit (BM_Trade t)) ord (ep_engine p) st =
      map_option (\<lambda>st'. (eng, st')) (for_each (\<lambda>t. emit (BM_Trade t)) (fst (a_new_order cp ord a)) st)"
    and r: "engine_rel cp eng (snd (a_new_order cp ord a))" by blast
  from for_each_emit [OF inv, of BM_Trade "fst (a_new_order cp ord a)"] obtain p1 where
    p1: "for_each (\<lambda>t. emit (BM_Trade t)) (fst (a_new_order cp ord a)) p = Some p1"
      "emitted (map BM_Trade (fst (a_new_order cp ord a))) p p1" by blast
  let ?ack = "BM_Ack \<lparr>ack_order_id = no_order_id ord, ack_kind = Accepted\<rparr>"
  from emit_one [OF emitted_inv [OF p1(2)], of ?ack] obtain p2 where p2: "emit ?ack p1 = Some p2" "emitted [?ack] p1 p2" by blast
  have "dispatch msg p = Some (after_dispatch msg eng p2)"
    using msg None run p1(1) p2(1)
    by (simp add: dispatch_def process_new_order_checked_def emit_engine after_dispatch_def is_error_def)
  with emitted_append [OF inv p1(2) p2(2)] r msg None show ?thesis by (auto simp: a_dispatch_def)
next
  case (Some reason)
  let ?rej = "BM_Reject \<lparr>rej_order_id = no_order_id ord, rej_reason = reason\<rparr>"
  from emit_one [OF inv, of ?rej] obtain p1 where p1: "emit ?rej p = Some p1" "emitted [?rej] p p1" by blast
  then have "dispatch msg p = Some (after_dispatch msg (ep_engine p) p1)"
    using msg Some
    by (simp add: dispatch_def process_new_order_checked_def after_dispatch_def is_error_def count_error_def)
  with p1(2) rel msg Some show ?thesis by (auto simp: a_dispatch_def)
qed

lemma dispatch_cancel:
  assumes rel: "engine_rel cp (ep_engine p) a" and inv: "rb_inv (ep_egress p)" and msg: "msg = BM_CancelOrder c"
  shows "\<exists>p1 eng. emitted (fst (a_dispatch cp msg a)) p p1 \<and> dispatch msg p = Some (after_dispatch msg eng p1)
    \<and> engine_rel cp eng (snd (a_dispatch cp msg a))"
proof -
  from process_cancel_order_refines [OF rel, of "\<lambda>x. emit (BM_Ack x)" "\<lambda>x. emit (BM_Reject x)" c] obtain eng where
    run: "\<forall>st. process_cancel_order (\<lambda>x. emit (BM_Ack x)) (\<lambda>x. emit (BM_Reject x)) c (ep_engine p) st =
      (if co_order_id c \<in> a_resting a
       then map_option (\<lambda>st'. (True, eng, st')) (emit (BM_Ack \<lparr>ack_order_id = co_order_id c, ack_kind = Cancelled\<rparr>) st)
       else map_option (\<lambda>st'. (False, eng, st')) (emit (BM_Reject \<lparr>rej_order_id = co_order_id c,
              rej_reason = (if co_order_id c \<in> set (ae_hist a) then NoLongerResting else OrderNotFound)\<rparr>) st))"
    and r: "if co_order_id c \<in> a_resting a then engine_rel cp eng (a_cancel_order cp (co_order_id c) a) else eng = ep_engine p"
    by blast
  obtain e where e: "fst (a_dispatch cp msg a) = [e]" using msg by (cases "co_order_id c \<in> a_resting a") (auto simp: a_dispatch_def)
  from emit_one [OF inv, of e] obtain p1 where p1: "emit e p = Some p1" "emitted [e] p p1" by blast
  have "dispatch msg p = Some (after_dispatch msg eng p1)"
    using msg run p1(1) e
    by (cases "co_order_id c \<in> a_resting a") (auto simp: dispatch_def after_dispatch_def is_error_def a_dispatch_def)
  moreover have "engine_rel cp eng (snd (a_dispatch cp msg a))"
    using r rel msg by (auto simp: a_dispatch_def)
  ultimately show ?thesis using p1(2) e by auto
qed

lemma dispatch_ok:
  assumes rel: "engine_rel cp (ep_engine p) a" and inv: "rb_inv (ep_egress p)"
  shows "\<exists>p1 eng. emitted (fst (a_dispatch cp msg a)) p p1 \<and> dispatch msg p = Some (after_dispatch msg eng p1)
    \<and> engine_rel cp eng (snd (a_dispatch cp msg a))"
proof (cases msg)
  case (BM_NewOrder ord)
  then show ?thesis by (rule dispatch_new [OF rel inv])
next
  case (BM_CancelOrder c)
  then show ?thesis by (rule dispatch_cancel [OF rel inv])
qed (rule dispatch_invalid [OF rel inv], simp, simp)+

lemma process_next_ok:
  assumes rel: "proc_rel cp p a (m # ins) outs" and op: "ep_operational p"
    and d: "a_dispatch cp m a = (es, a')"
  shows "\<exists>p'. process_next p = Some (True, p') \<and> proc_rel cp p' a' ins (take (egress_cap p) (outs @ es))
    \<and> ep_operational p' \<and> egress_cap p' = egress_cap p \<and> ep_processed_count p' = ep_processed_count p + 1
    \<and> ep_error_event_count p' = ep_error_event_count p + (if is_error m then 1 else 0)
    \<and> ep_egress_overflow_count p' = ep_egress_overflow_count p + of_nat (length outs + length es - egress_cap p)
    \<and> ingress_cap p' = ingress_cap p"
proof -
  from rel have r: "engine_rel cp (ep_engine p) a" "rb_inv (ep_ingress p)" "rb_items (ep_ingress p) = m # ins"
    "rb_inv (ep_egress p)" "rb_items (ep_egress p) = outs" by (auto simp: proc_rel_def)
  from ring.pop_cons [OF r(2,3)] obtain q where q: "try_pop (ep_ingress p) = Some (Some m, q)" "rb_inv q" "rb_items q = ins"
    "rb_capacity q = rb_capacity (ep_ingress p)" by blast
  let ?p = "p\<lparr>ep_ingress := q, ep_processed_count := ep_processed_count p + 1\<rparr>"
  from dispatch_ok [of cp ?p a m] r(1,4) d obtain p1 eng where
    p1: "emitted es ?p p1" "dispatch m ?p = Some (after_dispatch m eng p1)" "engine_rel cp eng a'" by auto
  note S = emitted_sel [OF p1(1)] and I = emitted_inv [OF p1(1)]
  have "process_next p = Some (True, after_dispatch m eng p1)" using op q(1) p1(2) by (simp add: process_next_def)
  moreover have "proc_rel cp (after_dispatch m eng p1) a' ins (take (egress_cap p) (outs @ es))"
    using p1(3) S I q(2,3) r(5) by (simp add: proc_rel_def after_dispatch_def egress_cap_def)
  ultimately show ?thesis using S op r(5) q(4) by (simp add: after_dispatch_def egress_cap_def ingress_cap_def)
qed

lemma process_next_idle:
  "proc_rel cp p a [] outs \<Longrightarrow> process_next p = Some (False, p)"
  "\<not> ep_operational p \<Longrightarrow> process_next p = Some (False, p)"
  using ring.pop_nil [of "ep_ingress p"] by (auto simp: process_next_def proc_rel_def)

lemma process_all_from_ok:
  assumes "proc_rel cp p a ins outs" "ep_operational p" "a_run cp ins a = (es, a')" "length outs \<le> egress_cap p"
  shows "\<exists>p'. process_all_from n p = Some (n + of_nat (length ins), p')
    \<and> proc_rel cp p' a' [] (take (egress_cap p) (outs @ es)) \<and> ep_operational p' \<and> egress_cap p' = egress_cap p
    \<and> ep_processed_count p' = ep_processed_count p + of_nat (length ins)
    \<and> ep_error_event_count p' = ep_error_event_count p + of_nat (length (filter is_error ins))
    \<and> ep_egress_overflow_count p' = ep_egress_overflow_count p + of_nat (length outs + length es - egress_cap p)
    \<and> ingress_cap p' = ingress_cap p"
  using assms
proof (induction ins arbitrary: p a outs es n)
  case Nil
  then have "take (egress_cap p) outs = outs" by simp
  with Nil show ?case using process_next_idle(1) [OF Nil.prems(1)] by (subst process_all_from.simps) auto
next
  case (Cons m ins)
  obtain fs a1 where d: "a_dispatch cp m a = (fs, a1)" by (cases "a_dispatch cp m a")
  obtain gs where g: "a_run cp ins a1 = (gs, a')" "es = fs @ gs"
    using Cons.prems(3) d by (auto split: prod.splits)
  from process_next_ok [OF Cons.prems(1,2) d] obtain p1 where
    p1: "process_next p = Some (True, p1)" "proc_rel cp p1 a1 ins (take (egress_cap p) (outs @ fs))"
    "ep_operational p1" "egress_cap p1 = egress_cap p" "ep_processed_count p1 = ep_processed_count p + 1"
    "ep_error_event_count p1 = ep_error_event_count p + (if is_error m then 1 else 0)"
    "ep_egress_overflow_count p1 = ep_egress_overflow_count p + of_nat (length outs + length fs - egress_cap p)"
    "ingress_cap p1 = ingress_cap p" by blast
  let ?o = "take (egress_cap p) (outs @ fs)"
  have "length ?o \<le> egress_cap p1" using p1(4) by simp
  from Cons.IH [OF p1(2,3) g(1) this, of "n + 1"] obtain p2 where
    p2: "process_all_from (n + 1) p1 = Some (n + 1 + of_nat (length ins), p2)"
    "proc_rel cp p2 a' [] (take (egress_cap p1) (?o @ gs))" "ep_operational p2" "egress_cap p2 = egress_cap p1"
    "ep_processed_count p2 = ep_processed_count p1 + of_nat (length ins)"
    "ep_error_event_count p2 = ep_error_event_count p1 + of_nat (length (filter is_error ins))"
    "ep_egress_overflow_count p2 = ep_egress_overflow_count p1 + of_nat (length ?o + length gs - egress_cap p1)"
    "ingress_cap p2 = ingress_cap p1" by blast
  have o: "take (egress_cap p1) (?o @ gs) = take (egress_cap p) (outs @ es)"
    using g(2) p1(4) by (simp add: take_take_append del: take_append)
  have c: "(length outs + length fs - egress_cap p) + (length ?o + length gs - egress_cap p)
      = length outs + length es - egress_cap p"
    using Cons.prems(4) g(2) by (simp add: min_def)
  show ?case
    using p1 p2 o unfolding c [symmetric] of_nat_add
    by (subst process_all_from.simps) (simp add: algebra_simps)
qed

text \<open>The counters of the processor together: processed, errors, overflowed.\<close>

definition stats :: "EngineProcessor \<Rightarrow> u64 \<times> u64 \<times> u64" where
  "stats p = (processed_count p, error_event_count p, egress_overflow_count p)"

fun add_stats :: "nat \<Rightarrow> nat \<Rightarrow> nat \<Rightarrow> u64 \<times> u64 \<times> u64 \<Rightarrow> u64 \<times> u64 \<times> u64" where
  "add_stats i j k (a, b, c) = (a + of_nat i, b + of_nat j, c + of_nat k)"

lemma stats_rings [simp]: "stats (p\<lparr>ep_ingress := r\<rparr>) = stats p" "stats (p\<lparr>ep_egress := r\<rparr>) = stats p"
  by (simp_all add: stats_def processed_count_def error_event_count_def egress_overflow_count_def)

lemma submit_shape:
  assumes "proc_rel cp p a ins outs"
  shows "\<exists>q. submit m p = Some (length ins < ingress_cap p, p\<lparr>ep_ingress := q\<rparr>)
    \<and> proc_rel cp (p\<lparr>ep_ingress := q\<rparr>) a (take (ingress_cap p) (ins @ [m])) outs
    \<and> rb_capacity q = ingress_cap p"
proof -
  from assms have i: "rb_inv (ep_ingress p)" "rb_items (ep_ingress p) = ins" by (auto simp: proc_rel_def)
  from i(1) show ?thesis
  proof (cases rule: ring.push_cases [where x = m])
    case full
    then have "submit m p = Some (False, p\<lparr>ep_ingress := ep_ingress p\<rparr>)" "take (ingress_cap p) (ins @ [m]) = ins"
      using i by (simp_all add: submit_def ingress_cap_def)
    with full assms i show ?thesis by (intro exI [of _ "ep_ingress p"]) (simp add: ingress_cap_def)
  next
    case (room q)
    then have "take (ingress_cap p) (ins @ [m]) = ins @ [m]" using i by (simp add: ingress_cap_def)
    with room assms i show ?thesis by (intro exI [of _ q]) (simp add: submit_def proc_rel_def ingress_cap_def)
  qed
qed

subsection \<open>Events fit the wire format\<close>

lemma encoded_len_max: "encoded_len_of m \<le> kMaxMessageLen"
  by (cases m) (simp_all add: encoded_len_of_def kMaxMessageLen_def wire_lengths)

lemma trades_in_range:
  assumes "book_inv (ae_book a)" "t \<in> set (fst (a_new_order cp ord a))"
  shows "msg_in_range (BM_Trade t)"
proof -
  obtain fs q ys where m: "match_flat (no_side ord) (no_price_ticks ord) (no_quantity ord) (ae_book a (opposite (no_side ord))) = (fs, q, ys)"
    by (cases "match_flat (no_side ord) (no_price_ticks ord) (no_quantity ord) (ae_book a (opposite (no_side ord)))") auto
  with assms(2) obtain k where k: "k < length fs" "t = trades_of (ae_seq a) (no_order_id ord) fs ! k"
    by (auto simp: a_new_order_def in_set_conv_nth)
  let ?f = "fs ! k"
  have f: "?f \<in> set fs" using k(1) by simp
  note P = match_flat_priority [OF m]
  have "fst ?f \<in> set (map fst fs)" using f by simp
  with P have "fst ?f \<in> set (ae_book a (opposite (no_side ord)))" by (metis in_set_takeD)
  with assms(1) have v: "order_valid (fst ?f)" by (simp add: book_inv_def)
  have v2: "snd ?f \<le> ao_qty (fst ?f)" using P f by blast
  have "\<forall>x\<in>set (ae_book a (opposite (no_side ord))). 0 < ao_qty x"
    using assms(1) by (auto simp: book_inv_def order_valid_def kMinEngineQuantity_def word_le_nat_alt word_less_nat_alt Suc_le_eq)
  with fill_positive [OF m] f have "0 < snd ?f" by blast
  with v v2 show ?thesis
    by (auto simp: k(2) trades_of_nth [OF k(1)] trade_of_def msg_in_range_def price_ticks_in_range_def quantity_in_range_def
        order_valid_def kMinGatewayQuantity_def kMaxGatewayQuantity_def kMaxEngineQuantity_def word_le_nat_alt word_less_nat_alt Suc_le_eq)
qed

lemma dispatch_inv:
  assumes "book_inv (ae_book a)" "a_dispatch cp msg a = (es, a')"
  shows "book_inv (ae_book a') \<and> (\<forall>e\<in>set es. msg_in_range e)"
proof (cases msg)
  case (BM_NewOrder ord)
  then show ?thesis
    using assms trades_in_range [OF assms(1), of _ cp ord] new_order_keeps_inv [OF assms(1), of ord cp]
    by (auto simp: a_dispatch_def msg_in_range_def split: option.splits)
next
  case (BM_CancelOrder c)
  then show ?thesis using assms cancel_keeps_inv [OF assms(1), of "co_order_id c"]
    by (auto simp: a_dispatch_def msg_in_range_def a_cancel_order_def split: if_splits)
qed (use assms in \<open>auto simp: a_dispatch_def msg_in_range_def\<close>)

subsection \<open>Theorems\<close>

text \<open>
  The processing loop: \<open>process_all\<close> returns, having taken every queued message in arrival
  order; the engine state and the events are those of running the specification over the queue;
  the events join the egress ring in order as far as it has room, the others are dropped and
  counted; the counters say how many messages and how many errors there were.
\<close>

theorem process_all_runs_queue:
  assumes "proc_rel cp p a ins outs" "ep_operational p" "a_run cp ins a = (es, a')"
  shows "\<exists>p'. process_all p = Some (of_nat (length ins), p')
    \<and> proc_rel cp p' a' [] (take (egress_cap p) (outs @ es))
    \<and> ep_processed_count p' = ep_processed_count p + of_nat (length ins)
    \<and> ep_error_event_count p' = ep_error_event_count p + of_nat (length (filter is_error ins))
    \<and> ep_egress_overflow_count p' = ep_egress_overflow_count p + of_nat (length outs + length es - egress_cap p)"
proof -
  have "length outs \<le> egress_cap p" using assms(1) ring.items_le_cap by (auto simp: proc_rel_def egress_cap_def)
  from process_all_from_ok [OF assms this, of 0] show ?thesis unfolding process_all_def by auto
qed

definition demo_processor :: EngineProcessor where
  "demo_processor = the (for_each (\<lambda>m p. map_option snd (submit m p))
     [BM_NewOrder (demo_order 1 Sell 100 4 1), BM_NewOrder (demo_order 2 Buy 120 3 2), BM_CancelOrder \<lparr>co_order_id = 5\<rparr>]
     (processor_new 4 3 8 3))"

lemma processor_new_rel:
  assumes "0 < n" "n \<le> kNullNode" "0 < m" "m \<le> kNullNode" "0 < i" "0 < g"
  shows "proc_rel (n, m) (processor_new n m i g) \<lparr>ae_book = (\<lambda>_. []), ae_seq = 1, ae_hist = []\<rparr> [] []"
  using engine_new_rel [OF assms(1-4)] rb_new_inv [OF assms(5), of default_message] rb_new_inv [OF assms(6), of default_message]
  by (simp add: proc_rel_def processor_new_def)

lemma submit_ok:
  assumes "proc_rel cp p a ins outs"
  shows "\<exists>ok p'. submit m p = Some (ok, p') \<and> ok = (length ins < rb_capacity (ep_ingress p))
    \<and> proc_rel cp p' a (if ok then ins @ [m] else ins) outs \<and> ep_operational p' = ep_operational p
    \<and> (\<not> ok \<longrightarrow> p' = p)"
proof -
  from assms have i: "rb_inv (ep_ingress p)" "rb_items (ep_ingress p) = ins" by (auto simp: proc_rel_def)
  from i(1) show ?thesis
  proof (cases rule: ring.push_cases [where x = m])
    case full
    then show ?thesis using assms i by (auto simp: submit_def proc_rel_def)
  next
    case (room q)
    then show ?thesis using assms i by (auto simp: submit_def proc_rel_def)
  qed
qed

lemma demo_processor_rel:
  "proc_rel (4, 3) demo_processor \<lparr>ae_book = (\<lambda>_. []), ae_seq = 1, ae_hist = []\<rparr>
     [BM_NewOrder (demo_order 1 Sell 100 4 1), BM_NewOrder (demo_order 2 Buy 120 3 2), BM_CancelOrder \<lparr>co_order_id = 5\<rparr>] []"
proof -
  have e: "ep_engine demo_processor = ep_engine (processor_new 4 3 8 3)"
    "ep_egress demo_processor = ep_egress (processor_new 4 3 8 3)" by code_simp+
  have "rb_items (ep_ingress demo_processor) =
     [BM_NewOrder (demo_order 1 Sell 100 4 1), BM_NewOrder (demo_order 2 Buy 120 3 2), BM_CancelOrder \<lparr>co_order_id = 5\<rparr>]"
    "rb_inv (ep_ingress demo_processor)" by code_simp+
  with processor_new_rel [of 4 3 8 3] e show ?thesis by (simp add: proc_rel_def kNullNode_def)
qed

theorem process_all_runs_queue_witness:
  "\<exists>p' a'. process_all demo_processor = Some (3, p')
    \<and> proc_rel (4, 3) p' a' [] [BM_Ack \<lparr>ack_order_id = 1, ack_kind = Accepted\<rparr>,
        BM_Trade \<lparr>tr_exec_seq = 1, tr_price_ticks = 100, tr_quantity = 3, tr_incoming_id = 2, tr_resting_id = 1\<rparr>,
        BM_Ack \<lparr>ack_order_id = 2, ack_kind = Accepted\<rparr>]
    \<and> ep_egress_overflow_count p' = 1"
proof -
  let ?a = "\<lparr>ae_book = (\<lambda>_. []), ae_seq = 1, ae_hist = []\<rparr>"
  let ?ins = "[BM_NewOrder (demo_order 1 Sell 100 4 1), BM_NewOrder (demo_order 2 Buy 120 3 2), BM_CancelOrder \<lparr>co_order_id = 5\<rparr>]"
  let ?es = "[BM_Ack \<lparr>ack_order_id = 1, ack_kind = Accepted\<rparr>,
        BM_Trade \<lparr>tr_exec_seq = 1, tr_price_ticks = 100, tr_quantity = 3, tr_incoming_id = 2, tr_resting_id = 1\<rparr>,
        BM_Ack \<lparr>ack_order_id = 2, ack_kind = Accepted\<rparr>, BM_Reject \<lparr>rej_order_id = 5, rej_reason = OrderNotFound\<rparr>]"
  have "fst (a_run (4, 3) ?ins ?a) = ?es" by code_simp
  then have r: "a_run (4, 3) ?ins ?a = (?es, snd (a_run (4, 3) ?ins ?a))" by (metis prod.collapse)
  have "ep_operational demo_processor" "egress_cap demo_processor = 3" "ep_egress_overflow_count demo_processor = 0" by code_simp+
  with process_all_runs_queue [OF demo_processor_rel _ r] show ?thesis by auto
qed

text \<open>The identifier a message is about, and the events that end its processing.\<close>

definition subject_id :: "BinaryMessage \<Rightarrow> u64" where
  "subject_id m = (case m of BM_NewOrder x \<Rightarrow> no_order_id x | BM_CancelOrder c \<Rightarrow> co_order_id c | _ \<Rightarrow> invalid_message_order_id m)"

definition terminal :: "BinaryMessage \<Rightarrow> BinaryMessage \<Rightarrow> bool" where
  "terminal m e = (case e of BM_Ack x \<Rightarrow> ack_order_id x = subject_id m \<and> \<not> is_error m
     | BM_Reject r \<Rightarrow> rej_order_id r = subject_id m | _ \<Rightarrow> False)"

lemma a_dispatch_terminal:
  "\<exists>ts t. fst (a_dispatch cp m a) = map BM_Trade ts @ [t] \<and> terminal m t
     \<and> (\<forall>x\<in>set ts. tr_incoming_id x = subject_id m) \<and> (ts \<noteq> [] \<longrightarrow> (\<exists>x. m = BM_NewOrder x \<and> \<not> is_error m))"
proof (cases m)
  case (BM_NewOrder ord)
  have "\<forall>x\<in>set (fst (a_new_order cp ord a)). tr_incoming_id x = no_order_id ord"
  proof -
    have "\<forall>x\<in>set (trades_of n i fs). tr_incoming_id x = i" for n i fs
      by (induction fs arbitrary: n) (auto simp: trade_of_def)
    then show ?thesis by (simp add: a_new_order_def Let_def split: prod.splits)
  qed
  with BM_NewOrder show ?thesis
    by (cases "validate_new_order ord") (auto simp: a_dispatch_def terminal_def subject_id_def is_error_def)
next
  case (BM_CancelOrder c)
  then show ?thesis
    by (cases "co_order_id c \<in> a_resting a") (auto simp: a_dispatch_def terminal_def subject_id_def is_error_def)
qed (auto simp: a_dispatch_def terminal_def subject_id_def)

text \<open>The orders the engine takes, in plain numbers, and the reason given for the others.\<close>

definition acceptable :: "NewOrder \<Rightarrow> bool" where
  "acceptable ord \<longleftrightarrow> 1 \<le> unat (no_quantity ord) \<and> unat (no_quantity ord) \<le> 1000000
     \<and> 1 \<le> unat (no_price_ticks ord) \<and> unat (no_price_ticks ord) \<le> 99999999999"

definition refusal :: "BinaryMessage \<Rightarrow> RejectReason" where
  "refusal m = (case m of BM_NewOrder ord \<Rightarrow> if 1 \<le> unat (no_quantity ord) \<and> unat (no_quantity ord) \<le> 1000000 then InvalidPrice else InvalidQuantity
     | _ \<Rightarrow> kInvalidMessageReason)"

lemma validate_acceptable:
  "validate_new_order ord = (if acceptable ord then None else Some (refusal (BM_NewOrder ord)))"
proof -
  have "no_quantity ord < kMinEngineQuantity \<or> no_quantity ord > kMaxEngineQuantity \<longleftrightarrow> \<not> (1 \<le> unat (no_quantity ord) \<and> unat (no_quantity ord) \<le> 1000000)"
    by (auto simp: kMinEngineQuantity_def kMaxEngineQuantity_def word_less_nat_alt)
  moreover have "no_price_ticks ord < kMinPriceTicks \<or> no_price_ticks ord > kMaxPriceTicks \<longleftrightarrow> \<not> (1 \<le> unat (no_price_ticks ord) \<and> unat (no_price_ticks ord) \<le> 99999999999)"
    by (auto simp: kMinPriceTicks_def kMaxPriceTicks_def word_less_nat_alt)
  ultimately show ?thesis unfolding validate_new_order_def acceptable_def refusal_def by simp
qed

lemma a_dispatch_error:
  assumes "is_error m"
  shows "a_dispatch cp m a = ([BM_Reject \<lparr>rej_order_id = subject_id m, rej_reason = refusal m\<rparr>], a)"
  using assms by (cases m) (auto simp: is_error_def a_dispatch_def subject_id_def refusal_def validate_acceptable split: if_splits)

text \<open>
  C16. One answer per message: an operational processor with a queued message processes exactly the
  oldest one.  It causes trades of that order, if it is an acceptable new order, and then exactly
  one acknowledgement or rejection carrying the message's identifier; a new order is acknowledged
  iff its quantity and its price are in range.  As long as the egress ring has room these events are
  all queued behind the earlier ones.  When it has not, the answer is not queued: the ring keeps
  what fits of the trades, and the lost events, the answer among them, are counted.
\<close>

theorem one_answer_per_message:
  assumes "proc_rel cp p a (m # ins) outs" "ep_operational p"
  shows "\<exists>p' a' ts t. process_next p = Some (True, p') \<and> ep_operational p'
    \<and> terminal m t \<and> (\<forall>ord. m = BM_NewOrder ord \<longrightarrow> ((\<exists>k. t = BM_Ack k) \<longleftrightarrow> acceptable ord))
    \<and> (\<forall>x\<in>set ts. tr_incoming_id x = subject_id m) \<and> (ts \<noteq> [] \<longrightarrow> (\<exists>ord. m = BM_NewOrder ord \<and> acceptable ord))
    \<and> (if length outs + length ts < egress_cap p
       then proc_rel cp p' a' ins (outs @ map BM_Trade ts @ [t]) \<and> egress_overflow_count p' = egress_overflow_count p
       else proc_rel cp p' a' ins (take (egress_cap p) (outs @ map BM_Trade ts))
         \<and> egress_overflow_count p' = egress_overflow_count p + of_nat (Suc (length outs + length ts - egress_cap p)))"
proof -
  from a_dispatch_terminal [of cp m a] obtain ts t where
    t: "fst (a_dispatch cp m a) = map BM_Trade ts @ [t]" "terminal m t" "\<forall>x\<in>set ts. tr_incoming_id x = subject_id m"
      "ts \<noteq> [] \<longrightarrow> (\<exists>x. m = BM_NewOrder x \<and> \<not> is_error m)" by blast
  then have "a_dispatch cp m a = (map BM_Trade ts @ [t], snd (a_dispatch cp m a))" by (metis prod.collapse)
  from process_next_ok [OF assms this] obtain p' where
    p': "process_next p = Some (True, p')" "proc_rel cp p' (snd (a_dispatch cp m a)) ins (take (egress_cap p) (outs @ map BM_Trade ts @ [t]))"
      "ep_operational p'" "egress_overflow_count p' = egress_overflow_count p + of_nat (length outs + Suc (length ts) - egress_cap p)"
    by (auto simp: egress_overflow_count_def)
  have "(\<exists>k. t = BM_Ack k) \<longleftrightarrow> acceptable ord" if "m = BM_NewOrder ord" for ord
    using that t(1) by (cases "validate_new_order ord") (auto simp: a_dispatch_def validate_acceptable split: if_splits)
  moreover have "\<exists>ord. m = BM_NewOrder ord \<and> acceptable ord" if "ts \<noteq> []"
    using that t(4) by (auto simp: is_error_def validate_acceptable split: if_splits)
  moreover have "length outs + Suc (length ts) - egress_cap p = Suc (length outs + length ts - egress_cap p)"
    if "\<not> length outs + length ts < egress_cap p" using that by simp
  ultimately show ?thesis using p' t(2,3)
    by (intro exI [of _ p'] exI [of _ "snd (a_dispatch cp m a)"] exI [of _ ts] exI [of _ t]) auto
qed

theorem one_answer_per_message_witness:
  "\<exists>p' t. process_next demo_processor = Some (True, p') \<and> terminal (BM_NewOrder (demo_order 1 Sell 100 4 1)) t \<and> (\<exists>k. t = BM_Ack k)"
proof -
  have op: "ep_operational demo_processor" by code_simp
  from one_answer_per_message [OF demo_processor_rel op] obtain p' t where
    W: "process_next demo_processor = Some (True, p')" "terminal (BM_NewOrder (demo_order 1 Sell 100 4 1)) t"
      "\<forall>ord. BM_NewOrder (demo_order 1 Sell 100 4 1) = BM_NewOrder ord \<longrightarrow> ((\<exists>k. t = BM_Ack k) \<longleftrightarrow> acceptable ord)"
    by (elim exE conjE) (rule that, assumption+)
  have "acceptable (demo_order 1 Sell 100 4 1)" by (simp add: acceptable_def demo_order_def)
  then have "\<exists>k. t = BM_Ack k" using W(3) [THEN spec, THEN mp, OF refl] by (simp only: simp_thms)
  with W(1,2) show ?thesis by (intro exI [of _ p'] exI [of _ t] conjI)
qed

text \<open>
  C23. A message the engine refuses leaves no trace: processing a queue with it and the same queue
  without it, wherever it stands among the other messages, ends in the same engine state with the
  same events, except for its one rejection in its place, carrying its identifier and the reason
  (quantity before price for an order out of range), and for one more processed message and one
  more error counted.  The egress ring has room for all events.
\<close>

theorem refused_messages_leave_no_trace:
  assumes "is_error m" "proc_rel cp p a (xs @ m # ys) outs" "proc_rel cp q a (xs @ ys) outs" "ep_operational p" "ep_operational q"
    and "length outs + length (fst (a_run cp (xs @ ys) a)) < egress_cap p" "egress_cap q = egress_cap p"
  shows "\<exists>p' q' a' es fs. process_all p = Some (of_nat (length xs + length ys) + 1, p') \<and> process_all q = Some (of_nat (length xs + length ys), q')
    \<and> proc_rel cp q' a' [] (outs @ es @ fs)
    \<and> proc_rel cp p' a' [] (outs @ es @ BM_Reject \<lparr>rej_order_id = subject_id m, rej_reason = refusal m\<rparr> # fs)
    \<and> fst (a_run cp xs a) = es
    \<and> error_event_count p' - error_event_count p = error_event_count q' - error_event_count q + 1
    \<and> (\<forall>ord. m = BM_NewOrder ord \<longrightarrow> \<not> acceptable ord)"
proof -
  obtain es a1 where x: "a_run cp xs a = (es, a1)" by (cases "a_run cp xs a")
  obtain fs a' where y: "a_run cp ys a1 = (fs, a')" by (cases "a_run cp ys a1")
  let ?r = "BM_Reject \<lparr>rej_order_id = subject_id m, rej_reason = refusal m\<rparr>"
  have kept: "a_run cp (xs @ m # ys) a = (es @ ?r # fs, a')" and without: "a_run cp (xs @ ys) a = (es @ fs, a')"
    using x y a_dispatch_error [OF assms(1), of cp a1] by (simp_all add: a_run_append)
  have "\<not> acceptable ord" if "m = BM_NewOrder ord" for ord using that assms(1) by (auto simp: is_error_def validate_acceptable)
  moreover have "length (outs @ es @ ?r # fs) \<le> egress_cap p" "length (outs @ es @ fs) \<le> egress_cap q"
    using assms(6,7) without by simp_all
  ultimately show ?thesis
    using process_all_runs_queue [OF assms(2,4) kept] process_all_runs_queue [OF assms(3,5) without] x assms(1)
    by (auto simp: error_event_count_def add.commute intro!: exI [of _ es] exI [of _ fs])
qed

definition demo_queue :: "BinaryMessage list \<Rightarrow> EngineProcessor" where
  "demo_queue ms = the (for_each (\<lambda>m p. map_option snd (submit m p)) ms (processor_new 4 3 8 8))"

theorem refused_messages_leave_no_trace_witness:
  "\<exists>p' a' es fs. process_all (demo_queue [BM_NewOrder (demo_order 1 Sell 100 4 1), BM_NewOrder (demo_order 9 Buy 100 0 2), BM_CancelOrder \<lparr>co_order_id = 1\<rparr>])
      = Some (3, p')
    \<and> proc_rel (4, 3) p' a' [] (es @ BM_Reject \<lparr>rej_order_id = 9, rej_reason = InvalidQuantity\<rparr> # fs)"
proof -
  let ?x = "BM_NewOrder (demo_order 1 Sell 100 4 1)" let ?m = "BM_NewOrder (demo_order 9 Buy 100 0 2)" let ?y = "BM_CancelOrder \<lparr>co_order_id = 1\<rparr>"
  let ?a = "\<lparr>ae_book = (\<lambda>_. []), ae_seq = 1, ae_hist = []\<rparr>" let ?p = "demo_queue [?x, ?m, ?y]" let ?q = "demo_queue [?x, ?y]"
  have e: "ep_engine ?p = ep_engine (processor_new 4 3 8 8)" "ep_egress ?p = ep_egress (processor_new 4 3 8 8)"
    "rb_items (ep_ingress ?p) = [?x, ?m, ?y]" "rb_inv (ep_ingress ?p)"
    "ep_engine ?q = ep_engine (processor_new 4 3 8 8)" "ep_egress ?q = ep_egress (processor_new 4 3 8 8)"
    "rb_items (ep_ingress ?q) = [?x, ?y]" "rb_inv (ep_ingress ?q)" by code_simp+
  then have r: "proc_rel (4, 3) ?p ?a ([?x] @ ?m # [?y]) []" "proc_rel (4, 3) ?q ?a ([?x] @ [?y]) []"
    using processor_new_rel [of 4 3 8 8] by (simp_all add: proc_rel_def kNullNode_def)
  have o: "is_error ?m" "ep_operational ?p" "ep_operational ?q" "egress_cap ?q = egress_cap ?p"
    "length ([] :: BinaryMessage list) + length (fst (a_run (4, 3) ([?x] @ [?y]) ?a)) < egress_cap ?p" by code_simp+
  have m: "subject_id ?m = 9" "refusal ?m = InvalidQuantity" "(of_nat (length [?x] + length [?y]) + 1 :: u64) = 3" by code_simp+
  from refused_messages_leave_no_trace [OF o(1) r o(2,3,5,4), unfolded m append_Nil] show ?thesis
    by (elim exE conjE) (intro exI conjI, assumption+)
qed

text \<open>The check of \<open>initialize\<close> as one predicate on the configuration.\<close>

definition config_fits :: "EngineConfig \<Rightarrow> EngineProcessor \<Rightarrow> bool" where
  "config_fits config p \<longleftrightarrow> \<not> cfg_force_reservation_failure config
     \<and> cfg_max_orders config \<le> fst (caps (me_book (ep_engine p)))
     \<and> cfg_max_price_levels config \<le> snd (caps (me_book (ep_engine p)))
     \<and> cfg_ingress_capacity config \<le> rb_capacity (ep_ingress p) \<and> cfg_egress_capacity config \<le> rb_capacity (ep_egress p)"

lemma startup_rel:
  assumes "proc_rel cp p a ins outs" "initialize config p = (ok, p')"
  shows "ok = config_fits config p \<and> ep_operational p' = ok
    \<and> (if ok then ep_startup_error p' = SE_None
         \<and> proc_rel cp p' \<lparr>ae_book = (\<lambda>_. []), ae_seq = ae_seq a, ae_hist = []\<rparr> ins outs
       else ep_startup_error p' = InsufficientMemory \<and> proc_rel cp p' a ins outs
         \<and> process_next p' = Some (False, p') \<and> process_all p' = Some (0, p'))"
proof -
  from assms(1) have e: "engine_rel cp (ep_engine p) a" by (simp add: proc_rel_def)
  then have b: "book_rel (me_book (ep_engine p)) (ae_book a)" and rs: "rs_rel (me_retired (ep_engine p)) (ae_hist a)"
    by (auto simp: engine_rel_def)
  have clr: "book_rel (book_clear (me_book (ep_engine p))) (\<lambda>_. [])"
    "caps (book_clear (me_book (ep_engine p))) = caps (me_book (ep_engine p))"
    using book_cleared [of "me_book (ep_engine p)"] book_rel_caps [OF b] by simp_all
  have ok: "ok = config_fits config p"
    using assms(2) by (auto simp: initialize_def Let_def config_fits_def caps_def not_less split: if_splits)
  show ?thesis
  proof (cases ok)
    case True
    with assms(2) have p': "p' = p\<lparr>ep_engine := clear_retired ((ep_engine p)\<lparr>me_book := book_clear (me_book (ep_engine p))\<rparr>),
        ep_startup_error := SE_None, ep_operational := True\<rparr>"
      by (auto simp: initialize_def Let_def split: if_splits)
    have "engine_rel cp (ep_engine p') \<lparr>ae_book = (\<lambda>_. []), ae_seq = ae_seq a, ae_hist = []\<rparr>"
      using e clr rs_clear_ok [OF rs] unfolding p' by (simp add: engine_rel_def clear_retired_def)
    with True ok p' assms(1) show ?thesis by (simp add: proc_rel_def)
  next
    case False
    with assms(2) have p': "p' = p\<lparr>ep_operational := False, ep_startup_error := InsufficientMemory\<rparr>"
      by (auto simp: initialize_def Let_def split: if_splits)
    then have "process_next p' = Some (False, p')" by (intro process_next_idle(2)) simp
    moreover from this have "process_all p' = Some (0, p')" unfolding process_all_def by (subst process_all_from.simps) simp
    ultimately show ?thesis using False ok p' assms(1) by (simp add: proc_rel_def)
  qed
qed

text \<open>
  C32. Startup: \<open>initialize\<close> succeeds exactly when the requested capacities fit and no failure is
  injected; then the processor is operational with an empty book and no history.  Otherwise it is
  not operational, reports \<open>InsufficientMemory\<close>, keeps its engine and rings, and from then on
  neither \<open>process_next\<close> nor \<open>process_all\<close> touches a message.
\<close>

theorem startup_all_or_nothing:
  assumes "proc_rel cp p a ins outs" "initialize config p = (ok, p')"
  shows "ok = config_fits config p \<and> ep_operational p' = ok
    \<and> (if ok then ep_startup_error p' = SE_None
         \<and> proc_rel cp p' \<lparr>ae_book = (\<lambda>_. []), ae_seq = ae_seq a, ae_hist = []\<rparr> ins outs
       else ep_startup_error p' = InsufficientMemory \<and> proc_rel cp p' a ins outs
         \<and> process_next p' = Some (False, p') \<and> process_all p' = Some (0, p'))"
  using assms by (rule startup_rel)

theorem startup_all_or_nothing_witness:
  "\<exists>p'. initialize \<lparr>cfg_max_orders = 5, cfg_max_price_levels = 3, cfg_ingress_capacity = 8, cfg_egress_capacity = 3,
      cfg_force_reservation_failure = False\<rparr> demo_processor = (False, p')
    \<and> ep_startup_error p' = InsufficientMemory \<and> process_all p' = Some (0, p')"
proof -
  let ?c = "\<lparr>cfg_max_orders = 5, cfg_max_price_levels = 3, cfg_ingress_capacity = 8, cfg_egress_capacity = 3,
      cfg_force_reservation_failure = False\<rparr>"
  obtain ok p' where i: "initialize ?c demo_processor = (ok, p')" by (cases "initialize ?c demo_processor")
  have "\<not> config_fits ?c demo_processor" by code_simp
  with startup_all_or_nothing [OF demo_processor_rel i] i show ?thesis by auto
qed

subsection \<open>Reachable processors\<close>

inductive proc_reach :: "nat \<Rightarrow> nat \<Rightarrow> nat \<Rightarrow> nat \<Rightarrow> EngineProcessor \<Rightarrow> bool" for n m i g where
  start: "proc_reach n m i g (processor_new n m i g)"
| init: "proc_reach n m i g p \<Longrightarrow> initialize config p = (ok, p') \<Longrightarrow> proc_reach n m i g p'"
| submit: "proc_reach n m i g p \<Longrightarrow> submit msg p = Some (ok, p') \<Longrightarrow> proc_reach n m i g p'"
| step: "proc_reach n m i g p \<Longrightarrow> process_next p = Some (busy, p') \<Longrightarrow> proc_reach n m i g p'"
| pop_event: "proc_reach n m i g p \<Longrightarrow> next_event p = Some (ev, p') \<Longrightarrow> proc_reach n m i g p'"

definition proc_good :: "nat \<times> nat \<Rightarrow> EngineProcessor \<Rightarrow> bool" where
  "proc_good cp p \<longleftrightarrow> (\<exists>a ins outs. proc_rel cp p a ins outs \<and> book_inv (ae_book a) \<and> (\<forall>e\<in>set outs. msg_in_range e))"

lemma proc_good_init:
  assumes "proc_good cp p"
  shows "proc_good cp (snd (initialize config p))"
proof -
  from assms obtain a ins outs where r: "proc_rel cp p a ins outs" "book_inv (ae_book a)" "\<forall>e\<in>set outs. msg_in_range e"
    by (auto simp: proc_good_def)
  obtain ok p' where i: "initialize config p = (ok, p')" by (cases "initialize config p")
  from startup_rel [OF r(1) i] r(2,3) i empty_inv show ?thesis by (cases ok) (fastforce simp: proc_good_def)+
qed

lemma proc_good_submit:
  assumes "proc_good cp p"
  shows "\<exists>ok p'. submit msg p = Some (ok, p') \<and> proc_good cp p'"
proof -
  from assms obtain a ins outs where r: "proc_rel cp p a ins outs" "book_inv (ae_book a)" "\<forall>e\<in>set outs. msg_in_range e"
    by (auto simp: proc_good_def)
  from submit_ok [OF r(1), of msg] r(2,3) show ?thesis unfolding proc_good_def by blast
qed

lemma proc_good_next_event:
  assumes "proc_good cp p"
  shows "\<exists>ev p'. next_event p = Some (ev, p') \<and> proc_good cp p' \<and> (\<forall>e. ev = Some e \<longrightarrow> msg_in_range e)"
proof -
  from assms obtain a ins outs where r: "proc_rel cp p a ins outs" "book_inv (ae_book a)" "\<forall>e\<in>set outs. msg_in_range e"
    by (auto simp: proc_good_def)
  then have o: "rb_inv (ep_egress p)" "rb_items (ep_egress p) = outs" by (auto simp: proc_rel_def)
  show ?thesis
  proof (cases outs)
    case Nil
    with ring.pop_nil [OF o(1)] o(2) assms show ?thesis by (auto simp: next_event_def)
  next
    case (Cons e es)
    with ring.pop_cons [OF o(1), of e es] o(2) obtain q where
      q: "try_pop (ep_egress p) = Some (Some e, q)" "rb_inv q" "rb_items q = es" by auto
    have "proc_rel cp (p\<lparr>ep_egress := q\<rparr>) a ins es" using r(1) q by (simp add: proc_rel_def)
    with r(2,3) Cons q(1) show ?thesis by (auto simp: next_event_def proc_good_def)
  qed
qed

lemma proc_good_process_next:
  assumes "proc_good cp p"
  shows "\<exists>busy p'. process_next p = Some (busy, p') \<and> proc_good cp p'"
proof -
  from assms obtain a ins outs where r: "proc_rel cp p a ins outs" "book_inv (ae_book a)" "\<forall>e\<in>set outs. msg_in_range e"
    by (auto simp: proc_good_def)
  show ?thesis
  proof (cases "ep_operational p \<and> ins \<noteq> []")
    case True
    then obtain m ms where m: "ins = m # ms" by (cases ins) auto
    obtain es a' where d: "a_dispatch cp m a = (es, a')" by (cases "a_dispatch cp m a")
    from process_next_ok [OF r(1) [unfolded m] _ d] True obtain p' where
      p': "process_next p = Some (True, p')" "proc_rel cp p' a' ms (take (egress_cap p) (outs @ es))" by blast
    from dispatch_inv [OF r(2) d] r(3) have "book_inv (ae_book a')" "\<forall>e\<in>set (take (egress_cap p) (outs @ es)). msg_in_range e"
      by (auto dest!: in_set_takeD)
    with p' show ?thesis unfolding proc_good_def by blast
  next
    case False
    then have "process_next p = Some (False, p)" using process_next_idle r(1) by (cases ins) auto
    with assms show ?thesis by blast
  qed
qed

lemma proc_reach_good:
  assumes "proc_reach n m i g p" "0 < n" "n \<le> kNullNode" "0 < m" "m \<le> kNullNode" "0 < i" "0 < g"
  shows "proc_good (n, m) p"
  using assms(1)
proof induction
  case start
  then show ?case using processor_new_rel [OF assms(2-7)] empty_inv by (fastforce simp: proc_good_def)
next
  case (init p config ok p')
  then show ?case using proc_good_init [of "(n, m)" p config] by simp
next
  case (submit p msg ok p')
  then show ?case using proc_good_submit [of "(n, m)" p msg] by auto
next
  case (step p busy p')
  then show ?case using proc_good_process_next [of "(n, m)" p] by auto
next
  case (pop_event p ev p')
  then show ?case using proc_good_next_event [of "(n, m)" p] by auto
qed

text \<open>
  C4. Whatever a client has submitted, in any interleaving of submissions, processing steps, event
  reads and re-initialisations: the processor never gets stuck, its book stays sorted, uncrossed
  and within the permitted ranges, and every event it hands out is in the wire format's range, so
  \<open>encode\<close> accepts it.
\<close>

theorem reachable_processor_sound:
  assumes "proc_reach n m i g p" "0 < n" "n \<le> kNullNode" "0 < m" "m \<le> kNullNode" "0 < i" "0 < g"
    and "kMaxMessageLen \<le> length buf"
  shows "(\<exists>A. book_rel (me_book (ep_engine p)) A \<and> book_inv A)
    \<and> (\<exists>busy p'. process_next p = Some (busy, p'))
    \<and> (\<exists>ev p'. next_event p = Some (ev, p')
         \<and> (\<forall>e. ev = Some e \<longrightarrow> (\<exists>out. encode e buf = Some (Inr (encoded_len_of e), out) \<and> decode (take (encoded_len_of e) out) = Some (Inr e))))"
proof -
  have g: "proc_good (n, m) p" using proc_reach_good [OF assms(1-7)] .
  then have "\<exists>A. book_rel (me_book (ep_engine p)) A \<and> book_inv A"
    by (auto simp: proc_good_def proc_rel_def engine_rel_def)
  moreover have "\<exists>out. encode e buf = Some (Inr (encoded_len_of e), out) \<and> decode (take (encoded_len_of e) out) = Some (Inr e)"
    if e: "msg_in_range e" for e
  proof -
    have len: "encoded_len_of e \<le> length buf" using assms(8) encoded_len_max [of e] by linarith
    from encode_in_range [OF e len] show ?thesis using decode_frame [OF e] by (simp add: length_frame_of)
  qed
  ultimately show ?thesis using proc_good_process_next [OF g] proc_good_next_event [OF g] by blast
qed

theorem reachable_processor_sound_witness:
  "\<exists>A. book_rel (me_book (ep_engine (processor_new 4 3 8 3))) A \<and> book_inv A"
proof -
  have "proc_reach 4 3 8 3 (processor_new 4 3 8 3)" by (rule proc_reach.start)
  from reachable_processor_sound [OF this, of "replicate 37 0"] show ?thesis
    by (simp add: kNullNode_def wire_lengths kMaxMessageLen_def)
qed

end
