(* ===== verification/Processor_Trace.thy ===== *)
theory Processor_Trace
  imports Engine_Processor Trace_Refinement
begin

text \<open>
  The engine processor under any interleaving of its callers: a producer that submits messages, the
  engine loop that processes them one at a time, a consumer that takes events, and restarts.  The
  specification is a reference engine between two bounded queues.
\<close>

datatype ProcEvent = Submit BinaryMessage | Process | Take | Startup EngineConfig

datatype ProcReply = Submitted bool | Processed bool | Taken "BinaryMessage option" | Started bool StartupError

definition ep_step :: "ProcEvent \<Rightarrow> EngineProcessor \<Rightarrow> (ProcReply list \<times> EngineProcessor) option" where
  "ep_step ev p =
     (case ev of
        Submit msg \<Rightarrow> do { (ok, p) \<leftarrow> submit msg p; Some ([Submitted ok], p) }
      | Process \<Rightarrow> do { (busy, p) \<leftarrow> process_next p; Some ([Processed busy], p) }
      | Take \<Rightarrow> do { (event, p) \<leftarrow> next_event p; Some ([Taken event], p) }
      | Startup config \<Rightarrow> (case initialize config p of (ok, p) \<Rightarrow> Some ([Started ok (startup_error p)], p)))"

record AProc =
  ap_engine :: AEngine
  ap_in :: "BinaryMessage list"
  ap_out :: "BinaryMessage list"
  ap_operational :: bool
  ap_stats :: "u64 \<times> u64 \<times> u64"

definition ap_step :: "nat \<times> nat \<Rightarrow> nat \<Rightarrow> nat \<Rightarrow> ProcEvent \<Rightarrow> AProc \<Rightarrow> ProcReply list \<times> AProc" where
  "ap_step cp ic oc ev S =
     (case ev of
        Submit msg \<Rightarrow>
          if length (ap_in S) < ic then ([Submitted True], S\<lparr>ap_in := ap_in S @ [msg]\<rparr>) else ([Submitted False], S)
      | Process \<Rightarrow>
          if \<not> ap_operational S then ([Processed False], S)
          else (case ap_in S of [] \<Rightarrow> ([Processed False], S)
            | m # ins \<Rightarrow> (case a_dispatch cp m (ap_engine S) of (es, a) \<Rightarrow>
                ([Processed True], S\<lparr>ap_engine := a, ap_in := ins, ap_out := take oc (ap_out S @ es),
                   ap_stats := add_stats 1 (if is_error m then 1 else 0) (length (ap_out S) + length es - oc) (ap_stats S)\<rparr>)))
      | Take \<Rightarrow> (case ap_out S of [] \<Rightarrow> ([Taken None], S) | e # outs \<Rightarrow> ([Taken (Some e)], S\<lparr>ap_out := outs\<rparr>))
      | Startup config \<Rightarrow>
          if \<not> cfg_force_reservation_failure config \<and> cfg_max_orders config \<le> fst cp \<and> cfg_max_price_levels config \<le> snd cp
             \<and> cfg_ingress_capacity config \<le> ic \<and> cfg_egress_capacity config \<le> oc
          then ([Started True SE_None], S\<lparr>ap_engine := \<lparr>ae_book = (\<lambda>_. []), ae_seq = ae_seq (ap_engine S), ae_hist = []\<rparr>, ap_operational := True\<rparr>)
          else ([Started False InsufficientMemory], S\<lparr>ap_operational := False\<rparr>))"

definition processor_rel :: "nat \<times> nat \<Rightarrow> nat \<Rightarrow> nat \<Rightarrow> EngineProcessor \<Rightarrow> AProc \<Rightarrow> bool" where
  "processor_rel cp ic oc p S \<longleftrightarrow> proc_rel cp p (ap_engine S) (ap_in S) (ap_out S) \<and> ep_operational p = ap_operational S
     \<and> stats p = ap_stats S \<and> ingress_cap p = ic \<and> egress_cap p = oc"

lemma submit_simulates:
  assumes "processor_rel cp ic oc p S"
  shows "\<exists>p'. ep_step (Submit m) p = Some (fst (ap_step cp ic oc (Submit m) S), p') \<and> processor_rel cp ic oc p' (snd (ap_step cp ic oc (Submit m) S))"
proof -
  from assms have r: "proc_rel cp p (ap_engine S) (ap_in S) (ap_out S)" "ingress_cap p = ic" by (auto simp: processor_rel_def)
  from submit_shape [OF r(1), of m] obtain q where
    q: "submit m p = Some (length (ap_in S) < ic, p\<lparr>ep_ingress := q\<rparr>)"
      "proc_rel cp (p\<lparr>ep_ingress := q\<rparr>) (ap_engine S) (take ic (ap_in S @ [m])) (ap_out S)" "rb_capacity q = ic"
    unfolding r(2) by blast
  have "length (ap_in S) \<le> ic" using r ring.items_le_cap [of "ep_ingress p"] by (auto simp: proc_rel_def ingress_cap_def)
  with q assms show ?thesis
    by (auto simp: ep_step_def ap_step_def processor_rel_def ingress_cap_def egress_cap_def)
qed

lemma process_simulates:
  assumes "processor_rel cp ic oc p S"
  shows "\<exists>p'. ep_step Process p = Some (fst (ap_step cp ic oc Process S), p') \<and> processor_rel cp ic oc p' (snd (ap_step cp ic oc Process S))"
proof -
  from assms have r: "proc_rel cp p (ap_engine S) (ap_in S) (ap_out S)" "ep_operational p = ap_operational S" "egress_cap p = oc" "ingress_cap p = ic"
    "stats p = ap_stats S" by (auto simp: processor_rel_def)
  show ?thesis
  proof (cases "ap_operational S \<and> ap_in S \<noteq> []")
    case False
    then have "process_next p = Some (False, p)" using process_next_idle r(1,2) by metis
    with False assms show ?thesis by (auto simp: ep_step_def ap_step_def split: list.splits)
  next
    case True
    then obtain m ins where m: "ap_in S = m # ins" by (cases "ap_in S") auto
    obtain es a where d: "a_dispatch cp m (ap_engine S) = (es, a)" by (cases "a_dispatch cp m (ap_engine S)")
    from process_next_ok [OF r(1) [unfolded m] _ d] True r obtain p' where
      p': "process_next p = Some (True, p')" "proc_rel cp p' a ins (take oc (ap_out S @ es))" "ep_operational p'" "egress_cap p' = oc"
        "ep_processed_count p' = ep_processed_count p + 1" "ep_error_event_count p' = ep_error_event_count p + (if is_error m then 1 else 0)"
        "ep_egress_overflow_count p' = ep_egress_overflow_count p + of_nat (length (ap_out S) + length es - oc)" "ingress_cap p' = ic" by auto
    have "stats p' = add_stats 1 (if is_error m then 1 else 0) (length (ap_out S) + length es - oc) (ap_stats S)"
      unfolding r(5) [symmetric] using p'(5-7) by (simp add: stats_def processed_count_def error_event_count_def egress_overflow_count_def)
    with p' True m d show ?thesis by (simp add: ep_step_def ap_step_def processor_rel_def)
  qed
qed

lemma take_simulates:
  assumes "processor_rel cp ic oc p S"
  shows "\<exists>p'. ep_step Take p = Some (fst (ap_step cp ic oc Take S), p') \<and> processor_rel cp ic oc p' (snd (ap_step cp ic oc Take S))"
proof -
  from assms have r: "rb_inv (ep_egress p)" "rb_items (ep_egress p) = ap_out S" by (auto simp: processor_rel_def proc_rel_def)
  show ?thesis
  proof (cases "ap_out S")
    case Nil
    with ring.pop_nil [OF r(1)] r(2) have "next_event p = Some (None, p)" by (simp add: next_event_def)
    with Nil assms show ?thesis by (simp add: ep_step_def ap_step_def)
  next
    case (Cons e outs)
    from ring.pop_cons [OF r [unfolded Cons]] obtain q where q: "try_pop (ep_egress p) = Some (Some e, q)" "rb_inv q" "rb_items q = outs"
      "rb_capacity q = rb_capacity (ep_egress p)" by blast
    then have "next_event p = Some (Some e, p\<lparr>ep_egress := q\<rparr>)" by (simp add: next_event_def)
    with q assms Cons show ?thesis by (auto simp: ep_step_def ap_step_def processor_rel_def proc_rel_def ingress_cap_def egress_cap_def)
  qed
qed

lemma startup_keeps:
  assumes "initialize config p = (ok, p')"
  shows "stats p' = stats p" "ingress_cap p' = ingress_cap p" "egress_cap p' = egress_cap p"
  using assms by (auto simp: initialize_def Let_def stats_def processed_count_def error_event_count_def egress_overflow_count_def
      ingress_cap_def egress_cap_def split: if_splits)

lemma startup_simulates:
  assumes "processor_rel cp ic oc p S"
  shows "\<exists>p'. ep_step (Startup config) p = Some (fst (ap_step cp ic oc (Startup config) S), p')
    \<and> processor_rel cp ic oc p' (snd (ap_step cp ic oc (Startup config) S))"
proof -
  obtain ok p' where i: "initialize config p = (ok, p')" by (cases "initialize config p")
  from assms have r: "proc_rel cp p (ap_engine S) (ap_in S) (ap_out S)" by (simp add: processor_rel_def)
  have "config_fits config p \<longleftrightarrow> \<not> cfg_force_reservation_failure config \<and> cfg_max_orders config \<le> fst cp \<and> cfg_max_price_levels config \<le> snd cp
             \<and> cfg_ingress_capacity config \<le> ic \<and> cfg_egress_capacity config \<le> oc"
    using assms by (auto simp: config_fits_def processor_rel_def proc_rel_def engine_rel_def ingress_cap_def egress_cap_def)
  with startup_rel [OF r i] startup_keeps [OF i] assms i show ?thesis
    by (auto simp: ep_step_def ap_step_def processor_rel_def startup_error_def split: if_splits)
qed

interpretation processor: forward_simulation "processor_rel cp ic oc" ep_step "\<lambda>_ _. True" "ap_step cp ic oc" for cp ic oc
proof
  fix p S e
  assume "processor_rel cp ic oc p S"
  then show "\<exists>p'. ep_step e p = Some (fst (ap_step cp ic oc e S), p') \<and> processor_rel cp ic oc p' (snd (ap_step cp ic oc e S))"
    by (cases e) (auto intro: submit_simulates process_simulates take_simulates startup_simulates)
qed

definition processor_start :: AProc where
  "processor_start = \<lparr>ap_engine = \<lparr>ae_book = (\<lambda>_. []), ae_seq = 1, ae_hist = []\<rparr>, ap_in = [], ap_out = [], ap_operational = True, ap_stats = (0, 0, 0)\<rparr>"

lemma processor_start_rel:
  assumes "0 < n" "n \<le> kNullNode" "0 < m" "m \<le> kNullNode" "0 < i" "0 < g"
  shows "processor_rel (n, m) i g (processor_new n m i g) processor_start"
  using processor_new_rel [OF assms]
  by (simp add: processor_rel_def processor_start_def processor_new_def stats_def processed_count_def error_event_count_def
      egress_overflow_count_def ingress_cap_def egress_cap_def rb_new_def rb_capacity_def)

text \<open>
  C14. The processor is a reference engine between two bounded queues: from a fresh processor, for every
  interleaving of submissions, processing steps, event removals and restarts, every call returns and
  answers exactly as the specification does, and the engine, the queues, the operational flag and
  the counters stay those of the specification.
\<close>

theorem processor_refines_queues:
  assumes "0 < n" "n \<le> kNullNode" "0 < m" "m \<le> kNullNode" "0 < i" "0 < g"
  shows "\<exists>p'. run_trace ep_step evs (processor_new n m i g) = Some (fst (spec_trace (ap_step (n, m) i g) evs processor_start), p')
    \<and> processor_rel (n, m) i g p' (snd (spec_trace (ap_step (n, m) i g) evs processor_start))"
  by (rule processor.simulates_trace [OF processor_start_rel [OF assms] may_always])

theorem processor_refines_queues_witness:
  "\<exists>p'. run_trace ep_step [Submit (BM_CancelOrder \<lparr>co_order_id = 7\<rparr>), Process, Take, Process] (processor_new 4 3 1 1)
    = Some ([Submitted True, Processed True, Taken (Some (BM_Reject \<lparr>rej_order_id = 7, rej_reason = OrderNotFound\<rparr>)), Processed False], p')"
  using processor_refines_queues [of 4 3 1 1 "[Submit (BM_CancelOrder \<lparr>co_order_id = 7\<rparr>), Process, Take, Process]"]
  by (auto simp: ap_step_def processor_start_def a_dispatch_def a_resting_def a_ids_def kNullNode_def simp del: run_trace.simps)

end
