(* ===== verification/Frame_Stream.thy ===== *)
theory Frame_Stream
  imports Codec
begin

text \<open>
  What framing a byte stream means, independently of how it arrives.  \<open>split_stream\<close> cuts a stream
  into messages by the leading byte of each frame; its second component is the unfinished tail, or
  \<open>None\<close> when the stream is malformed.  The locale \<open>frame_codec\<close> states what the framer relies on
  from the codec and derives that splitting can be resumed at any byte boundary.
\<close>

function split_stream :: "('b \<Rightarrow> nat option) \<Rightarrow> ('b list \<Rightarrow> 'm option) \<Rightarrow> 'b list \<Rightarrow> 'm list \<times> 'b list option" where
  "split_stream sz dec bs =
     (case bs of [] \<Rightarrow> ([], Some [])
      | b # _ \<Rightarrow> (case sz b of
           None \<Rightarrow> ([], None)
         | Some n \<Rightarrow>
             if n = 0 \<or> length bs < n then ([], Some bs)
             else (case dec (take n bs) of
                 None \<Rightarrow> ([], None)
               | Some m \<Rightarrow> (case split_stream sz dec (drop n bs) of (ms, r) \<Rightarrow> (m # ms, r)))))"
  by pat_completeness auto

termination
  by (relation "measure (\<lambda>(sz, dec, bs). length bs)") auto

declare split_stream.simps [simp del]

lemma split_Nil [simp]: "split_stream sz dec [] = ([], Some [])"
  by (subst split_stream.simps) simp

lemma split_unknown: "sz b = None \<Longrightarrow> split_stream sz dec (b # bs) = ([], None)"
  by (subst split_stream.simps) simp

lemma split_short: "sz b = Some n \<Longrightarrow> length (b # bs) < n \<Longrightarrow> split_stream sz dec (b # bs) = ([], Some (b # bs))"
  by (subst split_stream.simps) simp

lemma split_bad:
  "sz b = Some n \<Longrightarrow> 0 < n \<Longrightarrow> n \<le> length (b # bs) \<Longrightarrow> dec (take n (b # bs)) = None \<Longrightarrow>
     split_stream sz dec (b # bs) = ([], None)"
  by (subst split_stream.simps) simp

lemma split_good:
  "sz b = Some n \<Longrightarrow> 0 < n \<Longrightarrow> n \<le> length (b # bs) \<Longrightarrow> dec (take n (b # bs)) = Some m \<Longrightarrow>
     split_stream sz dec (b # bs) = (m # fst (split_stream sz dec (drop n (b # bs))), snd (split_stream sz dec (drop n (b # bs))))"
  by (subst split_stream.simps) (auto split: prod.splits)

lemmas split_cases = split_unknown split_short split_bad split_good

text \<open>Feeding a stream piece by piece: \<open>None\<close> is the closed state, \<open>Some r\<close> an unfinished frame.\<close>

fun feed_pieces :: "('b list \<Rightarrow> 'm list \<times> 'b list option) \<Rightarrow> 'b list option \<Rightarrow> 'b list list \<Rightarrow> 'm list \<times> 'b list option" where
  "feed_pieces split r [] = ([], r)"
| "feed_pieces split None (c # cs) = ([], None)"
| "feed_pieces split (Some r) (c # cs) =
     (case split (r @ c) of (ms, r') \<Rightarrow> case feed_pieces split r' cs of (ms', r'') \<Rightarrow> (ms @ ms', r''))"

lemma feed_closed [simp]: "feed_pieces split None cs = ([], None)"
  by (cases cs) auto

locale frame_codec =
  fixes sz :: "'b \<Rightarrow> nat option"
    and dec :: "'b list \<Rightarrow> 'm option"
    and frame :: "'m \<Rightarrow> 'b list"
    and valid :: "'m \<Rightarrow> bool"
    and maxlen :: nat
  assumes size_bounds: "sz b = Some n \<Longrightarrow> 0 < n \<and> n \<le> maxlen"
    and frame_head: "valid m \<Longrightarrow> \<exists>b bs. frame m = b # bs \<and> sz b = Some (length (frame m))"
    and decodes: "valid m \<Longrightarrow> dec (frame m) = Some m"
    and only_frames: "dec bs = Some m \<Longrightarrow> valid m \<and> bs = frame m"
begin

lemma split_frame:
  assumes "valid m"
  shows "split_stream sz dec (frame m @ ys) = (m # fst (split_stream sz dec ys), snd (split_stream sz dec ys))"
proof -
  from frame_head [OF assms] obtain b bs where b: "frame m = b # bs" "sz b = Some (length (frame m))" by blast
  have "take (length (frame m)) (b # bs @ ys) = frame m" "drop (length (frame m)) (b # bs @ ys) = ys" using b(1) by simp_all
  moreover have "dec (frame m) = Some m" using decodes [OF assms] .
  ultimately have "split_stream sz dec (b # bs @ ys) = (m # fst (split_stream sz dec ys), snd (split_stream sz dec ys))"
    using split_good [of sz b "length (frame m)" "bs @ ys" dec m] b by simp
  with b(1) show ?thesis by simp
qed

text \<open>A stream is empty, starts with a frame, or stops right here: malformed or unfinished.\<close>

lemma stream_cases [case_names empty unknown short bad good]:
  obtains "bs = []"
  | b cs where "bs = b # cs" "sz b = None"
  | b cs n where "bs = b # cs" "sz b = Some n" "length bs < n"
  | b cs n where "bs = b # cs" "sz b = Some n" "n \<le> length bs" "dec (take n bs) = None"
  | m rest where "valid m" "bs = frame m @ rest"
proof (cases bs)
  case (Cons b cs)
  show ?thesis
  proof (cases "sz b")
    case None
    with Cons that(2) show ?thesis by blast
  next
    case (Some n)
    show ?thesis
    proof (cases "length bs < n")
      case True
      with Cons Some that(3) show ?thesis by blast
    next
      case False
      show ?thesis
      proof (cases "dec (take n bs)")
        case None
        with Cons Some False that(4) show ?thesis by auto
      next
        case (Some m)
        from only_frames [OF Some] that(5) [of m "drop n bs"] show ?thesis by (metis append_take_drop_id)
      qed
    qed
  qed
qed (use that(1) in blast)

lemma frame_pos: "valid m \<Longrightarrow> 0 < length (frame m)"
  using frame_head by fastforce

lemma split_stop:
  "sz b = None \<Longrightarrow> split_stream sz dec (b # cs) = ([], None)"
  "sz b = Some n \<Longrightarrow> length (b # cs) < n \<Longrightarrow> split_stream sz dec (b # cs) = ([], Some (b # cs))"
  "sz b = Some n \<Longrightarrow> n \<le> length (b # cs) \<Longrightarrow> dec (take n (b # cs)) = None \<Longrightarrow> split_stream sz dec (b # cs) = ([], None)"
  using size_bounds [of b n] by (auto intro: split_cases)

text \<open>Induction along the frames of a stream.\<close>

lemma stream_induct [case_names stop frame]:
  assumes "\<And>bs. (\<And>m rest. valid m \<Longrightarrow> bs \<noteq> frame m @ rest) \<Longrightarrow> P bs"
    and "\<And>m rest. valid m \<Longrightarrow> P rest \<Longrightarrow> P (frame m @ rest)"
  shows "P bs"
proof (induction bs rule: length_induct)
  case (1 bs)
  show ?case
  proof (cases "\<exists>m rest. valid m \<and> bs = frame m @ rest")
    case True
    then obtain m rest where m: "valid m" "bs = frame m @ rest" by blast
    with 1 frame_pos [OF m(1)] have "P rest" by simp
    with m assms(2) show ?thesis by simp
  next
    case False
    with assms(1) show ?thesis by blast
  qed
qed

text \<open>Splitting can stop and resume between any two bytes.\<close>

lemma split_resume:
  "split_stream sz dec xs = (ms, Some r) \<Longrightarrow>
     split_stream sz dec (xs @ ys) = (ms @ fst (split_stream sz dec (r @ ys)), snd (split_stream sz dec (r @ ys)))"
proof (induction xs arbitrary: ms rule: stream_induct)
  case (stop bs)
  from stop show ?case by (cases bs rule: stream_cases) (auto simp: split_stop)
next
  case (frame m rest)
  from frame.prems frame.hyps obtain ms' where "ms = m # ms'" "split_stream sz dec rest = (ms', Some r)"
    by (auto simp: split_frame) (metis prod.collapse)
  with frame show ?case by (simp add: split_frame)
qed

lemma split_closed:
  "split_stream sz dec xs = (ms, None) \<Longrightarrow> split_stream sz dec (xs @ ys) = (ms, None)"
proof (induction xs arbitrary: ms rule: stream_induct)
  case (stop bs)
  from stop show ?case
  proof (cases bs rule: stream_cases)
    case (bad b cs n)
    then have "take n (b # cs @ ys) = take n (b # cs)" by (simp add: take_Cons')
    with bad stop.prems show ?thesis using split_stop(3) [of b n "cs @ ys"] split_stop(3) [of b n cs] by simp
  qed (auto simp: split_stop)
next
  case (frame m rest)
  from frame.prems frame.hyps obtain ms' where "ms = m # ms'" "split_stream sz dec rest = (ms', None)"
    by (auto simp: split_frame) (metis prod.collapse)
  with frame show ?case by (simp add: split_frame)
qed

text \<open>What is delivered and what is kept make up the stream; the tail is an unfinished frame.\<close>

lemma split_exact:
  "split_stream sz dec xs = (ms, Some r) \<Longrightarrow>
     xs = concat (map frame ms) @ r \<and> (\<forall>m\<in>set ms. valid m) \<and> split_stream sz dec r = ([], Some r)
     \<and> (r \<noteq> [] \<longrightarrow> length r < maxlen)"
proof (induction xs arbitrary: ms rule: stream_induct)
  case (stop bs)
  from stop show ?case by (cases bs rule: stream_cases) (auto simp: split_stop dest: size_bounds)
next
  case (frame m rest)
  from frame.prems frame.hyps obtain ms' where ms: "ms = m # ms'" "split_stream sz dec rest = (ms', Some r)"
    by (auto simp: split_frame) (metis prod.collapse)
  from frame.IH [OF ms(2)] ms(1) frame.hyps show ?case by auto
qed

lemma split_frames:
  "\<forall>m\<in>set ms. valid m \<Longrightarrow> split_stream sz dec (concat (map frame ms)) = (ms, Some [])"
  by (induction ms) (simp_all add: split_frame)

text \<open>The pieces a stream arrives in do not matter.\<close>

lemma feed_pieces_concat:
  "split_stream sz dec r = ([], Some r) \<Longrightarrow>
     feed_pieces (split_stream sz dec) (Some r) cs = split_stream sz dec (r @ concat cs)"
proof (induction cs arbitrary: r)
  case (Cons c cs)
  obtain ms r' where s: "split_stream sz dec (r @ c) = (ms, r')" by (cases "split_stream sz dec (r @ c)")
  show ?case
  proof (cases r')
    case None
    with s split_closed [of "r @ c" ms "concat cs"] show ?thesis by simp
  next
    case (Some r1)
    from split_exact [of "r @ c" ms r1] s Some have "split_stream sz dec r1 = ([], Some r1)" by simp
    from Cons.IH [OF this] s Some split_resume [of "r @ c" ms r1 "concat cs"] show ?thesis
      by (simp split: prod.splits)
  qed
qed simp

end

subsection \<open>The wire format\<close>

definition wire_size :: "u8 \<Rightarrow> nat option" where
  "wire_size b = do { t \<leftarrow> message_type_from_byte b; message_len t }"

definition wire_decode :: "u8 list \<Rightarrow> BinaryMessage option" where
  "wire_decode bs = (case decode bs of Some (Inr m) \<Rightarrow> Some m | _ \<Rightarrow> None)"

lemma wire_decode_iff: "wire_decode bs = Some m \<longleftrightarrow> decode bs = Some (Inr m)"
  by (auto simp: wire_decode_def split: option.splits sum.splits)

interpretation wire: frame_codec wire_size wire_decode frame_of msg_in_range kMaxMessageLen
proof unfold_locales
  show "0 < n \<and> n \<le> kMaxMessageLen" if "wire_size b = Some n" for b n
    using that message_len_bounds by (auto simp: wire_size_def bind_eq_Some_conv)
  show "\<exists>b bs. frame_of m = b # bs \<and> wire_size b = Some (length (frame_of m))" if "msg_in_range m" for m
    using message_len_of_type [of m]
    by (simp add: frame_of_Cons wire_size_def length_frame_of)
  show "wire_decode (frame_of m) = Some m" if "msg_in_range m" for m
    using decode_frame [OF that] by (simp add: wire_decode_iff)
  show "msg_in_range m \<and> bs = frame_of m" if "wire_decode bs = Some m" for bs m
    using that decode_inv by (simp add: wire_decode_iff)
qed

text \<open>Decoding a frame of the announced length always returns.\<close>

lemma wire_decode_total:
  assumes "wire_size b = Some n" "length (b # bs) = n"
  shows "\<exists>r. decode (b # bs) = Some r \<and> wire_decode (b # bs) = (case r of Inr m \<Rightarrow> Some m | Inl _ \<Rightarrow> None)"
proof -
  from assms obtain t where t: "message_type_from_byte b = Some t" "message_len t = Some (length (b # bs))"
    by (auto simp: wire_size_def bind_eq_Some_conv)
  from decode_fields_total [OF t(2)] t obtain r where "decode (b # bs) = Some r" by (auto simp: decode_def r_u8_def)
  then show ?thesis by (auto simp: wire_decode_def)
qed

abbreviation wire_split :: "u8 list \<Rightarrow> BinaryMessage list \<times> u8 list option" where
  "wire_split \<equiv> split_stream wire_size wire_decode"

end
