(* ===== verification/Frame_Buffer.thy ===== *)
theory Frame_Buffer
  imports Frame_Stream Matching_Properties
begin

text \<open>
  \<open>FrameBuffer\<close> of \<open>frame_buffer.hpp\<close>: reassembling whole messages from arbitrary socket reads.
  \<open>deliver\<close> is the callback, with the state \<open>'s\<close> it captures.  The \<open>for (;;)\<close> loop of \<open>consume\<close> is a
  \<open>partial_function (option)\<close>; \<open>std::copy_n\<close> is checked at both ends.
\<close>

definition kMaxMessageSize :: nat where "kMaxMessageSize = 65536"

datatype FrameStatus = FS_Ok | FS_Closed

record FrameBuffer =
  fb_buf :: "u8 list"
  fb_len :: nat
  fb_closed :: bool

definition fb_new :: FrameBuffer where
  "fb_new = \<lparr>fb_buf = replicate kMaxMessageSize 0, fb_len = 0, fb_closed = False\<rparr>"

definition copy_n :: "'a list \<Rightarrow> nat \<Rightarrow> nat \<Rightarrow> 'a list \<Rightarrow> nat \<Rightarrow> 'a list option" where
  "copy_n src off n dst to =
     (if off + n \<le> length src \<and> to + n \<le> length dst
      then Some (put dst to (take n (drop off src))) else None)"

definition frame_length :: "u8 \<Rightarrow> nat option" where
  "frame_length type_byte =
     (case message_type_from_byte type_byte of
        None \<Rightarrow> None
      | Some t \<Rightarrow> (case message_len t of
          None \<Rightarrow> None
        | Some len \<Rightarrow> if len > kMaxMessageSize then None else Some len))"

definition deliver_frame :: "(BinaryMessage \<Rightarrow> 's \<Rightarrow> 's option) \<Rightarrow> u8 list \<Rightarrow> 's \<Rightarrow> (bool \<times> 's) option" where
  "deliver_frame deliver frame st = do {
     decoded \<leftarrow> decode frame;
     (case decoded of
        Inl _ \<Rightarrow> Some (False, st)
      | Inr m \<Rightarrow> do { st \<leftarrow> deliver m st; Some (True, st) })
   }"

definition close :: "FrameBuffer \<Rightarrow> FrameStatus \<times> FrameBuffer" where
  "close fb = (FS_Closed, fb\<lparr>fb_closed := True\<rparr>)"

text \<open>\<open>missing = needed - len_\<close> is a \<open>size_t\<close> difference and wraps.\<close>

definition size_sub :: "nat \<Rightarrow> nat \<Rightarrow> nat" where
  "size_sub a b = (a + 2 ^ 64 - b) mod 2 ^ 64"

partial_function (option) consume_loop ::
  "(BinaryMessage \<Rightarrow> 's \<Rightarrow> 's option) \<Rightarrow> u8 list \<Rightarrow> nat \<Rightarrow> FrameBuffer \<Rightarrow> 's \<Rightarrow> (FrameStatus \<times> FrameBuffer \<times> 's) option" where
  "consume_loop deliver chunk off fb st =
     (if fb_len fb = 0 then
        let avail = length chunk - off in
        if avail = 0 then Some (FS_Ok, fb, st)
        else do {
          b \<leftarrow> arr_get chunk off;
          (case frame_length b of
             None \<Rightarrow> Some (fst (close fb), snd (close fb), st)
           | Some needed \<Rightarrow>
               if avail < needed then do {
                 buf \<leftarrow> copy_n chunk off avail (fb_buf fb) 0;
                 Some (FS_Ok, fb\<lparr>fb_buf := buf, fb_len := avail\<rparr>, st)
               }
               else do {
                 (ok, st) \<leftarrow> deliver_frame deliver (take needed (drop off chunk)) st;
                 if \<not> ok then Some (fst (close fb), snd (close fb), st)
                 else consume_loop deliver chunk (off + needed) fb st
               })
        }
      else do {
        b \<leftarrow> arr_get (fb_buf fb) 0;
        (case frame_length b of
           None \<Rightarrow> Some (fst (close fb), snd (close fb), st)
         | Some needed \<Rightarrow> do {
             let missing = size_sub needed (fb_len fb);
             let avail = length chunk - off;
             let n = min missing avail;
             buf \<leftarrow> copy_n chunk off n (fb_buf fb) (fb_len fb);
             let fb = fb\<lparr>fb_buf := buf, fb_len := fb_len fb + n\<rparr>;
             let off = off + n;
             if fb_len fb < needed then Some (FS_Ok, fb, st)
             else do {
               (ok, st) \<leftarrow> deliver_frame deliver (take needed (fb_buf fb)) st;
               if \<not> ok then Some (fst (close fb), snd (close fb), st)
               else consume_loop deliver chunk off (fb\<lparr>fb_len := 0\<rparr>) st
             }
           })
      })"

declare consume_loop.simps [code]

definition consume ::
  "(BinaryMessage \<Rightarrow> 's \<Rightarrow> 's option) \<Rightarrow> u8 list \<Rightarrow> FrameBuffer \<Rightarrow> 's \<Rightarrow> (FrameStatus \<times> FrameBuffer \<times> 's) option" where
  "consume deliver chunk fb st =
     (if fb_closed fb then Some (FS_Closed, fb, st) else consume_loop deliver chunk 0 fb st)"

definition fb_is_closed :: "FrameBuffer \<Rightarrow> bool" where
  "fb_is_closed fb = fb_closed fb"

definition fb_buffered :: "FrameBuffer \<Rightarrow> nat" where
  "fb_buffered fb = fb_len fb"

subsection \<open>Invariant and abstraction\<close>

text \<open>The unfinished frame the buffer holds; \<open>None\<close> once closed.\<close>

definition pending :: "FrameBuffer \<Rightarrow> u8 list option" where
  "pending fb = (if fb_closed fb then None else Some (take (fb_len fb) (fb_buf fb)))"

definition fb_inv :: "FrameBuffer \<Rightarrow> bool" where
  "fb_inv fb \<longleftrightarrow> length (fb_buf fb) = kMaxMessageSize \<and> fb_len fb \<le> kMaxMessageLen
     \<and> (\<not> fb_closed fb \<longrightarrow> wire_split (take (fb_len fb) (fb_buf fb)) = ([], Some (take (fb_len fb) (fb_buf fb))))"

lemma frame_length_eq: "frame_length = wire_size"
proof
  fix b
  show "frame_length b = wire_size b"
    using message_len_bounds by (fastforce simp: frame_length_def wire_size_def wire_lengths kMaxMessageSize_def split: option.splits)
qed

lemma size_sub_le:
  assumes "b \<le> a" "a < 2 ^ 64"
  shows "size_sub a b = a - b"
proof -
  have "a + 2 ^ 64 - b = (a - b) + 2 ^ 64" using assms(1) by linarith
  moreover have "a - b < 2 ^ 64" using assms(2) by linarith
  ultimately show ?thesis unfolding size_sub_def by (simp only: mod_add_self2 mod_less)
qed

lemma fb_new_inv: "fb_inv fb_new" "pending fb_new = Some []"
  by (simp_all add: fb_inv_def fb_new_def pending_def)

lemma deliver_frame_ok:
  assumes "wire_size b = Some n" "length fr = n" "fr = b # bs"
  shows "deliver_frame deliver fr st = (case wire_decode fr of None \<Rightarrow> Some (False, st)
     | Some m \<Rightarrow> map_option (\<lambda>st. (True, st)) (deliver m st))"
proof -
  from wire_decode_total [OF assms(1), of bs] assms(2,3) obtain r where
    r: "decode fr = Some r" "wire_decode fr = (case r of Inr m \<Rightarrow> Some m | Inl _ \<Rightarrow> None)" by auto
  then show ?thesis by (cases r) (auto simp: deliver_frame_def map_option_case split: Option.bind_splits option.splits)
qed

text \<open>
  \<open>frames_out\<close>: what one call does, given the messages \<open>ms\<close> the stream holds and its tail \<open>r\<close>: the
  messages go to the sink in order, and the buffer ends up with the tail.
\<close>

definition frames_out :: "('s \<Rightarrow> (FrameStatus \<times> FrameBuffer \<times> 's) option) \<Rightarrow> (BinaryMessage \<Rightarrow> 's \<Rightarrow> 's option)
    \<Rightarrow> BinaryMessage list \<times> u8 list option \<Rightarrow> bool" where
  "frames_out f deliver res \<longleftrightarrow> (\<exists>fb'. fb_inv fb' \<and> pending fb' = snd res
     \<and> (\<forall>st. f st = map_option (\<lambda>st'. (if snd res = None then FS_Closed else FS_Ok, fb', st')) (for_each deliver (fst res) st)))"

lemma frames_out_closed:
  assumes "fb_inv fb"
  shows "frames_out (\<lambda>st. Some (fst (close fb), snd (close fb), st)) deliver ([], None)"
  using assms by (auto simp: frames_out_def close_def fb_inv_def pending_def intro!: exI [of _ "fb\<lparr>fb_closed := True\<rparr>"])

lemma frames_out_Cons:
  assumes "frames_out f deliver (ms, r)" "\<And>st. g st = Option.bind (deliver m st) f"
  shows "frames_out g deliver (m # ms, r)"
proof -
  from assms(1) obtain fb' where fb: "fb_inv fb'" "pending fb' = r"
    "\<forall>st. f st = map_option (\<lambda>st'. (if r = None then FS_Closed else FS_Ok, fb', st')) (for_each deliver ms st)"
    by (auto simp: frames_out_def)
  have "g st = map_option (\<lambda>st'. (if r = None then FS_Closed else FS_Ok, fb', st')) (for_each deliver (m # ms) st)" for st
    using fb(3) by (cases "deliver m st") (simp_all add: assms(2))
  with fb(1,2) show ?thesis by (auto simp: frames_out_def)
qed

text \<open>The fast path: nothing retained, frames are taken straight from the chunk.  The three ways it can end:\<close>

lemma drop_Cons_at:
  assumes "drop off chunk = b # cs"
  shows "off < length chunk" "b = chunk ! off" "length (b # cs) = length chunk - off"
proof -
  show lt: "off < length chunk" using assms by (metis drop_all list.distinct(1) not_le)
  show "b = chunk ! off" using assms hd_drop_conv_nth [OF lt] by simp
  show "length (b # cs) = length chunk - off" using assms by (metis length_drop)
qed

lemma fast_closes:
  assumes "fb_inv fb" "fb_len fb = 0" "drop off chunk = b # cs"
    and "wire_size b = None \<or> (\<exists>n. wire_size b = Some n \<and> n \<le> length (b # cs) \<and> wire_decode (take n (b # cs)) = None)"
  shows "frames_out (consume_loop deliver chunk off fb) deliver ([], None)"
proof -
  note lt = drop_Cons_at(1) [OF assms(3)] and b = drop_Cons_at(2) [OF assms(3)] and len = drop_Cons_at(3) [OF assms(3)]
  have "consume_loop deliver chunk off fb st = Some (fst (close fb), snd (close fb), st)" for st
  proof (cases "wire_size b")
    case None
    then show ?thesis using lt assms(2) b by (simp add: consume_loop.simps [of deliver chunk off fb] frame_length_eq)
  next
    case (Some n)
    with assms(4) have n: "n \<le> length (b # cs)" "wire_decode (take n (b # cs)) = None" by auto
    obtain d where d: "take n (b # cs) = b # d" using wire.size_bounds [OF Some] by (cases n) auto
    have "length (take n (b # cs)) = n" using n(1) by simp
    from deliver_frame_ok [OF Some this d, of deliver st] n(2) have "deliver_frame deliver (take n (b # cs)) st = Some (False, st)" by simp
    then show ?thesis using lt assms(2,3) Some b n(1) len
      by (simp add: consume_loop.simps [of deliver chunk off fb] frame_length_eq)
  qed
  then show ?thesis using frames_out_closed [OF assms(1)] by (simp add: frames_out_def)
qed

lemma fast_retains:
  assumes "fb_inv fb" "fb_len fb = 0" "\<not> fb_closed fb" "drop off chunk = b # cs" "wire_size b = Some n" "length (b # cs) < n"
  shows "frames_out (consume_loop deliver chunk off fb) deliver ([], Some (b # cs))"
proof -
  let ?xs = "drop off chunk" let ?fb = "fb\<lparr>fb_buf := put (fb_buf fb) 0 ?xs, fb_len := length ?xs\<rparr>"
  note lt = drop_Cons_at(1) [OF assms(4)] and b = drop_Cons_at(2) [OF assms(4)] and len = drop_Cons_at(3) [OF assms(4)]
  have n: "frame_length (chunk ! off) = Some n" "length chunk - off < n" "n \<le> kMaxMessageLen"
    using assms(5,6) b len wire.size_bounds by (auto simp: frame_length_eq)
  have fit: "length ?xs \<le> length (fb_buf fb)" using n assms(1) by (simp add: fb_inv_def wire_lengths kMaxMessageSize_def)
  have "consume_loop deliver chunk off fb st = Some (FS_Ok, ?fb, st)" for st
    using lt assms(2) n fit by (simp add: consume_loop.simps [of deliver chunk off fb] copy_n_def)
  moreover have tk: "take (length ?xs) (put (fb_buf fb) 0 ?xs) = ?xs" by (simp add: put_def)
  moreover have "wire_split ?xs = ([], Some ?xs)" unfolding assms(4) by (rule wire.split_stop(2) [OF assms(5,6)])
  moreover have "fb_inv ?fb" using assms(1) fit n calculation by (simp add: fb_inv_def put_def)
  ultimately show ?thesis using assms(3,4) by (auto simp: frames_out_def pending_def intro!: exI [of _ ?fb])
qed

lemma fast_delivers:
  assumes "fb_len fb = 0" "drop off chunk = frame_of m @ rest" "msg_in_range m"
  shows "consume_loop deliver chunk off fb st = Option.bind (deliver m st) (consume_loop deliver chunk (off + length (frame_of m)) fb)"
    "off + length (frame_of m) \<le> length chunk" "drop (off + length (frame_of m)) chunk = rest" "0 < length (frame_of m)"
proof -
  let ?n = "length (frame_of m)"
  show pos: "0 < ?n" by (rule wire.frame_pos [OF assms(3)])
  then obtain b d where bd: "frame_of m = b # d" by (cases "frame_of m") auto
  with assms(2) have at: "drop off chunk = b # (d @ rest)" by simp
  note lt = drop_Cons_at(1) [OF at]
  have d: "frame_of m = chunk ! off # d" using bd drop_Cons_at(2) [OF at] by simp
  have sz: "wire_size (chunk ! off) = Some ?n" using wire.frame_head [OF assms(3)] d by auto
  have "length chunk - off = ?n + length rest" using arg_cong [OF assms(2), of length] by simp
  then have le: "\<not> length chunk - off < ?n" "off + ?n \<le> length chunk" using lt by linarith+
  then show "off + ?n \<le> length chunk" by simp
  have "drop (off + ?n) chunk = drop ?n (drop off chunk)" by (simp add: add.commute)
  then show "drop (off + ?n) chunk = rest" unfolding assms(2) by simp
  have "deliver_frame deliver (frame_of m) st = map_option (\<lambda>st. (True, st)) (deliver m st)"
    using deliver_frame_ok [of "chunk ! off" ?n "frame_of m" d deliver st] sz d wire.decodes [OF assms(3)] by (simp add: frame_length_eq)
  then show "consume_loop deliver chunk off fb st = Option.bind (deliver m st) (consume_loop deliver chunk (off + ?n) fb)"
    using lt assms(1,2) sz le by (cases "deliver m st") (simp_all add: consume_loop.simps [of deliver chunk off fb] frame_length_eq)
qed

lemma consume_fast:
  assumes "fb_inv fb" "fb_len fb = 0" "\<not> fb_closed fb" "off \<le> length chunk"
  shows "frames_out (consume_loop deliver chunk off fb) deliver (wire_split (drop off chunk))"
  using assms(4)
proof (induction "length chunk - off" arbitrary: off rule: less_induct)
  case less
  show ?case
  proof (cases "drop off chunk" rule: wire.stream_cases)
    case empty
    then have "off = length chunk" using less.prems by simp
    then have "consume_loop deliver chunk off fb st = Some (FS_Ok, fb, st)" for st using assms(2) by (subst consume_loop.simps) simp
    with empty assms show ?thesis by (auto simp: frames_out_def pending_def intro!: exI [of _ fb])
  next
    case (unknown b cs)
    with fast_closes [OF assms(1,2) unknown(1), of deliver] show ?thesis by (simp add: wire.split_stop)
  next
    case (short b cs n)
    with fast_retains [OF assms(1-3) short(1), of n deliver] show ?thesis using wire.split_stop(2) [of b n cs] by simp
  next
    case (bad b cs n)
    with fast_closes [OF assms(1,2) bad(1), of deliver] show ?thesis using wire.split_stop(3) [of b n cs] by auto
  next
    case (good m rest)
    note D = fast_delivers [OF assms(2) good(2,1)]
    have "frames_out (consume_loop deliver chunk (off + length (frame_of m)) fb) deliver (wire_split rest)"
      using less.hyps [OF _ D(2), unfolded D(3)] D(2,4) by linarith
    with frames_out_Cons [of "consume_loop deliver chunk (off + length (frame_of m)) fb" deliver "fst (wire_split rest)" "snd (wire_split rest)", OF _ D(1)]
    show ?thesis using good by (simp add: wire.split_frame)
  qed
qed

text \<open>
  The slow path: a retained frame is completed first.  \<open>n\<close> is the length of that frame and \<open>k\<close> the
  number of bytes the chunk contributes to it.
\<close>

lemma retained_frame:
  assumes "fb_inv fb" "fb_len fb \<noteq> 0" "\<not> fb_closed fb"
  shows "\<exists>n rs. take (fb_len fb) (fb_buf fb) = fb_buf fb ! 0 # rs \<and> wire_size (fb_buf fb ! 0) = Some n \<and> fb_len fb < n
    \<and> n \<le> kMaxMessageLen \<and> size_sub n (fb_len fb) = n - fb_len fb \<and> n < length (fb_buf fb)"
proof -
  let ?r = "take (fb_len fb) (fb_buf fb)" let ?b = "fb_buf fb ! 0"
  have buf: "length (fb_buf fb) = kMaxMessageSize" "fb_len fb \<le> kMaxMessageLen" and sp: "wire_split ?r = ([], Some ?r)"
    using assms by (auto simp: fb_inv_def)
  then have le: "fb_len fb < length (fb_buf fb)" by (simp add: wire_lengths kMaxMessageSize_def)
  obtain rs where rs: "?r = ?b # rs" using assms(2) le by (cases "fb_buf fb"; cases "fb_len fb") auto
  have lr: "length ?r = fb_len fb" using le by simp
  have "\<exists>n. wire_size ?b = Some n \<and> fb_len fb < n"
  proof (cases ?r rule: wire.stream_cases)
    case (good m rest)
    with sp show ?thesis using wire.split_frame [OF good(1), of rest] by simp
  qed (use sp lr rs in \<open>auto simp: wire.split_stop\<close>)
  then obtain n where n: "wire_size ?b = Some n" "fb_len fb < n" by blast
  have nb: "n \<le> kMaxMessageLen" using wire.size_bounds [OF n(1)] by simp
  have "size_sub n (fb_len fb) = n - fb_len fb" using n(2) nb by (intro size_sub_le) (simp_all add: wire_lengths)
  moreover have "n < length (fb_buf fb)" using nb buf by (simp add: wire_lengths kMaxMessageSize_def)
  ultimately show ?thesis using n nb rs by blast
qed

lemma slow_step:
  assumes "fb_len fb \<noteq> 0" "wire_size (fb_buf fb ! 0) = Some n" "fb_len fb < n" "size_sub n (fb_len fb) = n - fb_len fb" "n < length (fb_buf fb)"
    and k: "k = min (n - fb_len fb) (length chunk)"
    and fb1: "fb1 = fb\<lparr>fb_buf := put (fb_buf fb) (fb_len fb) (take k chunk), fb_len := fb_len fb + k\<rparr>"
  shows "consume_loop deliver chunk 0 fb st =
      (if fb_len fb + k < n then Some (FS_Ok, fb1, st)
       else do { (ok, st) \<leftarrow> deliver_frame deliver (take n (fb_buf fb1)) st;
         if \<not> ok then Some (fst (close fb1), snd (close fb1), st)
         else consume_loop deliver chunk k (fb1\<lparr>fb_len := 0\<rparr>) st })"
    and "take (fb_len fb + k) (fb_buf fb1) = take (fb_len fb) (fb_buf fb) @ take k chunk" and "length (fb_buf fb1) = length (fb_buf fb)"
proof -
  have b: "k \<le> length chunk" "fb_len fb + k \<le> n" "fb_len fb + k \<le> length (fb_buf fb)" using assms(3,5) by (auto simp: k)
  have "0 < length (fb_buf fb)" using assms(5) by linarith
  then show "consume_loop deliver chunk 0 fb st =
      (if fb_len fb + k < n then Some (FS_Ok, fb1, st)
       else do { (ok, st) \<leftarrow> deliver_frame deliver (take n (fb_buf fb1)) st;
         if \<not> ok then Some (fst (close fb1), snd (close fb1), st)
         else consume_loop deliver chunk k (fb1\<lparr>fb_len := 0\<rparr>) st })"
    using assms(1,2,4) b unfolding fb1 k [symmetric]
    by (subst consume_loop.simps) (auto simp: k [symmetric] frame_length_eq copy_n_def Let_def split: Option.bind_splits)
  show "take (fb_len fb + k) (fb_buf fb1) = take (fb_len fb) (fb_buf fb) @ take k chunk" "length (fb_buf fb1) = length (fb_buf fb)"
    using b assms(3,5) by (simp_all add: fb1 put_def)
qed

lemma slow_completes:
  assumes step: "\<And>st. consume_loop deliver chunk 0 fb st = do { (ok, st) \<leftarrow> deliver_frame deliver fr st;
      if \<not> ok then Some (fst (close fb1), snd (close fb1), st) else consume_loop deliver chunk k (fb1\<lparr>fb_len := 0\<rparr>) st }"
    and fr: "fr = b # rs" "wire_size b = Some (length fr)" and whole: "stream = fr @ drop k chunk" and k: "k \<le> length chunk"
    and fb1: "length (fb_buf fb1) = kMaxMessageSize" "\<not> fb_closed fb1" "fb_len fb1 \<le> kMaxMessageLen"
  shows "frames_out (consume_loop deliver chunk 0 fb) deliver (wire_split stream)"
proof (cases "wire_decode fr")
  case None
  have "consume_loop deliver chunk 0 fb st = Some (fst (close fb1), snd (close fb1), st)" for st
    using step deliver_frame_ok [OF fr(2) refl fr(1), of deliver st] None by simp
  moreover have "wire_split stream = ([], None)"
    using wire.split_stop(3) [OF fr(2), of "rs @ drop k chunk"] None whole fr(1) by simp
  moreover have "fb_inv (snd (close fb1))" using fb1 by (simp add: fb_inv_def close_def)
  ultimately show ?thesis by (auto simp: frames_out_def pending_def close_def intro!: exI [of _ "snd (close fb1)"])
next
  case (Some m)
  then have m: "msg_in_range m" "fr = frame_of m" using wire.only_frames by blast+
  let ?fb = "fb1\<lparr>fb_len := 0\<rparr>" let ?w = "wire_split (drop k chunk)"
  have "fb_inv ?fb" using fb1 by (simp add: fb_inv_def)
  then have "frames_out (consume_loop deliver chunk k ?fb) deliver ?w" using fb1 k by (intro consume_fast) auto
  moreover have "consume_loop deliver chunk 0 fb st = Option.bind (deliver m st) (consume_loop deliver chunk k ?fb)" for st
    using step deliver_frame_ok [OF fr(2) refl fr(1), of deliver st] Some by (cases "deliver m st") simp_all
  ultimately have "frames_out (consume_loop deliver chunk 0 fb) deliver (m # fst ?w, snd ?w)"
    using frames_out_Cons [of "consume_loop deliver chunk k ?fb" deliver "fst ?w" "snd ?w"] by simp
  then show ?thesis using wire.split_frame [OF m(1), of "drop k chunk"] whole m(2) by simp
qed

lemma consume_slow:
  assumes inv: "fb_inv fb" and len: "fb_len fb \<noteq> 0" and op: "\<not> fb_closed fb"
  shows "frames_out (consume_loop deliver chunk 0 fb) deliver (wire_split (take (fb_len fb) (fb_buf fb) @ chunk))"
proof -
  let ?r = "take (fb_len fb) (fb_buf fb)"
  from retained_frame [OF assms] obtain n rs where
    n: "?r = fb_buf fb ! 0 # rs" "wire_size (fb_buf fb ! 0) = Some n" "fb_len fb < n" "n \<le> kMaxMessageLen"
      "size_sub n (fb_len fb) = n - fb_len fb" "n < length (fb_buf fb)" by blast
  define k where "k = min (n - fb_len fb) (length chunk)"
  define fb1 where "fb1 = fb\<lparr>fb_buf := put (fb_buf fb) (fb_len fb) (take k chunk), fb_len := fb_len fb + k\<rparr>"
  note S = slow_step [OF len n(2,3,5,6) k_def fb1_def]
  have lr: "length ?r = fb_len fb" using n(3,6) by simp
  have b1: "length (fb_buf fb1) = kMaxMessageSize" using S(3) inv by (simp add: fb_inv_def)
  have b2: "\<not> fb_closed fb1" "fb_len fb1 = fb_len fb + k" using op by (simp_all add: fb1_def)
  have kb: "k \<le> length chunk" "fb_len fb + k \<le> n" using n(3) by (auto simp: k_def)
  show ?thesis
  proof (cases "fb_len fb + k < n")
    case True
    then have kc: "take k chunk = chunk" "k = length chunk" by (auto simp: k_def)
    have "wire_split (?r @ chunk) = ([], Some (?r @ chunk))"
      using wire.split_stop(2) [OF n(2), of "rs @ chunk"] n(1) True lr kc(2) by (metis append_Cons length_append)
    moreover have "fb_inv fb1" "pending fb1 = Some (?r @ chunk)"
      using S(2) b1 b2 kc calculation True n(4) by (auto simp: fb_inv_def pending_def)
    ultimately show ?thesis using S(1) True by (auto simp: frames_out_def intro!: exI [of _ fb1])
  next
    case False
    then have fl: "fb_len fb + k = n" using kb by simp
    then have fr: "take n (fb_buf fb1) = ?r @ take k chunk" "length (?r @ take k chunk) = n" using S(2) lr kb by auto
    show ?thesis
    proof (rule slow_completes)
      show "consume_loop deliver chunk 0 fb st = do { (ok, st) \<leftarrow> deliver_frame deliver (?r @ take k chunk) st;
          if \<not> ok then Some (fst (close fb1), snd (close fb1), st) else consume_loop deliver chunk k (fb1\<lparr>fb_len := 0\<rparr>) st }" for st
        using S(1) False fr(1) by simp
    qed (use n fr b1 b2 fl kb in simp_all)
  qed
qed

text \<open>One call delivers the messages completed by the chunk and keeps the unfinished tail.\<close>

lemma consume_ok:
  assumes "fb_inv fb" "pending fb = Some r"
  shows "frames_out (consume deliver chunk fb) deliver (wire_split (r @ chunk))"
  using assms consume_fast [of fb 0 chunk deliver] consume_slow [of fb deliver chunk]
  by (cases "fb_len fb = 0") (auto simp: consume_def [abs_def] pending_def split: if_splits)

lemma consume_closed: "pending fb = None \<Longrightarrow> consume deliver chunk fb st = Some (FS_Closed, fb, st)"
  by (simp add: consume_def pending_def split: if_splits)

subsection \<open>Sequences of reads\<close>

text \<open>The reads of one connection, in order, with the delivered messages collected.\<close>

definition feed_all :: "u8 list list \<Rightarrow> FrameBuffer \<Rightarrow> BinaryMessage list \<Rightarrow> (FrameBuffer \<times> BinaryMessage list) option" where
  "feed_all cs fb xs = for_each (\<lambda>c (fb, xs). do { (status, fb, xs) \<leftarrow> consume collect c fb xs; Some (fb, xs) }) cs (fb, xs)"

lemma feed_step:
  assumes "fb_inv fb"
  shows "\<exists>status fb'. consume collect c fb xs = Some (status, fb', xs @ fst (feed_pieces wire_split (pending fb) [c]))
    \<and> fb_inv fb' \<and> pending fb' = snd (feed_pieces wire_split (pending fb) [c])"
proof (cases "pending fb")
  case None
  with consume_closed [OF None, of collect c xs] assms show ?thesis by auto
next
  case (Some r)
  from consume_ok [OF assms Some, of collect c] obtain fb' where "fb_inv fb'" "pending fb' = snd (wire_split (r @ c))"
    "\<forall>st. consume collect c fb st = Some (if snd (wire_split (r @ c)) = None then FS_Closed else FS_Ok, fb', st @ fst (wire_split (r @ c)))"
    by (auto simp: frames_out_def)
  with Some show ?thesis by (auto split: prod.splits)
qed

lemma feed_pieces_Cons:
  "feed_pieces split r (c # cs) = (fst (feed_pieces split r [c]) @ fst (feed_pieces split (snd (feed_pieces split r [c])) cs),
     snd (feed_pieces split (snd (feed_pieces split r [c])) cs))"
  by (cases r) (auto split: prod.splits)

lemma feed_all_ok:
  assumes "fb_inv fb"
  shows "\<exists>fb'. feed_all cs fb xs = Some (fb', xs @ fst (feed_pieces wire_split (pending fb) cs))
    \<and> fb_inv fb' \<and> pending fb' = snd (feed_pieces wire_split (pending fb) cs)"
  using assms
proof (induction cs arbitrary: fb xs)
  case Nil
  then show ?case by (simp add: feed_all_def)
next
  case (Cons c cs)
  from feed_step [OF Cons.prems, of c xs] obtain status fb1 where
    1: "consume collect c fb xs = Some (status, fb1, xs @ fst (feed_pieces wire_split (pending fb) [c]))"
      "fb_inv fb1" "pending fb1 = snd (feed_pieces wire_split (pending fb) [c])" by blast
  from Cons.IH [OF 1(2), of "xs @ fst (feed_pieces wire_split (pending fb) [c])"] obtain fb' where
    "feed_all cs fb1 (xs @ fst (feed_pieces wire_split (pending fb) [c]))
       = Some (fb', (xs @ fst (feed_pieces wire_split (pending fb) [c])) @ fst (feed_pieces wire_split (pending fb1) cs))"
    "fb_inv fb'" "pending fb' = snd (feed_pieces wire_split (pending fb1) cs)" by blast
  with 1 show ?case unfolding feed_pieces_Cons [of _ _ c cs] feed_all_def by (auto simp del: feed_pieces.simps(3))
qed

text \<open>
  C24. Framing does not depend on how the stream is cut: for any sequence of reads the delivered
  messages and the retained bytes are those of the concatenated stream, and the retained partial
  frame is shorter than the longest message.
\<close>

theorem framing_ignores_chunking:
  assumes "fb_inv fb" "pending fb = Some r"
  shows "\<exists>fb'. feed_all cs fb xs = Some (fb', xs @ fst (wire_split (r @ concat cs)))
    \<and> pending fb' = snd (wire_split (r @ concat cs)) \<and> fb_buffered fb' \<le> kMaxMessageLen"
proof -
  have "wire_split r = ([], Some r)" using assms by (auto simp: fb_inv_def pending_def split: if_splits)
  from wire.feed_pieces_concat [OF this, of cs] feed_all_ok [OF assms(1), of cs xs] assms(2) show ?thesis
    by (auto simp: fb_buffered_def fb_inv_def)
qed

theorem framing_ignores_chunking_witness:
  "\<exists>fb'. feed_all [[1, 7, 0], [], [0, 0, 0, 0, 0, 0, 3]] fb_new [] = Some (fb', [BM_CancelOrder \<lparr>co_order_id = 7\<rparr>])
     \<and> pending fb' = Some [3]"
proof -
  have f: "frame_of (BM_CancelOrder \<lparr>co_order_id = 7\<rparr>) = [1, 7, 0, 0, 0, 0, 0, 0, 0]" by code_simp
  have v: "msg_in_range (BM_CancelOrder \<lparr>co_order_id = 7\<rparr>)" by (simp add: msg_in_range_def)
  have sz: "wire_size 3 = Some 10" by code_simp
  have t: "wire_split [3] = ([], Some [3])" using split_short [of wire_size 3 10 "[]" wire_decode] sz by simp
  have "wire_split [1, 7, 0, 0, 0, 0, 0, 0, 0, 3] = ([BM_CancelOrder \<lparr>co_order_id = 7\<rparr>], Some [3])"
    using wire.split_frame [OF v, of "[3]"] f t by simp
  with framing_ignores_chunking [OF fb_new_inv, of "[[1, 7, 0], [], [0, 0, 0, 0, 0, 0, 3]]" "[]"] show ?thesis by auto
qed

text \<open>
  C25. Reassembly: the frames of any in-range messages, concatenated and cut into reads at arbitrary
  bytes, are delivered as exactly those messages in that order, with nothing left over.
\<close>

theorem reassembly_exact:
  assumes "\<forall>m\<in>set ms. msg_in_range m" "concat cs = concat (map frame_of ms)"
  shows "\<exists>fb'. feed_all cs fb_new [] = Some (fb', ms) \<and> pending fb' = Some []"
proof -
  have "wire_split (concat cs) = (ms, Some [])" using wire.split_frames [OF assms(1)] assms(2) by simp
  moreover have "feed_pieces wire_split (Some []) cs = wire_split (concat cs)" using wire.feed_pieces_concat [of "[]" cs] by simp
  ultimately show ?thesis using feed_all_ok [OF fb_new_inv(1), of cs "[]"] fb_new_inv(2) by auto
qed

theorem reassembly_exact_witness:
  "\<exists>fb'. feed_all [[1, 7, 0, 0], [0, 0, 0, 0, 0, 3, 9], [0, 0, 0, 0, 0, 0, 0, 1]] fb_new []
     = Some (fb', [BM_CancelOrder \<lparr>co_order_id = 7\<rparr>, BM_Ack \<lparr>ack_order_id = 9, ack_kind = Cancelled\<rparr>])"
proof -
  let ?ms = "[BM_CancelOrder \<lparr>co_order_id = 7\<rparr>, BM_Ack \<lparr>ack_order_id = 9, ack_kind = Cancelled\<rparr>]"
  let ?cs = "[[1, 7, 0, 0], [0, 0, 0, 0, 0, 3, 9], [0, 0, 0, 0, 0, 0, 0, 1]] :: u8 list list"
  have "concat ?cs = concat (map frame_of ?ms)" by code_simp
  moreover have "\<forall>m\<in>set ?ms. msg_in_range m" by (simp add: msg_in_range_def)
  ultimately show ?thesis using reassembly_exact [of ?ms ?cs] by blast
qed

text \<open>
  C26. A malformed stream: as soon as an unknown type byte or an undecodable frame is at the head,
  everything before it has been delivered, the connection is marked closed, and it stays closed
  whatever follows, with nothing more delivered.
\<close>

theorem framing_closes_for_good:
  assumes "\<forall>m\<in>set ms. msg_in_range m" "wire_split bad = ([], None)" "concat cs = concat (map frame_of ms) @ bad @ rest"
  shows "\<exists>fb'. feed_all cs fb_new [] = Some (fb', ms) \<and> pending fb' = None
    \<and> (\<forall>chunk xs. consume collect chunk fb' xs = Some (FS_Closed, fb', xs))"
proof -
  have "wire_split (bad @ rest) = ([], None)" using wire.split_closed [OF assms(2)] .
  moreover have m: "wire_split (concat (map frame_of ms)) = (ms, Some [])" by (rule wire.split_frames [OF assms(1)])
  ultimately have c: "wire_split (concat cs) = (ms, None)"
    using wire.split_resume [OF m, of "bad @ rest"] unfolding assms(3) by simp
  have f: "feed_pieces wire_split (pending fb_new) cs = (ms, None)"
    unfolding fb_new_inv(2) using wire.feed_pieces_concat [OF split_Nil, of cs] c by simp
  from feed_all_ok [OF fb_new_inv(1), of cs "[]", unfolded f] obtain fb' where
    fb: "feed_all cs fb_new [] = Some (fb', ms)" "pending fb' = None" by auto
  have "\<forall>chunk xs. consume collect chunk fb' xs = Some (FS_Closed, fb', xs)"
    by (intro allI consume_closed [OF fb(2)])
  with fb show ?thesis by (intro exI [of _ fb'] conjI)
qed

theorem framing_closes_for_good_witness:
  "\<exists>fb'. feed_all [[1, 7, 0, 0, 0], [0, 0, 0, 0, 9, 1], [2]] fb_new [] = Some (fb', [BM_CancelOrder \<lparr>co_order_id = 7\<rparr>])
     \<and> pending fb' = None"
proof -
  let ?ms = "[BM_CancelOrder \<lparr>co_order_id = 7\<rparr>]"
  have "wire_size 9 = None" by code_simp
  then have b: "wire_split [9] = ([], None)" by (rule split_unknown)
  have c: "concat [[1, 7, 0, 0, 0], [0, 0, 0, 0, 9, 1], [2 :: u8]] = concat (map frame_of ?ms) @ [9] @ [1, 2]" by code_simp
  have "\<forall>m\<in>set ?ms. msg_in_range m" by (simp add: msg_in_range_def)
  from framing_closes_for_good [OF this b c] show ?thesis by blast
qed

end
