(* ===== verification/Connection_Registry.thy ===== *)
theory Connection_Registry
  imports Frame_Buffer
begin

text \<open>
  \<open>ConnectionRegistry\<close> of \<open>connection_registry.hpp\<close>: accept, read and teardown of client connections
  over an abstract \<open>ReadinessPoller\<close>.  The poller's operations return nothing, so what the registry
  does to it is exactly the sequence of its calls, kept in \<open>cr_poller\<close>, oldest first.  The
  \<open>unordered_map\<close> is an association list; only its keys, its size and lookups are used.
\<close>

type_synonym SocketHandle = int

datatype AcceptResult = Registered | RejectedAtCapacity

datatype TeardownReason = OversizeFrame | PeerClosed | SocketError

datatype PollerCall =
  RegisterReadiness SocketHandle
| DeregisterReadiness SocketHandle
| CloseSocket SocketHandle

record ConnectionRegistry =
  cr_poller :: "PollerCall list"
  cr_max_connections :: u32
  cr_connections :: "(SocketHandle \<times> FrameBuffer) list"

definition kMaxConnections :: u32 where "kMaxConnections = 10000"

definition poller_call :: "PollerCall \<Rightarrow> ConnectionRegistry \<Rightarrow> ConnectionRegistry" where
  "poller_call c r = r\<lparr>cr_poller := cr_poller r @ [c]\<rparr>"

definition registry_new :: "u32 \<Rightarrow> ConnectionRegistry" where
  "registry_new max_connections = \<lparr>cr_poller = [], cr_max_connections = max_connections, cr_connections = []\<rparr>"

definition try_emplace :: "SocketHandle \<Rightarrow> ConnectionRegistry \<Rightarrow> ConnectionRegistry" where
  "try_emplace fd r =
     (if map_of (cr_connections r) fd = None then r\<lparr>cr_connections := (fd, fb_new) # cr_connections r\<rparr> else r)"

definition accept :: "SocketHandle \<Rightarrow> ConnectionRegistry \<Rightarrow> AcceptResult \<times> ConnectionRegistry" where
  "accept fd r =
     (if length (cr_connections r) \<ge> unat (cr_max_connections r)
      then (RejectedAtCapacity, poller_call (CloseSocket fd) r)
      else (Registered, poller_call (RegisterReadiness fd) (try_emplace fd r)))"

definition erase_conn :: "SocketHandle \<Rightarrow> ConnectionRegistry \<Rightarrow> ConnectionRegistry" where
  "erase_conn fd r = r\<lparr>cr_connections := filter (\<lambda>c. fst c \<noteq> fd) (cr_connections r)\<rparr>"

definition teardown :: "SocketHandle \<Rightarrow> TeardownReason \<Rightarrow> ConnectionRegistry \<Rightarrow> ConnectionRegistry" where
  "teardown fd reason r =
     (case map_of (cr_connections r) fd of
        None \<Rightarrow> r
      | Some _ \<Rightarrow> erase_conn fd (poller_call (CloseSocket fd) (poller_call (DeregisterReadiness fd) r)))"

text \<open>Storing back a connection whose framer was updated in place.\<close>

definition set_framer :: "SocketHandle \<Rightarrow> FrameBuffer \<Rightarrow> ConnectionRegistry \<Rightarrow> ConnectionRegistry" where
  "set_framer fd fb r = r\<lparr>cr_connections := map (\<lambda>(k, v). if k = fd then (k, fb) else (k, v)) (cr_connections r)\<rparr>"

definition on_readable ::
  "(BinaryMessage \<Rightarrow> 's \<Rightarrow> 's option) \<Rightarrow> SocketHandle \<Rightarrow> u8 list \<Rightarrow> ConnectionRegistry \<Rightarrow> 's
     \<Rightarrow> (bool \<times> ConnectionRegistry \<times> 's) option" where
  "on_readable deliver fd bytes r st =
     (case map_of (cr_connections r) fd of
        None \<Rightarrow> Some (False, r, st)
      | Some fb \<Rightarrow> do {
          (status, fb, st) \<leftarrow> consume deliver bytes fb st;
          let r = set_framer fd fb r;
          Some (if status = FS_Closed then (False, teardown fd OversizeFrame r, st) else (True, r, st))
        })"

definition active_count :: "ConnectionRegistry \<Rightarrow> u32" where
  "active_count r = of_nat (length (cr_connections r))"

definition is_registered :: "ConnectionRegistry \<Rightarrow> SocketHandle \<Rightarrow> bool" where
  "is_registered r fd \<longleftrightarrow> map_of (cr_connections r) fd \<noteq> None"

definition registry_max_connections :: "ConnectionRegistry \<Rightarrow> u32" where
  "registry_max_connections r = cr_max_connections r"

definition conn_buffered :: "ConnectionRegistry \<Rightarrow> SocketHandle \<Rightarrow> nat" where
  "conn_buffered r fd = (case map_of (cr_connections r) fd of None \<Rightarrow> 0 | Some fb \<Rightarrow> fb_buffered fb)"

subsection \<open>Invariant\<close>

text \<open>The unfinished frame of a connection; \<open>None\<close> when the connection is not tracked.\<close>

definition tail_of :: "ConnectionRegistry \<Rightarrow> SocketHandle \<rightharpoonup> u8 list" where
  "tail_of r fd = Option.bind (map_of (cr_connections r) fd) pending"

text \<open>What the poller monitors after a sequence of calls.\<close>

definition poll_step :: "SocketHandle set \<Rightarrow> PollerCall \<Rightarrow> SocketHandle set" where
  "poll_step S c = (case c of RegisterReadiness fd \<Rightarrow> insert fd S | DeregisterReadiness fd \<Rightarrow> S - {fd} | CloseSocket fd \<Rightarrow> S)"

definition monitored :: "PollerCall list \<Rightarrow> SocketHandle set" where
  "monitored cs = foldl poll_step {} cs"

text \<open>No socket is closed while it is still monitored.\<close>

fun safe_from :: "SocketHandle set \<Rightarrow> PollerCall list \<Rightarrow> bool" where
  "safe_from S [] = True"
| "safe_from S (c # cs) \<longleftrightarrow> (case c of CloseSocket fd \<Rightarrow> fd \<notin> S | _ \<Rightarrow> True) \<and> safe_from (poll_step S c) cs"

definition closes_safely :: "PollerCall list \<Rightarrow> bool" where
  "closes_safely cs = safe_from {} cs"

definition reg_inv :: "ConnectionRegistry \<Rightarrow> bool" where
  "reg_inv r \<longleftrightarrow> distinct (map fst (cr_connections r)) \<and> length (cr_connections r) \<le> unat (cr_max_connections r)
     \<and> (\<forall>(fd, fb)\<in>set (cr_connections r). fb_inv fb \<and> pending fb \<noteq> None)
     \<and> monitored (cr_poller r) = fst ` set (cr_connections r) \<and> closes_safely (cr_poller r)"

lemma monitored_append [simp]: "monitored (cs @ ds) = foldl poll_step (monitored cs) ds" "monitored [] = {}"
  by (simp_all add: monitored_def)

text \<open>
  The interface \<open>ReadinessPoller\<close>, as the registry relies on it: what each call does to the set of
  watched sockets.  An implementation that replays the registry's calls watches exactly the
  connections the registry tracks.
\<close>

locale readiness_poller =
  fixes call :: "PollerCall \<Rightarrow> 'p \<Rightarrow> 'p"
    and watched :: "'p \<Rightarrow> SocketHandle set"
  assumes watched_register: "watched (call (RegisterReadiness fd) p) = insert fd (watched p)"
    and watched_deregister: "watched (call (DeregisterReadiness fd) p) = watched p - {fd}"
    and watched_close: "watched (call (CloseSocket fd) p) = watched p"
begin

lemma watched_replay: "watched (fold call cs p) = foldl poll_step (watched p) cs"
proof (induction cs arbitrary: p)
  case (Cons c cs)
  have "watched (call c p) = poll_step (watched p) c"
    by (cases c) (simp_all add: poll_step_def watched_register watched_deregister watched_close)
  with Cons show ?case by simp
qed simp

lemma replay_in_step:
  assumes "watched p = fst ` set (cr_connections r)" "reg_inv r" "reg_inv r'" "cr_poller r' = cr_poller r @ cs"
  shows "watched (fold call cs p) = fst ` set (cr_connections r')"
  using assms by (simp add: watched_replay reg_inv_def)

end

lemma safe_from_append: "safe_from S (cs @ ds) \<longleftrightarrow> safe_from S cs \<and> safe_from (foldl poll_step S cs) ds"
  by (induction cs arbitrary: S) auto

lemma closes_safely_append [simp]: "closes_safely (cs @ ds) \<longleftrightarrow> closes_safely cs \<and> safe_from (monitored cs) ds"
  by (simp add: closes_safely_def safe_from_append monitored_def)

lemma map_of_key: "map_of xs k = Some v \<Longrightarrow> k \<in> fst ` set xs"
  by (metis domI dom_map_of_conv_image_fst)

lemma map_of_no_key: "map_of xs k = None \<longleftrightarrow> k \<notin> fst ` set xs"
  by (rule map_of_eq_None_iff)

lemma registry_new_inv: "reg_inv (registry_new n)"
  by (simp add: reg_inv_def registry_new_def closes_safely_def)

lemma accept_inv:
  assumes "reg_inv r" "\<not> is_registered r fd"
  shows "reg_inv (snd (accept fd r))"
proof (cases "length (cr_connections r) \<ge> unat (cr_max_connections r)")
  case True
  with assms show ?thesis
    by (simp add: accept_def reg_inv_def poller_call_def poll_step_def is_registered_def map_of_no_key)
next
  case False
  with assms show ?thesis
    by (simp add: accept_def reg_inv_def poller_call_def try_emplace_def poll_step_def is_registered_def
        map_of_no_key fb_new_inv)
qed

lemma map_of_filter_key: "map_of (filter (\<lambda>c. fst c \<noteq> k) xs) = (map_of xs)(k := None)"
  by (induction xs) (auto simp: fun_eq_iff)

lemma map_fst_filter: "map fst (filter (\<lambda>c. fst c \<noteq> k) xs) = filter (\<lambda>j. j \<noteq> k) (map fst xs)"
  by (induction xs) auto

lemma teardown_inv:
  assumes "reg_inv r"
  shows "reg_inv (teardown fd reason r)"
proof (cases "map_of (cr_connections r) fd")
  case (Some fb)
  have "length (filter (\<lambda>c. fst c \<noteq> fd) (cr_connections r)) \<le> unat (cr_max_connections r)"
    using assms length_filter_le [of "\<lambda>c. fst c \<noteq> fd" "cr_connections r"] by (simp add: reg_inv_def del: length_filter_le)
  moreover have "fst ` set (filter (\<lambda>c. fst c \<noteq> fd) (cr_connections r)) = fst ` set (cr_connections r) - {fd}" by auto
  ultimately show ?thesis
    using assms Some by (auto simp: teardown_def reg_inv_def erase_conn_def poller_call_def poll_step_def map_fst_filter)
qed (simp add: teardown_def assms)

lemma teardown_tail:
  "tail_of (teardown fd reason r) = (tail_of r)(fd := None)"
  by (auto simp: tail_of_def teardown_def erase_conn_def poller_call_def map_of_filter_key fun_eq_iff split: option.splits)

lemma set_framer_map: "map_of (cr_connections (set_framer fd fb r)) = (\<lambda>k. if k = fd then map_option (\<lambda>_. fb) (map_of (cr_connections r) fd)
     else map_of (cr_connections r) k)"
proof -
  have "map_of (map (\<lambda>(k, v). if k = fd then (k, fb) else (k, v)) xs) = (\<lambda>k. if k = fd then map_option (\<lambda>_. fb) (map_of xs fd) else map_of xs k)" for xs
    by (induction xs) (auto simp: fun_eq_iff)
  then show ?thesis by (simp add: set_framer_def)
qed

lemma set_framer_sel [simp]:
  "map fst (cr_connections (set_framer fd fb r)) = map fst (cr_connections r)"
  "length (cr_connections (set_framer fd fb r)) = length (cr_connections r)"
  "cr_poller (set_framer fd fb r) = cr_poller r" "cr_max_connections (set_framer fd fb r) = cr_max_connections r"
  by (auto simp: set_framer_def)

lemma set_framer_inv:
  assumes "reg_inv r" "fb_inv fb" "pending fb \<noteq> None"
  shows "reg_inv (set_framer fd fb r)"
proof -
  have "fst ` set (cr_connections (set_framer fd fb r)) = fst ` set (cr_connections r)"
    by (metis image_set set_framer_sel(1))
  moreover have "\<forall>(fd, fb)\<in>set (cr_connections (set_framer fd fb r)). fb_inv fb \<and> pending fb \<noteq> None"
    using assms by (auto simp: reg_inv_def set_framer_def split: if_splits)
  ultimately show ?thesis using assms(1) by (simp add: reg_inv_def)
qed

text \<open>Tearing down after the framer was updated: the update is lost with the connection.\<close>

lemma teardown_set_framer: "map_of (cr_connections r) fd = Some fb0 \<Longrightarrow> teardown fd reason (set_framer fd fb r) = teardown fd reason r"
proof -
  assume k: "map_of (cr_connections r) fd = Some fb0"
  have "filter (\<lambda>c. fst c \<noteq> fd) (map (\<lambda>(k, v). if k = fd then (k, fb) else (k, v)) xs) = filter (\<lambda>c. fst c \<noteq> fd) xs" for xs
    by (induction xs) (auto split: if_splits)
  with k set_framer_map [of fd fb r] show ?thesis
    by (simp add: teardown_def erase_conn_def poller_call_def) (simp add: set_framer_def)
qed

text \<open>What a read does to the poller and to the tracked sockets, given the tail it leaves.\<close>

definition reg_after :: "SocketHandle \<Rightarrow> u8 list option \<Rightarrow> ConnectionRegistry \<Rightarrow> ConnectionRegistry \<Rightarrow> bool" where
  "reg_after fd t r r' \<longleftrightarrow>
     cr_poller r' = cr_poller r @ (if t = None then [DeregisterReadiness fd, CloseSocket fd] else [])
     \<and> map fst (cr_connections r') = filter (\<lambda>k. t = None \<longrightarrow> k \<noteq> fd) (map fst (cr_connections r))
     \<and> cr_max_connections r' = cr_max_connections r"

lemma reg_after_teardown: "map_of (cr_connections r) fd = Some fb \<Longrightarrow> reg_after fd None r (teardown fd reason r)"
  by (simp add: reg_after_def teardown_def erase_conn_def poller_call_def map_fst_filter)

text \<open>
  One read: the messages completed by the bytes are delivered; a malformed stream tears the
  connection down, and every other connection keeps its state.
\<close>

lemma on_readable_ok:
  assumes "reg_inv r" "tail_of r fd = Some t"
  shows "\<exists>r'. reg_inv r' \<and> tail_of r' = (tail_of r)(fd := snd (wire_split (t @ bytes)))
    \<and> reg_after fd (snd (wire_split (t @ bytes))) r r'
    \<and> (\<forall>st. on_readable deliver fd bytes r st
         = map_option (\<lambda>st'. (snd (wire_split (t @ bytes)) \<noteq> None, r', st')) (for_each deliver (fst (wire_split (t @ bytes))) st))"
proof -
  let ?s = "wire_split (t @ bytes)"
  from assms(2) obtain fb where fb: "map_of (cr_connections r) fd = Some fb" "pending fb = Some t"
    by (auto simp: tail_of_def bind_eq_Some_conv)
  have "fb_inv fb" using map_of_SomeD [OF fb(1)] assms(1) by (auto simp: reg_inv_def)
  from consume_ok [OF this fb(2), of deliver bytes] obtain fb' where fb': "fb_inv fb'" "pending fb' = snd ?s"
    "\<forall>st. consume deliver bytes fb st = map_option (\<lambda>st'. (if snd ?s = None then FS_Closed else FS_Ok, fb', st')) (for_each deliver (fst ?s) st)"
    by (auto simp: frames_out_def)
  show ?thesis
  proof (cases "snd ?s")
    case None
    have "on_readable deliver fd bytes r st = map_option (\<lambda>st'. (False, teardown fd OversizeFrame r, st')) (for_each deliver (fst ?s) st)" for st
      using fb(1) fb'(3) None teardown_set_framer [OF fb(1), of OversizeFrame fb']
      by (cases "for_each deliver (fst ?s) st") (simp_all add: on_readable_def)
    then show ?thesis
      using None teardown_inv [OF assms(1), of fd OversizeFrame] teardown_tail [of fd OversizeFrame r]
        reg_after_teardown [OF fb(1)] by auto
  next
    case (Some t')
    have "on_readable deliver fd bytes r st = map_option (\<lambda>st'. (True, set_framer fd fb' r, st')) (for_each deliver (fst ?s) st)" for st
      using fb(1) fb'(3) Some by (cases "for_each deliver (fst ?s) st") (simp_all add: on_readable_def)
    moreover have "tail_of (set_framer fd fb' r) = (tail_of r)(fd := Some t')"
      using fb fb'(2) Some by (auto simp: tail_of_def set_framer_map fun_eq_iff)
    moreover have "reg_inv (set_framer fd fb' r)" using set_framer_inv [OF assms(1) fb'(1), of fd] fb'(2) Some by simp
    moreover have "reg_after fd (Some t') r (set_framer fd fb' r)" by (simp add: reg_after_def)
    ultimately show ?thesis using Some by auto
  qed
qed

lemma on_readable_unknown: "tail_of r fd = None \<Longrightarrow> reg_inv r \<Longrightarrow> on_readable deliver fd bytes r st = Some (False, r, st)"
  by (auto simp: on_readable_def tail_of_def reg_inv_def bind_eq_None_conv split: option.splits dest!: map_of_SomeD)

lemma tracked_iff:
  assumes "reg_inv r"
  shows "is_registered r fd \<longleftrightarrow> tail_of r fd \<noteq> None"
proof (cases "map_of (cr_connections r) fd")
  case (Some fb)
  with assms map_of_SomeD [OF Some] show ?thesis by (auto simp: reg_inv_def is_registered_def tail_of_def)
qed (simp add: is_registered_def tail_of_def)

subsection \<open>Reachable registries\<close>

text \<open>
  The event loop's use of a registry: newly accepted sockets are not yet tracked (the operating
  system hands out a descriptor only when it is not open), and reads and teardowns may name any
  socket.
\<close>

inductive reg_reach :: "u32 \<Rightarrow> ConnectionRegistry \<Rightarrow> bool" for n where
  start: "reg_reach n (registry_new n)"
| accept: "reg_reach n r \<Longrightarrow> \<not> is_registered r fd \<Longrightarrow> reg_reach n (snd (accept fd r))"
| readable: "reg_reach n r \<Longrightarrow> on_readable collect fd bytes r xs = Some (ok, r', xs') \<Longrightarrow> reg_reach n r'"
| teardown: "reg_reach n r \<Longrightarrow> reg_reach n (teardown fd reason r)"

lemma accept_max [simp]: "cr_max_connections (snd (accept fd r)) = cr_max_connections r"
  by (simp add: accept_def poller_call_def try_emplace_def)

lemma teardown_max [simp]: "cr_max_connections (teardown fd reason r) = cr_max_connections r"
  by (simp add: teardown_def erase_conn_def poller_call_def split: option.splits)

lemma readable_inv:
  assumes "reg_inv r"
  shows "\<exists>ok r' xs'. on_readable collect fd bytes r xs = Some (ok, r', xs') \<and> reg_inv r' \<and> cr_max_connections r' = cr_max_connections r"
proof (cases "tail_of r fd")
  case None
  with on_readable_unknown [OF None assms, of collect bytes xs] assms show ?thesis by auto
next
  case (Some t)
  from on_readable_ok [OF assms Some, of bytes collect] show ?thesis by (auto simp: reg_after_def)
qed

lemma reg_reach_inv: "reg_reach n r \<Longrightarrow> reg_inv r \<and> cr_max_connections r = n"
proof (induction rule: reg_reach.induct)
  case start
  then show ?case by (simp add: registry_new_inv) (simp add: registry_new_def)
next
  case (accept r fd)
  then show ?case by (simp add: accept_inv)
next
  case (readable r fd bytes xs ok r' xs')
  with readable_inv [of r fd bytes xs] show ?case by auto
next
  case (teardown r fd reason)
  then show ?case by (simp add: teardown_inv)
qed

text \<open>
  C28. Connection lifecycle: after any sequence of accepts, reads and teardowns the number of
  connections is within the cap and is what \<open>active_count\<close> reports, the poller monitors exactly
  the tracked sockets, no socket was ever closed while still monitored, and no tracked connection
  buffers more than one message.
\<close>

theorem registry_lifecycle_sound:
  assumes "reg_reach n r"
  shows "unat (active_count r) = length (cr_connections r) \<and> active_count r \<le> n
    \<and> monitored (cr_poller r) = {fd. is_registered r fd} \<and> closes_safely (cr_poller r)
    \<and> conn_buffered r fd \<le> kMaxMessageLen"
proof -
  from reg_reach_inv [OF assms] have inv: "reg_inv r" and n: "cr_max_connections r = n" by auto
  then have len: "length (cr_connections r) \<le> unat n" by (simp add: reg_inv_def)
  moreover have "unat n < 2 ^ LENGTH(32)" by (rule unsigned_less)
  ultimately have "length (cr_connections r) < 2 ^ LENGTH(32)" by (rule le_less_trans)
  then have "unat (active_count r) = length (cr_connections r)"
    by (simp add: active_count_def unat_of_nat take_bit_nat_eq_self)
  moreover have "{fd. is_registered r fd} = fst ` set (cr_connections r)"
    by (auto simp: is_registered_def map_of_no_key)
  moreover have "fb_len fb \<le> kMaxMessageLen" if "map_of (cr_connections r) fd = Some fb" for fb
    using map_of_SomeD [OF that] inv by (auto simp: reg_inv_def fb_inv_def)
  then have "conn_buffered r fd \<le> kMaxMessageLen" by (simp add: conn_buffered_def fb_buffered_def split: option.splits)
  ultimately show ?thesis using inv len by (simp add: reg_inv_def word_le_nat_alt)
qed

theorem registry_lifecycle_sound_witness:
  "\<exists>r. reg_reach 1 r \<and> cr_poller r = [RegisterReadiness 5, CloseSocket 6, DeregisterReadiness 5, CloseSocket 5]
     \<and> monitored (cr_poller r) = {} \<and> closes_safely (cr_poller r)"
proof -
  let ?r1 = "snd (accept 5 (registry_new 1))" let ?r2 = "snd (accept 6 ?r1)" let ?r3 = "teardown 5 PeerClosed ?r2"
  have 1: "reg_reach 1 ?r1" by (intro reg_reach.accept reg_reach.start) (simp add: is_registered_def registry_new_def)
  have "cr_connections ?r1 = [(5, fb_new)]" by (simp add: accept_def registry_new_def try_emplace_def poller_call_def)
  then have 2: "reg_reach 1 ?r2" by (intro reg_reach.accept 1) (simp add: is_registered_def)
  have 3: "reg_reach 1 ?r3" by (rule reg_reach.teardown [OF 2])
  have p: "cr_poller ?r3 = [RegisterReadiness 5, CloseSocket 6, DeregisterReadiness 5, CloseSocket 5]" "cr_connections ?r3 = []"
    by (simp_all add: accept_def registry_new_def try_emplace_def poller_call_def teardown_def erase_conn_def)
  with registry_lifecycle_sound [OF 3] 3 show ?thesis by (auto simp: is_registered_def)
qed

text \<open>
  One read of one connection: the messages completed by the bytes are delivered in order; the
  connection stays open with the unfinished tail, or, when the stream is malformed, is torn down;
  every other connection keeps its buffered bytes.
\<close>

theorem read_delivers_and_isolates:
  assumes "reg_reach n r" "tail_of r fd = Some t"
  shows "\<exists>r'. on_readable collect fd bytes r [] = Some (snd (wire_split (t @ bytes)) \<noteq> None, r', fst (wire_split (t @ bytes)))
    \<and> tail_of r' fd = snd (wire_split (t @ bytes)) \<and> (\<forall>k. k \<noteq> fd \<longrightarrow> tail_of r' k = tail_of r k)
    \<and> (is_registered r' fd \<longleftrightarrow> snd (wire_split (t @ bytes)) \<noteq> None)"
proof -
  from reg_reach_inv [OF assms(1)] have "reg_inv r" by simp
  from on_readable_ok [OF this assms(2), of bytes collect] obtain r' where r': "reg_inv r'"
    "tail_of r' = (tail_of r)(fd := snd (wire_split (t @ bytes)))"
    "on_readable collect fd bytes r [] = Some (snd (wire_split (t @ bytes)) \<noteq> None, r', fst (wire_split (t @ bytes)))"
    by auto
  have "is_registered r' fd \<longleftrightarrow> snd (wire_split (t @ bytes)) \<noteq> None" using tracked_iff [OF r'(1), of fd] r'(2) by simp
  with r' show ?thesis by (intro exI [of _ r']) simp
qed

theorem read_delivers_and_isolates_witness:
  "\<exists>r'. on_readable collect 5 [9] (snd (accept 5 (registry_new 1))) [] = Some (False, r', []) \<and> \<not> is_registered r' 5"
proof -
  let ?r1 = "snd (accept 5 (registry_new 1))"
  have 1: "reg_reach 1 ?r1" by (intro reg_reach.accept reg_reach.start) (simp add: is_registered_def registry_new_def)
  have t: "tail_of ?r1 5 = Some []"
    by (simp add: tail_of_def accept_def registry_new_def try_emplace_def poller_call_def fb_new_inv)
  have "wire_size 9 = None" by code_simp
  then have "wire_split [9] = ([], None)" by (rule split_unknown)
  with read_delivers_and_isolates [OF 1 t, of "[9]"] show ?thesis by auto
qed

end
