(* ===== verification/Server_Pipeline.thy ===== *)
theory Server_Pipeline
  imports Engine_Processor Connection_Registry
begin

text \<open>
  \<open>ServerPipeline\<close> of \<open>server_pipeline.hpp\<close>: one socket read is framed, its messages are queued, the
  engine runs over the queue, and every resulting event is encoded and handed to the outbound sink.
  The lambda that \<open>submit_client_bytes\<close> passes to the registry captures \<open>this\<close>; here it threads the
  pipeline, and the registry is written back when the call returns.  \<open>'s\<close> is the state of \<open>out\<close>.
\<close>

definition kDefaultMaxOrders :: nat where "kDefaultMaxOrders = 2 ^ 16"
definition kDefaultMaxPriceLevels :: nat where "kDefaultMaxPriceLevels = 2 ^ 14"
definition kDefaultRingCapacity :: nat where "kDefaultRingCapacity = 2 ^ 12"

record ServerPipeline =
  sp_processor :: EngineProcessor
  sp_registry :: ConnectionRegistry
  sp_ingress_backpressure_count :: u64
  sp_responses_emitted :: u64

definition pipeline_new :: "nat \<Rightarrow> nat \<Rightarrow> nat \<Rightarrow> nat \<Rightarrow> u32 \<Rightarrow> ServerPipeline" where
  "pipeline_new n m i g max_connections = \<lparr>sp_processor = processor_new n m i g,
     sp_registry = registry_new max_connections, sp_ingress_backpressure_count = 0, sp_responses_emitted = 0\<rparr>"

definition sp_initialize :: "EngineConfig \<Rightarrow> ServerPipeline \<Rightarrow> bool \<times> ServerPipeline" where
  "sp_initialize config p = (case initialize config (sp_processor p) of (ok, q) \<Rightarrow> (ok, p\<lparr>sp_processor := q\<rparr>))"

definition sp_operational :: "ServerPipeline \<Rightarrow> bool" where
  "sp_operational p = ep_operational (sp_processor p)"

definition sp_accept :: "SocketHandle \<Rightarrow> ServerPipeline \<Rightarrow> AcceptResult \<times> ServerPipeline" where
  "sp_accept fd p = (case accept fd (sp_registry p) of (res, r) \<Rightarrow> (res, p\<lparr>sp_registry := r\<rparr>))"

definition sp_teardown :: "SocketHandle \<Rightarrow> TeardownReason \<Rightarrow> ServerPipeline \<Rightarrow> ServerPipeline" where
  "sp_teardown fd reason p = p\<lparr>sp_registry := teardown fd reason (sp_registry p)\<rparr>"

text \<open>The body of the lambda passed to \<open>on_readable\<close>.\<close>

definition enqueue :: "BinaryMessage \<Rightarrow> ServerPipeline \<Rightarrow> ServerPipeline option" where
  "enqueue msg p = do {
     (ok, q) \<leftarrow> submit msg (sp_processor p);
     let p = p\<lparr>sp_processor := q\<rparr>;
     Some (if ok then p else p\<lparr>sp_ingress_backpressure_count := sp_ingress_backpressure_count p + 1\<rparr>)
   }"

partial_function (option) drain_events ::
  "(SocketHandle \<Rightarrow> u8 list \<Rightarrow> 's \<Rightarrow> 's option) \<Rightarrow> SocketHandle \<Rightarrow> ServerPipeline \<Rightarrow> 's \<Rightarrow> (ServerPipeline \<times> 's) option" where
  "drain_events out fd p st = do {
     (event, q) \<leftarrow> next_event (sp_processor p);
     (case event of
        None \<Rightarrow> Some (p\<lparr>sp_processor := q\<rparr>, st)
      | Some e \<Rightarrow> do {
          (encoded, frame) \<leftarrow> encode e (replicate kMaxMessageLen 0);
          (case encoded of
             Inl _ \<Rightarrow> drain_events out fd (p\<lparr>sp_processor := q\<rparr>) st
           | Inr n \<Rightarrow> do {
               st \<leftarrow> out fd (take n frame) st;
               drain_events out fd (p\<lparr>sp_processor := q, sp_responses_emitted := sp_responses_emitted p + 1\<rparr>) st
             })
        })
   }"

declare drain_events.simps [code]

definition submit_client_bytes ::
  "(SocketHandle \<Rightarrow> u8 list \<Rightarrow> 's \<Rightarrow> 's option) \<Rightarrow> SocketHandle \<Rightarrow> u8 list \<Rightarrow> ServerPipeline \<Rightarrow> 's
     \<Rightarrow> (FrameStatus \<times> ServerPipeline \<times> 's) option" where
  "submit_client_bytes out fd bytes p st =
     (if \<not> ep_operational (sp_processor p) then Some (FS_Closed, p, st)
      else do {
        (still_open, r, p) \<leftarrow> on_readable enqueue fd bytes (sp_registry p) p;
        let p = p\<lparr>sp_registry := r\<rparr>;
        (_, q) \<leftarrow> process_all (sp_processor p);
        let p = p\<lparr>sp_processor := q\<rparr>;
        (p, st) \<leftarrow> drain_events out fd p st;
        Some (if still_open then FS_Ok else FS_Closed, p, st)
      })"

definition ingress_backpressure_count :: "ServerPipeline \<Rightarrow> u64" where
  "ingress_backpressure_count p = sp_ingress_backpressure_count p"

definition responses_emitted :: "ServerPipeline \<Rightarrow> u64" where
  "responses_emitted p = sp_responses_emitted p"

subsection \<open>Counters\<close>

text \<open>The five counters of the pipeline together, and what a read of the messages \<open>ms\<close> that causes the events \<open>fs\<close> adds.\<close>

record Counts =
  ct_processed :: u64
  ct_errors :: u64
  ct_overflowed :: u64
  ct_refused :: u64
  ct_emitted :: u64

definition counts :: "ServerPipeline \<Rightarrow> Counts" where
  "counts p = \<lparr>ct_processed = processed_count (sp_processor p), ct_errors = error_event_count (sp_processor p),
     ct_overflowed = egress_overflow_count (sp_processor p), ct_refused = ingress_backpressure_count p,
     ct_emitted = responses_emitted p\<rparr>"

definition count_read :: "nat \<Rightarrow> nat \<Rightarrow> BinaryMessage list \<Rightarrow> BinaryMessage list \<Rightarrow> Counts \<Rightarrow> Counts" where
  "count_read ic oc ms fs c = \<lparr>ct_processed = ct_processed c + of_nat (length (take ic ms)),
     ct_errors = ct_errors c + of_nat (length (filter is_error (take ic ms))),
     ct_overflowed = ct_overflowed c + of_nat (length fs - oc),
     ct_refused = ct_refused c + of_nat (length ms - ic),
     ct_emitted = ct_emitted c + of_nat (length (take oc fs))\<rparr>"

subsection \<open>The steps of a read\<close>

text \<open>
  \<open>pipe_rel cp p a\<close>: between reads the pipeline represents the engine state \<open>a\<close>, both rings are
  empty and the registry is well-formed.
\<close>

definition pipe_rel :: "nat \<times> nat \<Rightarrow> ServerPipeline \<Rightarrow> AEngine \<Rightarrow> bool" where
  "pipe_rel cp p a \<longleftrightarrow> proc_rel cp (sp_processor p) a [] [] \<and> book_inv (ae_book a) \<and> reg_inv (sp_registry p)"

definition in_cap :: "ServerPipeline \<Rightarrow> nat" where
  "in_cap p = ingress_cap (sp_processor p)"

definition out_cap :: "ServerPipeline \<Rightarrow> nat" where
  "out_cap p = egress_cap (sp_processor p)"

text \<open>Queueing the messages of a read: what fits is queued, the rest is counted.\<close>

lemma enqueue_all:
  assumes "proc_rel cp (sp_processor p) a ins outs" "ep_operational (sp_processor p)" "length ins \<le> in_cap p"
  shows "\<exists>q. for_each enqueue ms p = Some (p\<lparr>sp_processor := q,
      sp_ingress_backpressure_count := sp_ingress_backpressure_count p + of_nat (length ins + length ms - in_cap p)\<rparr>)
    \<and> proc_rel cp q a (take (in_cap p) (ins @ ms)) outs \<and> ep_operational q
    \<and> ingress_cap q = in_cap p \<and> egress_cap q = out_cap p \<and> stats q = stats (sp_processor p)"
  using assms
proof (induction ms arbitrary: p ins)
  case Nil
  then show ?case by (intro exI [of _ "sp_processor p"]) (simp add: in_cap_def out_cap_def)
next
  case (Cons m ms)
  from submit_shape [OF Cons.prems(1), of m] obtain r where
    r: "submit m (sp_processor p) = Some (length ins < in_cap p, (sp_processor p)\<lparr>ep_ingress := r\<rparr>)"
      "proc_rel cp ((sp_processor p)\<lparr>ep_ingress := r\<rparr>) a (take (in_cap p) (ins @ [m])) outs" "rb_capacity r = in_cap p"
    by (auto simp: in_cap_def)
  let ?d = "if length ins < in_cap p then 0 else 1 :: u64"
  let ?p = "p\<lparr>sp_processor := (sp_processor p)\<lparr>ep_ingress := r\<rparr>, sp_ingress_backpressure_count := sp_ingress_backpressure_count p + ?d\<rparr>"
  have step: "enqueue m p = Some ?p" using r(1) by (simp add: enqueue_def)
  have c: "in_cap ?p = in_cap p" "out_cap ?p = out_cap p" using r(3) by (simp_all add: in_cap_def out_cap_def ingress_cap_def egress_cap_def)
  have "length (take (in_cap p) (ins @ [m])) \<le> in_cap ?p" using c by simp
  from Cons.IH [of ?p, OF _ _ this] r(2) Cons.prems(2) c obtain q where
    q: "for_each enqueue ms ?p = Some (?p\<lparr>sp_processor := q, sp_ingress_backpressure_count :=
        sp_ingress_backpressure_count ?p + of_nat (length (take (in_cap p) (ins @ [m])) + length ms - in_cap p)\<rparr>)"
      "proc_rel cp q a (take (in_cap p) (take (in_cap p) (ins @ [m]) @ ms)) outs" "ep_operational q"
      "ingress_cap q = in_cap p" "egress_cap q = out_cap p" "stats q = stats (sp_processor p)"
    by auto
  have t: "take (in_cap p) (take (in_cap p) (ins @ [m]) @ ms) = take (in_cap p) (ins @ m # ms)"
    using take_take_append [of "in_cap p" "ins @ [m]" ms] by simp
  have n: "?d + of_nat (length (take (in_cap p) (ins @ [m])) + length ms - in_cap p) = of_nat (length ins + length (m # ms) - in_cap p)"
    using Cons.prems(3) by (auto simp: min_def Suc_diff_le)
  show ?case using step q t n by (intro exI [of _ q]) (simp add: add.assoc)
qed

text \<open>Draining the egress ring: every event leaves as its frame, in order.\<close>

lemma drain_ok:
  assumes "proc_rel cp (sp_processor p) a ins outs" "\<forall>e\<in>set outs. msg_in_range e"
  shows "\<exists>q. (\<forall>st. drain_events out fd p st = map_option (\<lambda>st'. (p\<lparr>sp_processor := q,
        sp_responses_emitted := sp_responses_emitted p + of_nat (length outs)\<rparr>, st')) (for_each (\<lambda>e. out fd (frame_of e)) outs st))
    \<and> proc_rel cp q a ins [] \<and> ep_operational q = ep_operational (sp_processor p) \<and> ingress_cap q = in_cap p \<and> egress_cap q = out_cap p
    \<and> stats q = stats (sp_processor p)"
  using assms
proof (induction outs arbitrary: p)
  case Nil
  then have r: "rb_inv (ep_egress (sp_processor p))" "rb_items (ep_egress (sp_processor p)) = []" by (auto simp: proc_rel_def)
  have "next_event (sp_processor p) = Some (None, sp_processor p)" using ring.pop_nil [OF r] by (simp add: next_event_def)
  then have "drain_events out fd p st = Some (p, st)" for st by (subst drain_events.simps) simp
  with Nil show ?case by (intro exI [of _ "sp_processor p"]) (simp add: in_cap_def out_cap_def)
next
  case (Cons e outs)
  then have r: "rb_inv (ep_egress (sp_processor p))" "rb_items (ep_egress (sp_processor p)) = e # outs" by (auto simp: proc_rel_def)
  from ring.pop_cons [OF r] obtain g where g: "try_pop (ep_egress (sp_processor p)) = Some (Some e, g)" "rb_inv g" "rb_items g = outs"
    "rb_capacity g = rb_capacity (ep_egress (sp_processor p))" by auto
  let ?q = "(sp_processor p)\<lparr>ep_egress := g\<rparr>"
  let ?p = "p\<lparr>sp_processor := ?q, sp_responses_emitted := sp_responses_emitted p + 1\<rparr>"
  have c: "in_cap ?p = in_cap p" "out_cap ?p = out_cap p" using g(4) by (simp_all add: in_cap_def out_cap_def ingress_cap_def egress_cap_def)
  have "proc_rel cp (sp_processor ?p) a ins outs" using Cons.prems(1) g by (simp add: proc_rel_def)
  from Cons.IH [OF this] Cons.prems(2) c obtain q where
    q: "\<forall>st. drain_events out fd ?p st = map_option (\<lambda>st'. (?p\<lparr>sp_processor := q,
        sp_responses_emitted := sp_responses_emitted ?p + of_nat (length outs)\<rparr>, st')) (for_each (\<lambda>e. out fd (frame_of e)) outs st)"
      "proc_rel cp q a ins []" "ep_operational q = ep_operational (sp_processor p)" "ingress_cap q = in_cap p" "egress_cap q = out_cap p"
      "stats q = stats (sp_processor p)"
    by auto
  have "next_event (sp_processor p) = Some (Some e, ?q)" using g(1) by (simp add: next_event_def)
  moreover have "encode e (replicate kMaxMessageLen 0) = Some (Inr (length (frame_of e)), frame_of e @ drop (length (frame_of e)) (replicate kMaxMessageLen 0))"
    using encode_in_range [of e "replicate kMaxMessageLen 0"] encoded_len_bounds(2) [of e] Cons.prems(2) by (simp add: length_frame_of)
  ultimately have "drain_events out fd p st = Option.bind (out fd (frame_of e) st) (drain_events out fd ?p)" for st
    by (subst drain_events.simps) (simp cong: Option.bind_cong)
  with q(1) have "drain_events out fd p st = map_option (\<lambda>st'. (p\<lparr>sp_processor := q,
        sp_responses_emitted := sp_responses_emitted p + of_nat (length (e # outs))\<rparr>, st')) (for_each (\<lambda>e. out fd (frame_of e)) (e # outs) st)" for st
    by (cases "out fd (frame_of e) st") (simp_all add: add.assoc)
  with q show ?case by blast
qed

lemma a_run_inv:
  "a_run cp ms a = (es, a') \<Longrightarrow> book_inv (ae_book a) \<Longrightarrow> book_inv (ae_book a') \<and> (\<forall>e\<in>set es. msg_in_range e)"
proof (induction ms arbitrary: a es)
  case (Cons m ms)
  obtain fs a1 where d: "a_dispatch cp m a = (fs, a1)" by (cases "a_dispatch cp m a")
  obtain gs where g: "a_run cp ms a1 = (gs, a')" "es = fs @ gs" using Cons.prems(1) d by (auto split: prod.splits)
  from dispatch_inv [OF Cons.prems(2) d] Cons.IH [OF g(1)] g(2) show ?case by auto
qed simp

text \<open>Running what was queued and sending out the results.\<close>

lemma run_and_drain:
  assumes "proc_rel cp (sp_processor p) a ins []" "ep_operational (sp_processor p)" "book_inv (ae_book a)" "a_run cp ins a = (es, a')"
  shows "\<exists>q. (\<forall>st. do { (n, q) \<leftarrow> process_all (sp_processor p); drain_events out fd (p\<lparr>sp_processor := q\<rparr>) st }
      = map_option (\<lambda>st'. (p\<lparr>sp_processor := q, sp_responses_emitted := sp_responses_emitted p + of_nat (min (length es) (out_cap p))\<rparr>, st'))
          (for_each (\<lambda>e. out fd (frame_of e)) (take (out_cap p) es) st))
    \<and> proc_rel cp q a' [] [] \<and> book_inv (ae_book a') \<and> ep_operational q \<and> ingress_cap q = in_cap p \<and> egress_cap q = out_cap p
    \<and> stats q = add_stats (length ins) (length (filter is_error ins)) (length es - out_cap p) (stats (sp_processor p))"
proof -
  from process_all_from_ok [OF assms(1,2,4), of 0] obtain q1 where
    q1: "process_all (sp_processor p) = Some (of_nat (length ins), q1)" "proc_rel cp q1 a' [] (take (out_cap p) es)"
      "ep_operational q1" "egress_cap q1 = out_cap p" "ingress_cap q1 = in_cap p"
      "stats q1 = add_stats (length ins) (length (filter is_error ins)) (length es - out_cap p) (stats (sp_processor p))"
    by (auto simp: process_all_def out_cap_def in_cap_def stats_def processed_count_def error_event_count_def egress_overflow_count_def)
  have inv: "book_inv (ae_book a')" and rng: "\<forall>e\<in>set (take (out_cap p) es). msg_in_range e"
    using a_run_inv [OF assms(4,3)] by (auto dest: in_set_takeD)
  let ?p = "p\<lparr>sp_processor := q1\<rparr>"
  have "proc_rel cp (sp_processor ?p) a' [] (take (out_cap p) es)" using q1(2) by simp
  from drain_ok [OF this rng, of out fd] obtain q where
    q: "\<forall>st. drain_events out fd ?p st = map_option (\<lambda>st'. (?p\<lparr>sp_processor := q,
        sp_responses_emitted := sp_responses_emitted ?p + of_nat (length (take (out_cap p) es))\<rparr>, st'))
        (for_each (\<lambda>e. out fd (frame_of e)) (take (out_cap p) es) st)"
      "proc_rel cp q a' [] []" "ep_operational q = ep_operational q1" "ingress_cap q = ingress_cap q1" "egress_cap q = egress_cap q1"
      "stats q = stats q1" by (auto simp: in_cap_def out_cap_def)
  with q1 inv show ?thesis by (intro exI [of _ q]) (simp add: min.commute)
qed

subsection \<open>One read, end to end\<close>

text \<open>
  The specification of a read on a connection with unfinished bytes \<open>t\<close>: the stream is split, the
  messages that fit the ingress ring run through the abstract engine, and the events that fit the
  egress ring are the responses.
\<close>

definition a_read :: "nat \<times> nat \<Rightarrow> nat \<Rightarrow> nat \<Rightarrow> u8 list \<Rightarrow> AEngine \<Rightarrow> BinaryMessage list \<times> AEngine \<times> u8 list option" where
  "a_read cp ic oc stream a = (case wire_split stream of (ms, t) \<Rightarrow>
     case a_run cp (take ic ms) a of (es, a') \<Rightarrow> (take oc es, a', t))"

lemma read_ok:
  assumes rel: "pipe_rel cp p a" and op: "sp_operational p" and t: "tail_of (sp_registry p) fd = Some t"
    and r: "a_read cp (in_cap p) (out_cap p) (t @ bytes) a = (es, a', t')"
  shows "\<exists>p'. (\<forall>st. submit_client_bytes out fd bytes p st
        = map_option (\<lambda>st'. (if t' = None then FS_Closed else FS_Ok, p', st')) (for_each (\<lambda>e. out fd (frame_of e)) es st))
    \<and> pipe_rel cp p' a' \<and> sp_operational p' \<and> tail_of (sp_registry p') = (tail_of (sp_registry p))(fd := t')
    \<and> in_cap p' = in_cap p \<and> out_cap p' = out_cap p \<and> reg_after fd t' (sp_registry p) (sp_registry p')
    \<and> counts p' = count_read (in_cap p) (out_cap p) (fst (wire_split (t @ bytes)))
        (fst (a_run cp (take (in_cap p) (fst (wire_split (t @ bytes)))) a)) (counts p)"
proof -
  obtain ms where ms: "wire_split (t @ bytes) = (ms, t')" using r by (auto simp: a_read_def split: prod.splits)
  obtain fs where fs: "a_run cp (take (in_cap p) ms) a = (fs, a')" "es = take (out_cap p) fs"
    using r ms by (auto simp: a_read_def split: prod.splits)
  from rel have pr: "proc_rel cp (sp_processor p) a [] []" and bi: "book_inv (ae_book a)" and ri: "reg_inv (sp_registry p)"
    by (auto simp: pipe_rel_def)
  from op have op': "ep_operational (sp_processor p)" by (simp add: sp_operational_def)
  from on_readable_ok [OF ri t, of bytes enqueue] ms obtain r' where
    r': "reg_inv r'" "tail_of r' = (tail_of (sp_registry p))(fd := t')" "reg_after fd t' (sp_registry p) r'"
      "\<forall>st. on_readable enqueue fd bytes (sp_registry p) st = map_option (\<lambda>st'. (t' \<noteq> None, r', st')) (for_each enqueue ms st)" by auto
  let ?n = "sp_ingress_backpressure_count p + of_nat (length ms - in_cap p)"
  from enqueue_all [OF pr op', of ms] obtain q where
    q: "for_each enqueue ms p = Some (p\<lparr>sp_processor := q, sp_ingress_backpressure_count := ?n\<rparr>)"
      "proc_rel cp q a (take (in_cap p) ms) []" "ep_operational q" "ingress_cap q = in_cap p" "egress_cap q = out_cap p"
      "stats q = stats (sp_processor p)"
    by auto
  let ?p = "p\<lparr>sp_processor := q, sp_ingress_backpressure_count := ?n, sp_registry := r'\<rparr>"
  have c: "out_cap ?p = out_cap p" "in_cap ?p = in_cap p" using q by (simp_all add: out_cap_def in_cap_def)
  have "proc_rel cp (sp_processor ?p) a (take (in_cap p) ms) []" "ep_operational (sp_processor ?p)" using q by simp_all
  from run_and_drain [OF this bi fs(1), of out fd, unfolded c] obtain q' where
    q': "\<forall>st. do { (n, q) \<leftarrow> process_all (sp_processor ?p); drain_events out fd (?p\<lparr>sp_processor := q\<rparr>) st }
      = map_option (\<lambda>st'. (?p\<lparr>sp_processor := q', sp_responses_emitted := sp_responses_emitted ?p + of_nat (min (length fs) (out_cap p))\<rparr>, st'))
          (for_each (\<lambda>e. out fd (frame_of e)) es st)"
      "proc_rel cp q' a' [] []" "book_inv (ae_book a')" "ep_operational q'" "ingress_cap q' = in_cap p" "egress_cap q' = out_cap p"
      "stats q' = add_stats (length (take (in_cap p) ms)) (length (filter is_error (take (in_cap p) ms))) (length fs - out_cap p) (stats (sp_processor ?p))"
    unfolding fs(2) by blast
  let ?p' = "?p\<lparr>sp_processor := q', sp_responses_emitted := sp_responses_emitted ?p + of_nat (min (length fs) (out_cap p))\<rparr>"
  have "submit_client_bytes out fd bytes p st
      = map_option (\<lambda>st'. (if t' = None then FS_Closed else FS_Ok, ?p', st')) (for_each (\<lambda>e. out fd (frame_of e)) es st)" for st
  proof -
    have "submit_client_bytes out fd bytes p st = do {
        (p2, st) \<leftarrow> do { (n, q) \<leftarrow> process_all (sp_processor ?p); drain_events out fd (?p\<lparr>sp_processor := q\<rparr>) st };
        Some (if t' = None then FS_Closed else FS_Ok, p2, st) }"
      using op' r'(4) q(1) by (auto simp: submit_client_bytes_def split: Option.bind_splits)
    then show ?thesis unfolding q'(1) [rule_format] by (cases "for_each (\<lambda>e. out fd (frame_of e)) es st") simp_all
  qed
  moreover have "pipe_rel cp ?p' a'" using q' r' by (simp add: pipe_rel_def)
  moreover have "counts ?p' = count_read (in_cap p) (out_cap p) ms fs (counts p)"
    using q(6) q'(7) by (simp add: counts_def count_read_def stats_def ingress_backpressure_count_def responses_emitted_def min.commute)
  ultimately show ?thesis using q' r' ms fs(1) by (intro exI [of _ ?p']) (simp add: sp_operational_def in_cap_def out_cap_def)
qed

text \<open>A read on a socket that is not tracked changes nothing.\<close>

lemma read_unknown:
  assumes rel: "pipe_rel cp p a" and op: "sp_operational p" and t: "tail_of (sp_registry p) fd = None"
  shows "\<exists>p'. (\<forall>st. submit_client_bytes out fd bytes p st = Some (FS_Closed, p', st))
    \<and> pipe_rel cp p' a \<and> sp_operational p' \<and> sp_registry p' = sp_registry p \<and> in_cap p' = in_cap p \<and> out_cap p' = out_cap p
    \<and> counts p' = counts p"
proof -
  from rel have pr: "proc_rel cp (sp_processor p) a [] []" and bi: "book_inv (ae_book a)" and ri: "reg_inv (sp_registry p)"
    by (auto simp: pipe_rel_def)
  from op have op': "ep_operational (sp_processor p)" by (simp add: sp_operational_def)
  have o: "on_readable enqueue fd bytes (sp_registry p) p = Some (False, sp_registry p, p)"
    by (rule on_readable_unknown [OF t ri])
  from run_and_drain [OF pr op' bi, of "[]" a out fd] obtain q where
    q: "\<forall>st. do { (n, q) \<leftarrow> process_all (sp_processor p); drain_events out fd (p\<lparr>sp_processor := q\<rparr>) st } = Some (p\<lparr>sp_processor := q\<rparr>, st)"
      "proc_rel cp q a [] []" "ep_operational q" "ingress_cap q = in_cap p" "egress_cap q = out_cap p" "stats q = stats (sp_processor p)"
    by (auto simp: stats_def)
  have "submit_client_bytes out fd bytes p st = Some (FS_Closed, p\<lparr>sp_processor := q\<rparr>, st)" for st
  proof -
    have "submit_client_bytes out fd bytes p st = do {
        (p2, st) \<leftarrow> do { (n, q) \<leftarrow> process_all (sp_processor p); drain_events out fd (p\<lparr>sp_processor := q\<rparr>) st };
        Some (FS_Closed, p2, st) }"
      using op' o by (auto simp: submit_client_bytes_def split: Option.bind_splits)
    then show ?thesis unfolding q(1) [rule_format] by simp
  qed
  moreover have "pipe_rel cp (p\<lparr>sp_processor := q\<rparr>) a" using q bi ri by (simp add: pipe_rel_def)
  moreover have "counts (p\<lparr>sp_processor := q\<rparr>) = counts p"
    using q(6) by (simp add: counts_def stats_def ingress_backpressure_count_def responses_emitted_def)
  ultimately show ?thesis using q by (intro exI [of _ "p\<lparr>sp_processor := q\<rparr>"]) (simp add: sp_operational_def in_cap_def out_cap_def)
qed

text \<open>
  One read, end to end: the bytes of a read, appended to what the connection had left over, are
  cut into messages; the pipeline returns; the sink receives, in order and addressed to the reading
  socket, exactly the frames of the events the abstract engine produces for those messages, as far
  as the two rings have room; the read reports \<open>Closed\<close> exactly when the stream is malformed, and
  no other connection is affected.
\<close>

theorem read_end_to_end:
  assumes "pipe_rel cp p a" "sp_operational p" "tail_of (sp_registry p) fd = Some t"
    and "a_read cp (in_cap p) (out_cap p) (t @ bytes) a = (es, a', t')"
  shows "\<exists>p'. (\<forall>st. submit_client_bytes out fd bytes p st
        = map_option (\<lambda>st'. (if t' = None then FS_Closed else FS_Ok, p', st')) (for_each (\<lambda>e. out fd (frame_of e)) es st))
    \<and> pipe_rel cp p' a' \<and> tail_of (sp_registry p') = (tail_of (sp_registry p))(fd := t')"
  using read_ok [OF assms, of out] by blast

subsection \<open>Sequences of reads\<close>

text \<open>A sink that keeps what it is given.\<close>

definition keep :: "SocketHandle \<Rightarrow> u8 list \<Rightarrow> (SocketHandle \<times> u8 list) list \<Rightarrow> (SocketHandle \<times> u8 list) list option" where
  "keep fd frame xs = Some (xs @ [(fd, frame)])"

definition serve :: "(SocketHandle \<times> u8 list) list \<Rightarrow> ServerPipeline \<Rightarrow> (SocketHandle \<times> u8 list) list
    \<Rightarrow> (ServerPipeline \<times> (SocketHandle \<times> u8 list) list) option" where
  "serve rds p xs = for_each (\<lambda>(fd, bytes) (p, xs). do { (status, p, xs) \<leftarrow> submit_client_bytes keep fd bytes p xs; Some (p, xs) }) rds (p, xs)"

lemma for_each_keep: "for_each (\<lambda>e. keep fd (f e)) es xs = Some (xs @ map (\<lambda>e. (fd, f e)) es)"
  by (induction es arbitrary: xs) (simp_all add: keep_def)

text \<open>No read of the stream overflows a ring.\<close>

fun fits :: "nat \<times> nat \<Rightarrow> nat \<Rightarrow> nat \<Rightarrow> u8 list \<Rightarrow> u8 list list \<Rightarrow> AEngine \<Rightarrow> bool" where
  "fits cp ic oc t [] a = True"
| "fits cp ic oc t (c # cs) a = (case wire_split (t @ c) of (ms, r) \<Rightarrow>
     length ms \<le> ic \<and> length (fst (a_run cp ms a)) \<le> oc
     \<and> (case r of None \<Rightarrow> True | Some t' \<Rightarrow> fits cp ic oc t' cs (snd (a_run cp ms a))))"

lemma serve_unknown:
  assumes "pipe_rel cp p a" "sp_operational p" "tail_of (sp_registry p) fd = None"
  shows "\<exists>p'. serve (map (Pair fd) cs) p xs = Some (p', xs) \<and> pipe_rel cp p' a \<and> tail_of (sp_registry p') fd = None"
  using assms
proof (induction cs arbitrary: p)
  case Nil
  then show ?case by (simp add: serve_def)
next
  case (Cons c cs)
  from read_unknown [OF Cons.prems, of keep c] obtain p1 where
    p1: "\<forall>st. submit_client_bytes keep fd c p st = Some (FS_Closed, p1, st)" "pipe_rel cp p1 a" "sp_operational p1"
      "sp_registry p1 = sp_registry p" by blast
  from Cons.IH [OF p1(2,3)] p1(1,4) Cons.prems(3) show ?case by (simp add: serve_def)
qed

lemma tail_unfinished: "reg_inv r \<Longrightarrow> tail_of r fd = Some t \<Longrightarrow> wire_split t = ([], Some t)"
  by (auto simp: tail_of_def reg_inv_def fb_inv_def pending_def bind_eq_Some_conv dest!: map_of_SomeD split: if_splits)

lemma serve_stream:
  assumes "pipe_rel cp p a" "sp_operational p" "tail_of (sp_registry p) fd = Some t" "fits cp (in_cap p) (out_cap p) t cs a"
    and "wire_split (t @ concat cs) = (ms, t')" "a_run cp ms a = (es, a')"
  shows "\<exists>p'. serve (map (Pair fd) cs) p xs = Some (p', xs @ map (\<lambda>e. (fd, frame_of e)) es)
    \<and> pipe_rel cp p' a' \<and> tail_of (sp_registry p') fd = t'"
  using assms
proof (induction cs arbitrary: p a t xs ms es)
  case Nil
  then have "wire_split t = ([], Some t)" using tail_unfinished by (auto simp: pipe_rel_def)
  with Nil show ?case by (auto simp: serve_def)
next
  case (Cons c cs)
  obtain m1 r1 where m1: "wire_split (t @ c) = (m1, r1)" by (cases "wire_split (t @ c)")
  obtain e1 a1 where e1: "a_run cp m1 a = (e1, a1)" by (cases "a_run cp m1 a")
  have fit: "length m1 \<le> in_cap p" "length e1 \<le> out_cap p" using Cons.prems(4) m1 e1 by auto
  then have "a_read cp (in_cap p) (out_cap p) (t @ c) a = (e1, a1, r1)" using m1 e1 by (simp add: a_read_def)
  from read_ok [OF Cons.prems(1-3) this, of keep] obtain p1 where
    p1: "\<forall>xs. submit_client_bytes keep fd c p xs = Some (if r1 = None then FS_Closed else FS_Ok, p1, xs @ map (\<lambda>e. (fd, frame_of e)) e1)"
      "pipe_rel cp p1 a1" "sp_operational p1" "tail_of (sp_registry p1) fd = r1" "in_cap p1 = in_cap p" "out_cap p1 = out_cap p"
    by (auto simp: for_each_keep)
  have s: "serve (map (Pair fd) (c # cs)) p xs = serve (map (Pair fd) cs) p1 (xs @ map (\<lambda>e. (fd, frame_of e)) e1)"
    using p1(1) by (simp add: serve_def)
  show ?case
  proof (cases r1)
    case None
    from wire.split_closed [of "t @ c" m1 "concat cs"] m1 None Cons.prems(5) have "ms = m1" "t' = None" by auto
    with serve_unknown [OF p1(2,3), of fd cs "xs @ map (\<lambda>e. (fd, frame_of e)) e1"] s p1(4) None e1 Cons.prems(6) show ?thesis by simp
  next
    case (Some t1)
    obtain m2 r2 where m2: "wire_split (t1 @ concat cs) = (m2, r2)" by (cases "wire_split (t1 @ concat cs)")
    have ms: "ms = m1 @ m2" "t' = r2" using wire.split_resume [of "t @ c" m1 t1 "concat cs"] m1 m2 Some Cons.prems(5) by simp_all
    obtain e2 a2 where e2: "a_run cp m2 a1 = (e2, a2)" by (cases "a_run cp m2 a1")
    have es: "es = e1 @ e2" "a' = a2" using Cons.prems(6) e1 e2 unfolding ms(1) a_run_append by simp_all
    have f: "fits cp (in_cap p1) (out_cap p1) t1 cs a1" using Cons.prems(4) m1 Some e1 p1(5,6) by simp
    from Cons.IH [OF p1(2,3) p1(4) [unfolded Some] f m2 [folded ms(2)] e2 [folded es(2)], of "xs @ map (\<lambda>e. (fd, frame_of e)) e1"] s es(1)
    show ?thesis by simp
  qed
qed

text \<open>
  A whole connection, end to end: however its byte stream is cut into reads, as long as no
  single read overflows a ring the responses are exactly the frames of the events the abstract
  engine produces for the messages of the stream, in order, and the engine state and the
  unfinished tail are those of the stream.
\<close>

theorem stream_end_to_end:
  assumes "pipe_rel cp p a" "sp_operational p" "tail_of (sp_registry p) fd = Some t" "fits cp (in_cap p) (out_cap p) t cs a"
    and "wire_split (t @ concat cs) = (ms, t')" "a_run cp ms a = (es, a')"
  shows "\<exists>p'. serve (map (Pair fd) cs) p [] = Some (p', map (\<lambda>e. (fd, frame_of e)) es)
    \<and> pipe_rel cp p' a' \<and> tail_of (sp_registry p') fd = t'"
  using serve_stream [OF assms, of "[]"] by simp

text \<open>A pipeline with one connection, for concrete runs.\<close>

definition demo_pipeline :: ServerPipeline where
  "demo_pipeline = snd (sp_accept 5 (pipeline_new 4 3 8 8 10))"

lemma demo_pipeline_rel:
  "pipe_rel (4, 3) demo_pipeline \<lparr>ae_book = (\<lambda>_. []), ae_seq = 1, ae_hist = []\<rparr>" "sp_operational demo_pipeline"
  "tail_of (sp_registry demo_pipeline) 5 = Some []" "in_cap demo_pipeline = 8" "out_cap demo_pipeline = 8"
proof -
  have p: "sp_processor demo_pipeline = processor_new 4 3 8 8" "sp_registry demo_pipeline = snd (accept 5 (registry_new 10))"
    by (simp_all add: demo_pipeline_def sp_accept_def pipeline_new_def split: prod.splits)
  have "reg_inv (sp_registry demo_pipeline)"
    unfolding p(2) by (intro accept_inv registry_new_inv) (simp add: is_registered_def registry_new_def)
  with processor_new_rel [of 4 3 8 8] empty_inv p(1) show "pipe_rel (4, 3) demo_pipeline \<lparr>ae_book = (\<lambda>_. []), ae_seq = 1, ae_hist = []\<rparr>"
    by (simp add: pipe_rel_def kNullNode_def)
  show "tail_of (sp_registry demo_pipeline) 5 = Some []"
    unfolding p(2) by (simp add: tail_of_def accept_def registry_new_def try_emplace_def poller_call_def fb_new_inv)
  show "sp_operational demo_pipeline" "in_cap demo_pipeline = 8" "out_cap demo_pipeline = 8"
    using p(1) by (simp_all add: sp_operational_def in_cap_def out_cap_def ingress_cap_def egress_cap_def processor_new_def rb_new_def rb_capacity_def)
qed

text \<open>A cancellation of an unknown order, the bytes of its frame, and the answer.\<close>

lemma demo_cancel:
  "wire_split [1, 7, 0, 0, 0, 0, 0, 0, 0] = ([BM_CancelOrder \<lparr>co_order_id = 7\<rparr>], Some [])"
  "a_run (4, 3) [BM_CancelOrder \<lparr>co_order_id = 7\<rparr>] \<lparr>ae_book = (\<lambda>_. []), ae_seq = 1, ae_hist = []\<rparr>
     = ([BM_Reject \<lparr>rej_order_id = 7, rej_reason = OrderNotFound\<rparr>], \<lparr>ae_book = (\<lambda>_. []), ae_seq = 1, ae_hist = []\<rparr>)"
  "frame_of (BM_Reject \<lparr>rej_order_id = 7, rej_reason = OrderNotFound\<rparr>) = [4, 7, 0, 0, 0, 0, 0, 0, 0, 2]"
proof -
  have f: "frame_of (BM_CancelOrder \<lparr>co_order_id = 7\<rparr>) = [1, 7, 0, 0, 0, 0, 0, 0, 0]" by code_simp
  have "msg_in_range (BM_CancelOrder \<lparr>co_order_id = 7\<rparr>)" by (simp add: msg_in_range_def)
  from wire.split_frame [OF this, of "[]"] f show "wire_split [1, 7, 0, 0, 0, 0, 0, 0, 0] = ([BM_CancelOrder \<lparr>co_order_id = 7\<rparr>], Some [])" by simp
  show "a_run (4, 3) [BM_CancelOrder \<lparr>co_order_id = 7\<rparr>] \<lparr>ae_book = (\<lambda>_. []), ae_seq = 1, ae_hist = []\<rparr>
     = ([BM_Reject \<lparr>rej_order_id = 7, rej_reason = OrderNotFound\<rparr>], \<lparr>ae_book = (\<lambda>_. []), ae_seq = 1, ae_hist = []\<rparr>)"
    by (simp add: a_dispatch_def a_resting_def a_ids_def)
  show "frame_of (BM_Reject \<lparr>rej_order_id = 7, rej_reason = OrderNotFound\<rparr>) = [4, 7, 0, 0, 0, 0, 0, 0, 0, 2]" by code_simp
qed

theorem read_end_to_end_witness:
  "\<exists>p'. submit_client_bytes keep 5 [1, 7, 0, 0, 0, 0, 0, 0, 0] demo_pipeline []
     = Some (FS_Ok, p', [(5, [4, 7, 0, 0, 0, 0, 0, 0, 0, 2])])"
proof -
  have r: "a_read (4, 3) (in_cap demo_pipeline) (out_cap demo_pipeline) ([] @ [1, 7, 0, 0, 0, 0, 0, 0, 0]) \<lparr>ae_book = (\<lambda>_. []), ae_seq = 1, ae_hist = []\<rparr>
      = ([BM_Reject \<lparr>rej_order_id = 7, rej_reason = OrderNotFound\<rparr>], \<lparr>ae_book = (\<lambda>_. []), ae_seq = 1, ae_hist = []\<rparr>, Some [])"
    unfolding append_Nil a_read_def demo_cancel(1) demo_pipeline_rel(4,5) using demo_cancel(2) by simp
  from read_end_to_end [OF demo_pipeline_rel(1-3) r, of keep] obtain p' where
    "\<forall>st. submit_client_bytes keep 5 [1, 7, 0, 0, 0, 0, 0, 0, 0] demo_pipeline st
        = map_option (\<lambda>st'. (FS_Ok, p', st')) (for_each (\<lambda>e. keep 5 (frame_of e)) [BM_Reject \<lparr>rej_order_id = 7, rej_reason = OrderNotFound\<rparr>] st)"
    by auto
  then show ?thesis by (simp add: for_each_keep demo_cancel(3))
qed

theorem stream_end_to_end_witness:
  "\<exists>p'. serve (map (Pair 5) [[1, 7, 0, 0], [0, 0, 0, 0, 0]]) demo_pipeline [] = Some (p', [(5, [4, 7, 0, 0, 0, 0, 0, 0, 0, 2])])
     \<and> tail_of (sp_registry p') 5 = Some []"
proof -
  let ?cs = "[[1, 7, 0, 0], [0, 0, 0, 0, 0]] :: u8 list list"
  have "wire_size 1 = Some 9" by code_simp
  then have s: "wire_split [1, 7, 0, 0] = ([], Some [1, 7, 0, 0])" using split_short [of wire_size 1 9 "[7, 0, 0]" wire_decode] by simp
  have f: "fits (4, 3) (in_cap demo_pipeline) (out_cap demo_pipeline) [] ?cs \<lparr>ae_book = (\<lambda>_. []), ae_seq = 1, ae_hist = []\<rparr>"
    unfolding demo_pipeline_rel(4,5) using s demo_cancel(1,2) by simp
  have w: "wire_split ([] @ concat ?cs) = ([BM_CancelOrder \<lparr>co_order_id = 7\<rparr>], Some [])" using demo_cancel(1) by simp
  from stream_end_to_end [OF demo_pipeline_rel(1-3) f w demo_cancel(2)] show ?thesis by (auto simp: demo_cancel(3))
qed

subsection \<open>Reachable pipelines\<close>

inductive pipe_reach :: "nat \<Rightarrow> nat \<Rightarrow> nat \<Rightarrow> nat \<Rightarrow> u32 \<Rightarrow> ServerPipeline \<Rightarrow> bool" for n m i g k where
  start: "pipe_reach n m i g k (pipeline_new n m i g k)"
| init: "pipe_reach n m i g k p \<Longrightarrow> pipe_reach n m i g k (snd (sp_initialize config p))"
| accept: "pipe_reach n m i g k p \<Longrightarrow> \<not> is_registered (sp_registry p) fd \<Longrightarrow> pipe_reach n m i g k (snd (sp_accept fd p))"
| teardown: "pipe_reach n m i g k p \<Longrightarrow> pipe_reach n m i g k (sp_teardown fd reason p)"
| read: "pipe_reach n m i g k p \<Longrightarrow> submit_client_bytes keep fd bytes p xs = Some (status, p', xs') \<Longrightarrow> pipe_reach n m i g k p'"

definition pipe_good :: "nat \<times> nat \<Rightarrow> u32 \<Rightarrow> ServerPipeline \<Rightarrow> bool" where
  "pipe_good cp k p \<longleftrightarrow> (\<exists>a. pipe_rel cp p a) \<and> cr_max_connections (sp_registry p) = k"

lemma init_rel:
  assumes "pipe_rel cp p a"
  shows "\<exists>a'. pipe_rel cp (snd (sp_initialize config p)) a'"
proof -
  from assms have r: "proc_rel cp (sp_processor p) a [] []" "book_inv (ae_book a)" "reg_inv (sp_registry p)" by (auto simp: pipe_rel_def)
  obtain ok q where i: "initialize config (sp_processor p) = (ok, q)" by (cases "initialize config (sp_processor p)")
  from startup_rel [OF r(1) i] have "\<exists>a'. proc_rel cp q a' [] [] \<and> book_inv (ae_book a')"
    using r(2) empty_inv by (cases ok) (fastforce)+
  with i r(3) show ?thesis by (auto simp: sp_initialize_def pipe_rel_def)
qed

text \<open>Whatever the read and whatever the state: the pipeline returns and stays well-formed.\<close>

lemma read_total:
  assumes "pipe_rel cp p a"
  shows "\<exists>status p' es a'. (\<forall>xs. submit_client_bytes keep fd bytes p xs = Some (status, p', xs @ map (\<lambda>e. (fd, frame_of e)) es))
    \<and> pipe_rel cp p' a' \<and> (\<forall>e\<in>set es. msg_in_range e) \<and> cr_max_connections (sp_registry p') = cr_max_connections (sp_registry p)
    \<and> (\<not> sp_operational p \<longrightarrow> p' = p \<and> es = [] \<and> status = FS_Closed)"
proof (cases "sp_operational p")
  case False
  with assms show ?thesis
    by (intro exI [of _ FS_Closed] exI [of _ p] exI [of _ "[]"] exI [of _ a]) (simp add: submit_client_bytes_def sp_operational_def)
next
  case op: True
  show ?thesis
  proof (cases "tail_of (sp_registry p) fd")
    case None
    from read_unknown [OF assms op None, of keep bytes] obtain p' where "\<forall>st. submit_client_bytes keep fd bytes p st = Some (FS_Closed, p', st)"
      "pipe_rel cp p' a" "sp_registry p' = sp_registry p" by blast
    with op show ?thesis by (intro exI [of _ FS_Closed] exI [of _ p'] exI [of _ "[]"] exI [of _ a]) simp
  next
    case (Some t)
    obtain es a' t' where r: "a_read cp (in_cap p) (out_cap p) (t @ bytes) a = (es, a', t')"
      by (cases "a_read cp (in_cap p) (out_cap p) (t @ bytes) a") auto
    from read_ok [OF assms op Some r, of keep] obtain p' where
      p': "\<forall>xs. submit_client_bytes keep fd bytes p xs = Some (if t' = None then FS_Closed else FS_Ok, p', xs @ map (\<lambda>e. (fd, frame_of e)) es)"
        "pipe_rel cp p' a'" "cr_max_connections (sp_registry p') = cr_max_connections (sp_registry p)"
      by (auto simp: for_each_keep reg_after_def)
    have "book_inv (ae_book a)" using assms by (simp add: pipe_rel_def)
    with r have rng: "\<forall>e\<in>set es. msg_in_range e"
      by (auto simp: a_read_def split: prod.splits dest!: a_run_inv dest: in_set_takeD)
    with p' rng op show ?thesis by blast
  qed
qed

lemma sp_accept_sel: "sp_registry (snd (sp_accept fd p)) = snd (accept fd (sp_registry p))" "sp_processor (snd (sp_accept fd p)) = sp_processor p"
  by (simp_all add: sp_accept_def split: prod.splits)

lemma pipe_reach_good:
  assumes "pipe_reach n m i g k p" "0 < n" "n \<le> kNullNode" "0 < m" "m \<le> kNullNode" "0 < i" "0 < g"
  shows "pipe_good (n, m) k p"
  using assms(1)
proof induction
  case start
  from processor_new_rel [OF assms(2-7)] empty_inv registry_new_inv [of k] show ?case
    by (force simp: pipe_good_def pipe_rel_def pipeline_new_def registry_new_def)
next
  case (init p config)
  then show ?case using init_rel [of "(n, m)" p _ config] by (auto simp: pipe_good_def sp_initialize_def split: prod.splits)
next
  case (accept p fd)
  then show ?case using accept_inv [of "sp_registry p" fd] by (auto simp: pipe_good_def pipe_rel_def sp_accept_sel)
next
  case (teardown p fd reason)
  then show ?case using teardown_inv [of "sp_registry p" fd reason] by (auto simp: pipe_good_def pipe_rel_def sp_teardown_def)
next
  case (read p fd bytes xs status p' xs')
  then obtain a where "pipe_rel (n, m) p a" by (auto simp: pipe_good_def)
  from read_total [OF this, of fd bytes] obtain status1 p1 es a1 where
    "\<forall>xs. submit_client_bytes keep fd bytes p xs = Some (status1, p1, xs @ map (\<lambda>e. (fd, frame_of e)) es)" "pipe_rel (n, m) p1 a1"
    "cr_max_connections (sp_registry p1) = cr_max_connections (sp_registry p)" by blast
  with read show ?case by (auto simp: pipe_good_def)
qed

text \<open>
  C10. The server never gets stuck: after any interleaving of startups, accepts, teardowns and reads
  of arbitrary bytes on arbitrary sockets, with pools and rings of any permitted size, every further
  read returns; all its responses go to the reading socket and decode to a message; the number of
  connections is within the cap, the poller monitors exactly the tracked sockets, and the order
  book is sorted, uncrossed and within its ranges.  A pipeline that is not operational answers
  \<open>Closed\<close> and changes nothing.
\<close>

theorem reachable_pipeline_sound:
  assumes "pipe_reach n m i g k p" "0 < n" "n \<le> kNullNode" "0 < m" "m \<le> kNullNode" "0 < i" "0 < g"
  shows "(\<exists>A. book_rel (me_book (ep_engine (sp_processor p))) A \<and> book_inv A)
    \<and> length (cr_connections (sp_registry p)) \<le> unat k
    \<and> monitored (cr_poller (sp_registry p)) = {fd. is_registered (sp_registry p) fd}
    \<and> (\<exists>status p' rs. submit_client_bytes keep fd bytes p [] = Some (status, p', rs)
         \<and> (\<forall>(to, frame)\<in>set rs. to = fd \<and> (\<exists>e. decode frame = Some (Inr e)))
         \<and> (\<not> sp_operational p \<longrightarrow> status = FS_Closed \<and> p' = p \<and> rs = []))"
proof -
  from pipe_reach_good [OF assms] obtain a where a: "pipe_rel (n, m) p a" and k: "cr_max_connections (sp_registry p) = k"
    by (auto simp: pipe_good_def)
  then have r: "reg_inv (sp_registry p)" "book_inv (ae_book a)" "book_rel (me_book (ep_engine (sp_processor p))) (ae_book a)"
    by (simp_all add: pipe_rel_def proc_rel_def engine_rel_def)
  have "{fd. is_registered (sp_registry p) fd} = fst ` set (cr_connections (sp_registry p))"
    by (auto simp: is_registered_def map_of_no_key)
  with r(1) k have reg: "length (cr_connections (sp_registry p)) \<le> unat k"
    "monitored (cr_poller (sp_registry p)) = {fd. is_registered (sp_registry p) fd}" by (simp_all add: reg_inv_def)
  from read_total [OF a, of fd bytes] obtain status p' es where
    s: "\<forall>xs. submit_client_bytes keep fd bytes p xs = Some (status, p', xs @ map (\<lambda>e. (fd, frame_of e)) es)"
      "\<forall>e\<in>set es. msg_in_range e" "\<not> sp_operational p \<longrightarrow> p' = p \<and> es = [] \<and> status = FS_Closed" by blast
  have "\<forall>(to, frame)\<in>set (map (\<lambda>e. (fd, frame_of e)) es). to = fd \<and> (\<exists>e. decode frame = Some (Inr e))"
    using s(2) decode_frame by auto
  with s have "\<exists>status p' rs. submit_client_bytes keep fd bytes p [] = Some (status, p', rs)
         \<and> (\<forall>(to, frame)\<in>set rs. to = fd \<and> (\<exists>e. decode frame = Some (Inr e)))
         \<and> (\<not> sp_operational p \<longrightarrow> status = FS_Closed \<and> p' = p \<and> rs = [])"
    by (intro exI [of _ status] exI [of _ p'] exI [of _ "map (\<lambda>e. (fd, frame_of e)) es"]) simp
  with r reg show ?thesis by blast
qed

theorem reachable_pipeline_sound_witness:
  "pipe_reach 4 3 8 8 10 demo_pipeline \<and> monitored (cr_poller (sp_registry demo_pipeline)) = {fd. is_registered (sp_registry demo_pipeline) fd}
    \<and> (\<exists>status p' rs. submit_client_bytes keep 5 [9, 9] demo_pipeline [] = Some (status, p', rs))"
proof -
  have "pipe_reach 4 3 8 8 10 demo_pipeline" unfolding demo_pipeline_def
    by (intro pipe_reach.accept pipe_reach.start) (simp add: is_registered_def pipeline_new_def registry_new_def)
  with reachable_pipeline_sound [OF this, of 5 "[9, 9]"] show ?thesis by (auto simp: kNullNode_def)
qed

end
