(* ===== verification/Tcp_Server.thy ===== *)
theory Tcp_Server
  imports Server_Pipeline
begin

text \<open>
  \<open>TcpServer\<close>, \<open>SelectReadinessPoller\<close> and \<open>WinsockGuard\<close> of \<open>tcp_server.hpp\<close> and \<open>tcp_server.cpp\<close>,
  with both branches of the platform conditionals.  The operating system is a parameter: \<open>'w system\<close>
  holds the platform, one function per system call over a world \<open>'w\<close>, its error numbers and
  \<open>FD_SETSIZE\<close>, the arrival of stop signals, and the unspecified iteration order of the unordered
  containers.  The system calls take and return the portable \<open>SocketHandle\<close>: \<open>to_native\<close> and the cast
  back belong to the call, and \<open>INVALID_SOCKET\<close> is - 1.  An \<open>fd_set\<close> is the list of its members, empty
  after \<open>FD_ZERO\<close>; the macros \<open>FD_SET\<close> and \<open>FD_ISSET\<close> are parameters as well, \<open>None\<close> being a use that is
  undefined.  A \<open>send\<close> on a connection the peer has closed
  is taken to return an error, which is what it does where \<open>SIGPIPE\<close> is ignored.

  \<open>sys_signalled\<close> tells whether the signal handler has run since it was last asked.  The handler only
  stores the flag that the loop reads once per iteration, so asking where the flag is about to be
  read or overwritten covers every moment at which a signal can arrive.

  The registry only records its calls to the poller; \<open>sync\<close> replays the calls a pipeline operation
  has made on the select poller and the operating system.  The pipeline performs no other effect, so
  the order of effects is that of the program.
\<close>

datatype Platform = Posix | Windows

record 'w system =
  platform :: Platform
  sys_socket :: "'w \<Rightarrow> int \<times> 'w"
  sys_setsockopt :: "int \<Rightarrow> 'w \<Rightarrow> 'w"
  sys_inet_pton :: "string \<Rightarrow> bool"
  sys_bind :: "int \<Rightarrow> string \<Rightarrow> 16 word \<Rightarrow> 'w \<Rightarrow> int \<times> 'w"
  sys_listen :: "int \<Rightarrow> 'w \<Rightarrow> int \<times> 'w"
  sys_accept :: "int \<Rightarrow> 'w \<Rightarrow> int \<times> 'w"
  sys_getfl :: "int \<Rightarrow> 'w \<Rightarrow> int \<times> 'w"
  sys_setfl_nonblock :: "int \<Rightarrow> int \<Rightarrow> 'w \<Rightarrow> int \<times> 'w"
  sys_close :: "int \<Rightarrow> 'w \<Rightarrow> 'w"
  sys_recv :: "int \<Rightarrow> nat \<Rightarrow> 'w \<Rightarrow> int \<times> u8 list \<times> 'w"
  sys_send :: "int \<Rightarrow> u8 list \<Rightarrow> int \<Rightarrow> 'w \<Rightarrow> int \<times> 'w"
  sys_select :: "int \<Rightarrow> int list \<Rightarrow> int list \<Rightarrow> 'w \<Rightarrow> int \<times> int list \<times> int list \<times> 'w"
  sys_errno :: "'w \<Rightarrow> int"
  sys_signalled :: "'w \<Rightarrow> bool \<times> 'w"
  sys_ioctl_fionbio :: "int \<Rightarrow> 'w \<Rightarrow> int \<times> 'w"
  sys_wsastartup :: "'w \<Rightarrow> int \<times> 'w"
  sys_wsacleanup :: "'w \<Rightarrow> 'w"
  err_ewouldblock :: int
  err_eagain :: int
  err_eintr :: int
  err_wsaewouldblock :: int
  fd_setsize :: int
  sys_FD_SET :: "int \<Rightarrow> int list \<Rightarrow> int list option"
  sys_FD_ISSET :: "int \<Rightarrow> int list \<Rightarrow> bool option"
  iter_order :: "int list \<Rightarrow> int list"

text \<open>\<open>WinsockGuard\<close>: the exception of the constructor is the message on the left.\<close>

definition winsock_guard_new :: "'w system \<Rightarrow> 'w \<Rightarrow> (string + unit) \<times> 'w" where
  "winsock_guard_new os w =
     (case platform os of
        Windows \<Rightarrow> (case sys_wsastartup os w of (rc, w) \<Rightarrow> (if rc \<noteq> 0 then Inl ''WSAStartup failed'' else Inr (), w))
      | Posix \<Rightarrow> (Inr (), w))"

definition winsock_guard_destroy :: "'w system \<Rightarrow> 'w \<Rightarrow> 'w" where
  "winsock_guard_destroy os w = (case platform os of Windows \<Rightarrow> sys_wsacleanup os w | Posix \<Rightarrow> w)"

definition set_nonblocking :: "'w system \<Rightarrow> SocketHandle \<Rightarrow> 'w \<Rightarrow> bool \<times> 'w" where
  "set_nonblocking os fd w =
     (case platform os of
        Windows \<Rightarrow> (case sys_ioctl_fionbio os fd w of (rc, w) \<Rightarrow> (rc = 0, w))
      | Posix \<Rightarrow> (case sys_getfl os fd w of (flags, w) \<Rightarrow>
          if flags < 0 then (False, w)
          else case sys_setfl_nonblock os fd flags w of (rc, w) \<Rightarrow> (rc = 0, w)))"

definition close_native :: "'w system \<Rightarrow> SocketHandle \<Rightarrow> 'w \<Rightarrow> 'w" where
  "close_native os fd w = sys_close os fd w"

definition last_socket_error :: "'w system \<Rightarrow> 'w \<Rightarrow> int" where
  "last_socket_error os w = sys_errno os w"

definition would_block :: "'w system \<Rightarrow> int \<Rightarrow> bool" where
  "would_block os err \<longleftrightarrow>
     (case platform os of
        Windows \<Rightarrow> err = err_wsaewouldblock os
      | Posix \<Rightarrow> err = err_ewouldblock os \<or> err = err_eagain os \<or> err = err_eintr os)"

text \<open>The test for a failed \<open>socket\<close> or \<open>accept\<close>.\<close>

definition invalid_socket :: "'w system \<Rightarrow> SocketHandle \<Rightarrow> bool" where
  "invalid_socket os fd \<longleftrightarrow> (case platform os of Windows \<Rightarrow> fd = - 1 | Posix \<Rightarrow> fd < 0)"

text \<open>The monitored set is a list without repetitions.\<close>

record SelectReadinessPoller =
  po_monitored :: "SocketHandle list"
  po_closed_count :: u64

definition register_readiness :: "SocketHandle \<Rightarrow> SelectReadinessPoller \<Rightarrow> SelectReadinessPoller" where
  "register_readiness fd po = po\<lparr>po_monitored := (if fd \<in> set (po_monitored po) then po_monitored po else fd # po_monitored po)\<rparr>"

definition deregister_readiness :: "SocketHandle \<Rightarrow> SelectReadinessPoller \<Rightarrow> SelectReadinessPoller" where
  "deregister_readiness fd po = po\<lparr>po_monitored := filter (\<lambda>k. k \<noteq> fd) (po_monitored po)\<rparr>"

definition close_socket :: "'w system \<Rightarrow> SocketHandle \<Rightarrow> SelectReadinessPoller \<Rightarrow> 'w \<Rightarrow> SelectReadinessPoller \<times> 'w" where
  "close_socket os fd po w = (po\<lparr>po_closed_count := po_closed_count po + 1\<rparr>, close_native os fd w)"

definition poller_apply :: "'w system \<Rightarrow> PollerCall \<Rightarrow> SelectReadinessPoller \<times> 'w \<Rightarrow> SelectReadinessPoller \<times> 'w" where
  "poller_apply os c pw = (case pw of (po, w) \<Rightarrow>
     case c of RegisterReadiness fd \<Rightarrow> (register_readiness fd po, w)
       | DeregisterReadiness fd \<Rightarrow> (deregister_readiness fd po, w)
       | CloseSocket fd \<Rightarrow> close_socket os fd po w)"

record TcpServer =
  ts_pipeline :: ServerPipeline
  ts_poller :: SelectReadinessPoller
  ts_host :: string
  ts_port :: "16 word"
  ts_listen_fd :: SocketHandle
  ts_stop :: bool
  ts_outbound :: "(SocketHandle \<times> u8 list) list"
  ts_accepted :: u64
  ts_rejected :: u64
  ts_closed :: u64

definition kInvalid :: SocketHandle where "kInvalid = - 1"
definition kReadBufferSize :: nat where "kReadBufferSize = 64 * 1024"

definition stop :: "TcpServer \<Rightarrow> TcpServer" where
  "stop s = s\<lparr>ts_stop := True\<rparr>"

text \<open>The component marker of \<open>network.cpp\<close>.\<close>

definition network_component_name :: string where
  "network_component_name = ''Network_Server''"

text \<open>The observers.\<close>

definition tcp_port :: "TcpServer \<Rightarrow> 16 word" where
  "tcp_port s = ts_port s"

definition accepted_count :: "TcpServer \<Rightarrow> u64" where
  "accepted_count s = ts_accepted s"

definition rejected_count :: "TcpServer \<Rightarrow> u64" where
  "rejected_count s = ts_rejected s"

definition closed_count :: "TcpServer \<Rightarrow> u64" where
  "closed_count s = ts_closed s"

text \<open>\<open>std::to_string\<close> on an unsigned integer.\<close>

fun to_string :: "nat \<Rightarrow> string" where
  "to_string n = (if n < 10 then [char_of (48 + n)] else to_string (n div 10) @ [char_of (48 + n mod 10)])"

declare to_string.simps [simp del]

text \<open>\<open>open_listen_socket\<close>: the exceptions are the messages on the left.\<close>

definition open_listen_socket :: "'w system \<Rightarrow> TcpServer \<Rightarrow> 'w \<Rightarrow> (string + unit) \<times> TcpServer \<times> 'w" where
  "open_listen_socket os s w =
     (case sys_socket os w of (fd, w) \<Rightarrow>
      if invalid_socket os fd then (Inl ''socket() failed'', s, w)
      else
        let s = s\<lparr>ts_listen_fd := fd\<rparr>; w = sys_setsockopt os fd w in
        if ts_host s \<noteq> [] \<and> ts_host s \<noteq> ''0.0.0.0'' \<and> \<not> sys_inet_pton os (ts_host s)
        then (Inl (''invalid host address: '' @ ts_host s), s\<lparr>ts_listen_fd := kInvalid\<rparr>, close_native os fd w)
        else case sys_bind os fd (ts_host s) (ts_port s) w of (rc, w) \<Rightarrow>
          if rc \<noteq> 0 then (Inl (''bind() failed on port '' @ to_string (unat (ts_port s))), s\<lparr>ts_listen_fd := kInvalid\<rparr>, close_native os fd w)
          else case sys_listen os fd w of (rc, w) \<Rightarrow>
            if rc \<noteq> 0 then (Inl ''listen() failed'', s\<lparr>ts_listen_fd := kInvalid\<rparr>, close_native os fd w)
            else case set_nonblocking os fd w of (ok, w) \<Rightarrow>
              if \<not> ok then (Inl ''failed to set listen socket non-blocking'', s\<lparr>ts_listen_fd := kInvalid\<rparr>, close_native os fd w)
              else (Inr (), s, w))"

definition sync :: "'w system \<Rightarrow> ServerPipeline \<Rightarrow> TcpServer \<Rightarrow> 'w \<Rightarrow> TcpServer \<times> 'w" where
  "sync os p s w =
     (case fold (poller_apply os) (drop (length (cr_poller (sp_registry (ts_pipeline s)))) (cr_poller (sp_registry p))) (ts_poller s, w)
      of (po, w) \<Rightarrow> (s\<lparr>ts_pipeline := p, ts_poller := po\<rparr>, w))"

text \<open>The outbound queues: \<open>try_emplace\<close>, \<open>operator[]\<close> with an append, and \<open>erase\<close>.\<close>

definition emplace_queue :: "SocketHandle \<Rightarrow> (SocketHandle \<times> u8 list) list \<Rightarrow> (SocketHandle \<times> u8 list) list" where
  "emplace_queue fd q = (if map_of q fd = None then (fd, []) # q else q)"

definition append_queue :: "SocketHandle \<Rightarrow> u8 list \<Rightarrow> (SocketHandle \<times> u8 list) list \<Rightarrow> (SocketHandle \<times> u8 list) list" where
  "append_queue fd bs q = map (\<lambda>(k, v). if k = fd then (k, v @ bs) else (k, v)) (emplace_queue fd q)"

definition set_queue :: "SocketHandle \<Rightarrow> u8 list \<Rightarrow> (SocketHandle \<times> u8 list) list \<Rightarrow> (SocketHandle \<times> u8 list) list" where
  "set_queue fd bs q = map (\<lambda>(k, v). if k = fd then (k, bs) else (k, v)) q"

definition drop_connection :: "SocketHandle \<Rightarrow> TcpServer \<Rightarrow> TcpServer" where
  "drop_connection fd s = s\<lparr>ts_outbound := filter (\<lambda>c. fst c \<noteq> fd) (ts_outbound s), ts_closed := ts_closed s + 1\<rparr>"

partial_function (option) drain_accept :: "'w system \<Rightarrow> TcpServer \<Rightarrow> 'w \<Rightarrow> (TcpServer \<times> 'w) option" where
  "drain_accept os s w =
     (case sys_accept os (ts_listen_fd s) w of (fd, w) \<Rightarrow>
      if invalid_socket os fd then Some (s, w)
      else case set_nonblocking os fd w of (ok, w) \<Rightarrow>
        if \<not> ok then drain_accept os s (close_native os fd w)
        else case sp_accept fd (ts_pipeline s) of (result, p) \<Rightarrow> case sync os p s w of (s, w) \<Rightarrow>
          if result = Registered
          then drain_accept os (s\<lparr>ts_accepted := ts_accepted s + 1, ts_outbound := emplace_queue fd (ts_outbound s)\<rparr>) w
          else drain_accept os (s\<lparr>ts_rejected := ts_rejected s + 1\<rparr>) w)"

text \<open>
  The loop of \<open>handle_writable\<close>: the number of bytes sent, or \<open>None\<close> on a send error.  The length
  argument of \<open>send\<close> goes through an \<open>int\<close>.
\<close>

definition to_int :: "nat \<Rightarrow> int" where
  "to_int n = sint (of_nat n :: 32 word)"

function send_loop :: "'w system \<Rightarrow> SocketHandle \<Rightarrow> u8 list \<Rightarrow> nat \<Rightarrow> 'w \<Rightarrow> nat option \<times> 'w" where
  "send_loop os fd queue sent_total w =
     (if sent_total < length queue
      then case sys_send os fd (drop sent_total queue) (to_int (length queue - sent_total)) w of (n, w) \<Rightarrow>
        if n > 0 then send_loop os fd queue (sent_total + nat n) w
        else if n < 0 \<and> would_block os (last_socket_error os w) then (Some sent_total, w)
        else (None, w)
      else (Some sent_total, w))"
  by pat_completeness auto

termination
  by (relation "measure (\<lambda>(os, fd, queue, sent_total, w). length queue - sent_total)") auto

declare send_loop.simps [simp del]

definition handle_writable :: "'w system \<Rightarrow> SocketHandle \<Rightarrow> TcpServer \<Rightarrow> 'w \<Rightarrow> TcpServer \<times> 'w" where
  "handle_writable os fd s w =
     (case map_of (ts_outbound s) fd of
        None \<Rightarrow> (s, w)
      | Some queue \<Rightarrow>
          if queue = [] then (s, w)
          else case send_loop os fd queue 0 w of
            (None, w) \<Rightarrow> (case sync os (sp_teardown fd SocketError (ts_pipeline s)) s w of (s, w) \<Rightarrow> (drop_connection fd s, w))
          | (Some sent_total, w) \<Rightarrow>
              (if sent_total > 0 then s\<lparr>ts_outbound := set_queue fd (drop sent_total queue) (ts_outbound s)\<rparr> else s, w))"

definition handle_readable :: "'w system \<Rightarrow> SocketHandle \<Rightarrow> TcpServer \<Rightarrow> 'w \<Rightarrow> (TcpServer \<times> 'w) option" where
  "handle_readable os fd s w =
     (case sys_recv os fd kReadBufferSize w of (n, buffer, w) \<Rightarrow>
      if n = 0 then
        (case sync os (sp_teardown fd PeerClosed (ts_pipeline s)) s w of (s, w) \<Rightarrow> Some (drop_connection fd s, w))
      else if n < 0 then
        if would_block os (last_socket_error os w) then Some (s, w)
        else (case sync os (sp_teardown fd SocketError (ts_pipeline s)) s w of (s, w) \<Rightarrow> Some (drop_connection fd s, w))
      else do {
        (status, p, outbound) \<leftarrow> submit_client_bytes (\<lambda>out_fd frame q. Some (append_queue out_fd frame q)) fd
           (take (nat n) buffer) (ts_pipeline s) (ts_outbound s);
        let (s, w) = sync os p (s\<lparr>ts_outbound := outbound\<rparr>) w;
        if status = FS_Closed then Some (drop_connection fd s, w)
        else (case map_of (ts_outbound s) fd of
            Some queue \<Rightarrow> Some (if queue \<noteq> [] then handle_writable os fd s w else (s, w))
          | None \<Rightarrow> Some (s, w))
      })"

definition watch :: "'w system \<Rightarrow> SocketHandle \<Rightarrow> int list \<times> int \<Rightarrow> (int list \<times> int) option" where
  "watch os fd Sm = do { S \<leftarrow> sys_FD_SET os fd (fst Sm); Some (S, if fd > snd Sm then fd else snd Sm) }"

text \<open>The connections with queued outbound bytes.\<close>

definition queued :: "TcpServer \<Rightarrow> SocketHandle list" where
  "queued s = map fst (filter (\<lambda>(fd, buf). buf \<noteq> []) (ts_outbound s))"

text \<open>What an iteration does with the sets \<open>select\<close> has returned: new connections, reads, writes.\<close>

definition serve_ready :: "'w system \<Rightarrow> int list \<Rightarrow> int list \<Rightarrow> TcpServer \<Rightarrow> 'w \<Rightarrow> (TcpServer \<times> 'w) option" where
  "serve_ready os read_set write_set s w = do {
     incoming \<leftarrow> sys_FD_ISSET os (ts_listen_fd s) read_set;
     (s, w) \<leftarrow> (if incoming then drain_accept os s w else Some (s, w));
     (s, w) \<leftarrow> for_each (\<lambda>fd (s, w). do {
          readable \<leftarrow> sys_FD_ISSET os fd read_set;
          if readable then handle_readable os fd s w else Some (s, w)
        }) (iter_order os (po_monitored (ts_poller s))) (s, w);
     write_scratch \<leftarrow> for_each (\<lambda>fd scratch. do {
          writable \<leftarrow> sys_FD_ISSET os fd write_set;
          Some (if writable then scratch @ [fd] else scratch)
        }) (iter_order os (queued s)) [];
     for_each (\<lambda>fd (s, w). Some (handle_writable os fd s w)) write_scratch (s, w)
   }"

text \<open>One iteration of \<open>run\<close>, after the stop flag was found clear.\<close>

definition run_once :: "'w system \<Rightarrow> TcpServer \<Rightarrow> 'w \<Rightarrow> (TcpServer \<times> 'w) option" where
  "run_once os s w = do {
     read0 \<leftarrow> sys_FD_SET os (ts_listen_fd s) [];
     (read_set, max_fd) \<leftarrow> for_each (watch os) (iter_order os (po_monitored (ts_poller s))) (read0, ts_listen_fd s);
     (write_set, max_fd) \<leftarrow> for_each (watch os) (iter_order os (queued s)) ([], max_fd);
     let (ready, read_set, write_set, w) = sys_select os (case platform os of Windows \<Rightarrow> 0 | Posix \<Rightarrow> max_fd + 1) read_set write_set w;
     if ready < 0 then Some (s, w)
     else if ready = 0 then Some (s, w)
     else serve_ready os read_set write_set s w
   }"

text \<open>
  \<open>handle_sigint\<close> has run or not since it was last asked.  It calls \<open>stop\<close> on \<open>g_server\<close>, which points
  to this server from before the handler is installed until after \<open>run\<close> has returned.
\<close>

definition take_signal :: "'w system \<Rightarrow> TcpServer \<Rightarrow> 'w \<Rightarrow> TcpServer \<times> 'w" where
  "take_signal os s w = (case sys_signalled os w of (arrived, w) \<Rightarrow> (if arrived then stop s else s, w))"

text \<open>\<open>run\<close>: the flag is cleared, whatever it was, and then read once per iteration.\<close>

partial_function (option) run_loop :: "'w system \<Rightarrow> TcpServer \<Rightarrow> 'w \<Rightarrow> (TcpServer \<times> 'w) option" where
  "run_loop os s w = (case take_signal os s w of (s, w) \<Rightarrow>
     if ts_stop s then Some (s, w)
     else do { (s, w) \<leftarrow> run_once os s w; run_loop os s w })"

definition run :: "'w system \<Rightarrow> TcpServer \<Rightarrow> 'w \<Rightarrow> (TcpServer \<times> 'w) option" where
  "run os s w = (case take_signal os s w of (s, w) \<Rightarrow> run_loop os (s\<lparr>ts_stop := False\<rparr>) w)"

definition tcp_server_new :: "'w system \<Rightarrow> string \<Rightarrow> 16 word \<Rightarrow> ServerPipeline \<Rightarrow> SelectReadinessPoller \<Rightarrow> 'w
    \<Rightarrow> (string + unit) \<times> TcpServer \<times> 'w" where
  "tcp_server_new os host port pipeline poller w = open_listen_socket os
     \<lparr>ts_pipeline = pipeline, ts_poller = poller, ts_host = host, ts_port = port, ts_listen_fd = kInvalid, ts_stop = False,
      ts_outbound = [], ts_accepted = 0, ts_rejected = 0, ts_closed = 0\<rparr> w"

definition tcp_server_destroy :: "'w system \<Rightarrow> TcpServer \<Rightarrow> 'w \<Rightarrow> 'w" where
  "tcp_server_destroy os s w = (if ts_listen_fd s \<noteq> kInvalid then close_native os (ts_listen_fd s) w else w)"

declare drain_accept.simps [code] run_loop.simps [code]

end
