(* ===== verification/Tcp_Server_Invariant.thy ===== *)
theory Tcp_Server_Invariant
  imports Tcp_Server
begin

text \<open>
  The event loop keeps the server's bookkeeping straight: open descriptors, monitored sockets,
  tracked connections and outbound queues stay in step, and an iteration always returns, provided
  the process cannot open descriptors at or above \<open>FD_SETSIZE\<close>, a real restriction of \<open>select\<close>.  What
  is assumed of the operating system is stated by \<open>system_ok\<close> (new descriptors are unused and below the
  process limit \<open>maxfd\<close>; pending connections run out) and \<open>sends_ok\<close> (what \<open>send\<close> delivers).
\<close>

definition system_ok :: "'w system \<Rightarrow> ('w \<Rightarrow> int set) \<Rightarrow> ('w \<Rightarrow> nat) \<Rightarrow> int \<Rightarrow> bool" where
  "system_ok os opened backlog maxfd \<longleftrightarrow>
     (\<forall>l w c w'. sys_accept os l w = (c, w') \<longrightarrow>
        (if invalid_socket os c then opened w' = opened w
         else 0 \<le> c \<and> c \<notin> opened w \<and> c < maxfd \<and> opened w' = insert c (opened w) \<and> backlog w' < backlog w))
     \<and> (\<forall>fd w. opened (snd (sys_getfl os fd w)) = opened w \<and> backlog (snd (sys_getfl os fd w)) \<le> backlog w)
     \<and> (\<forall>fd f w. opened (snd (sys_setfl_nonblock os fd f w)) = opened w \<and> backlog (snd (sys_setfl_nonblock os fd f w)) \<le> backlog w)
     \<and> (\<forall>fd w. opened (snd (sys_ioctl_fionbio os fd w)) = opened w \<and> backlog (snd (sys_ioctl_fionbio os fd w)) \<le> backlog w)
     \<and> (\<forall>fd w. opened (sys_close os fd w) = opened w - {fd} \<and> backlog (sys_close os fd w) \<le> backlog w)
     \<and> (\<forall>fd n w. opened (snd (snd (sys_recv os fd n w))) = opened w)
     \<and> (\<forall>fd bs n w. opened (snd (sys_send os fd bs n w)) = opened w)
     \<and> (\<forall>n rs ws w. opened (snd (snd (snd (sys_select os n rs ws w)))) = opened w)
     \<and> (\<forall>w. opened (snd (sys_signalled os w)) = opened w)
     \<and> (\<forall>xs. set (iter_order os xs) = set xs \<and> (distinct xs \<longrightarrow> distinct (iter_order os xs)))"

definition sends_ok :: "'w system \<Rightarrow> ('w \<Rightarrow> int \<Rightarrow> u8 list) \<Rightarrow> bool" where
  "sends_ok os delivered \<longleftrightarrow> (\<forall>fd bs len w n w'. sys_send os fd bs len w = (n, w') \<and> 0 < len \<and> len \<le> int (length bs) \<longrightarrow>
     n \<le> len \<and> delivered w' = (if n > 0 then (delivered w)(fd := delivered w fd @ take (nat n) bs) else delivered w))"

definition tracked :: "ServerPipeline \<Rightarrow> int set" where
  "tracked p = fst ` set (cr_connections (sp_registry p))"

definition keys :: "(SocketHandle \<times> u8 list) list \<Rightarrow> int set" where
  "keys q = fst ` set q"

text \<open>
  The invariant: the pipeline is well-formed and operational; monitored sockets, tracked
  connections and outbound queues are the same set; the open descriptors are exactly those and the
  listening socket, all below the process limit \<open>maxfd\<close>; accepted connections are live or closed.
\<close>

definition srv_inv :: "nat \<times> nat \<Rightarrow> ('w \<Rightarrow> int set) \<Rightarrow> int \<Rightarrow> TcpServer \<Rightarrow> 'w \<Rightarrow> bool" where
  "srv_inv cp opened maxfd s w \<longleftrightarrow>
     (\<exists>a. pipe_rel cp (ts_pipeline s) a) \<and> sp_operational (ts_pipeline s)
     \<and> distinct (po_monitored (ts_poller s)) \<and> set (po_monitored (ts_poller s)) = tracked (ts_pipeline s)
     \<and> distinct (map fst (ts_outbound s)) \<and> keys (ts_outbound s) = tracked (ts_pipeline s)
     \<and> opened w = insert (ts_listen_fd s) (tracked (ts_pipeline s)) \<and> ts_listen_fd s \<notin> tracked (ts_pipeline s)
     \<and> (\<forall>fd\<in>opened w. 0 \<le> fd \<and> fd < maxfd)
     \<and> ts_accepted s = ts_closed s + of_nat (length (cr_connections (sp_registry (ts_pipeline s))))"

subsection \<open>Replaying the poller's calls\<close>

lemma sync_append:
  assumes "cr_poller (sp_registry p) = cr_poller (sp_registry (ts_pipeline s)) @ cs"
  shows "sync os p s w = (case fold (poller_apply os) cs (ts_poller s, w) of (po, w) \<Rightarrow> (s\<lparr>ts_pipeline := p, ts_poller := po\<rparr>, w))"
  using assms by (simp add: sync_def)

interpretation select: readiness_poller "poller_apply os" "\<lambda>(po, w). set (po_monitored po)" for os :: "'w system"
  by unfold_locales
    (auto simp: poller_apply_def register_readiness_def deregister_readiness_def close_socket_def split: prod.splits)

lemma sync_tracked:
  assumes "set (po_monitored (ts_poller s)) = tracked (ts_pipeline s)" "reg_inv (sp_registry (ts_pipeline s))" "reg_inv (sp_registry p)"
    and "cr_poller (sp_registry p) = cr_poller (sp_registry (ts_pipeline s)) @ cs" "sync os p s w = (s', w')"
  shows "set (po_monitored (ts_poller s')) = tracked p"
  using select.replay_in_step [of "(ts_poller s, w)" _ _ cs os, OF _ assms(2-4)] assms(1,5)
  by (cases "fold (poller_apply os) cs (ts_poller s, w)") (simp add: sync_append [OF assms(4)] tracked_def, force)

lemma close_opened: "system_ok os opened bl maxfd \<Longrightarrow> opened (sys_close os fd w) = opened w - {fd}"
  by (simp add: system_ok_def)

lemma nonblocking_opened:
  assumes "system_ok os opened bl maxfd" "set_nonblocking os fd w = (ok, w')"
  shows "opened w' = opened w" "bl w' \<le> bl w"
proof -
  obtain f w1 where 1: "sys_getfl os fd w = (f, w1)" by (cases "sys_getfl os fd w")
  obtain rc w2 where 2: "sys_setfl_nonblock os fd f w1 = (rc, w2)" by (cases "sys_setfl_nonblock os fd f w1")
  obtain rc' w3 where 3: "sys_ioctl_fionbio os fd w = (rc', w3)" by (cases "sys_ioctl_fionbio os fd w")
  have "opened w1 = opened w \<and> bl w1 \<le> bl w" using assms(1) 1 unfolding system_ok_def by (metis snd_conv)
  moreover have "opened w2 = opened w1 \<and> bl w2 \<le> bl w1" using assms(1) 2 unfolding system_ok_def by (metis snd_conv)
  moreover have "opened w3 = opened w \<and> bl w3 \<le> bl w" using assms(1) 3 unfolding system_ok_def by (metis snd_conv)
  moreover have "w' = w1 \<or> w' = w2 \<or> w' = w3" using assms(2) 1 2 3 by (auto simp: set_nonblocking_def split: if_splits Platform.splits)
  ultimately show "opened w' = opened w" "bl w' \<le> bl w" by auto
qed

text \<open>The two kinds of pipeline operation the loop performs: a registration and a teardown.\<close>

lemma sync_registered:
  assumes "cr_poller (sp_registry p) = cr_poller (sp_registry (ts_pipeline s)) @ [RegisterReadiness fd]"
  shows "sync os p s w = (s\<lparr>ts_pipeline := p, ts_poller := register_readiness fd (ts_poller s)\<rparr>, w)"
  by (simp add: sync_append [OF assms] poller_apply_def)

lemma sync_closed:
  assumes "cr_poller (sp_registry p) = cr_poller (sp_registry (ts_pipeline s)) @ [CloseSocket fd]"
  shows "sync os p s w = (s\<lparr>ts_pipeline := p, ts_poller := (ts_poller s)\<lparr>po_closed_count := po_closed_count (ts_poller s) + 1\<rparr>\<rparr>, sys_close os fd w)"
  by (simp add: sync_append [OF assms] poller_apply_def close_socket_def close_native_def)

lemma sync_torn_down:
  assumes "cr_poller (sp_registry p) = cr_poller (sp_registry (ts_pipeline s)) @ [DeregisterReadiness fd, CloseSocket fd]"
  shows "\<exists>po. sync os p s w = (s\<lparr>ts_pipeline := p, ts_poller := po\<rparr>, sys_close os fd w)
    \<and> po_monitored po = filter (\<lambda>k. k \<noteq> fd) (po_monitored (ts_poller s))"
  by (intro exI [of _ "(deregister_readiness fd (ts_poller s))\<lparr>po_closed_count := po_closed_count (ts_poller s) + 1\<rparr>"])
    (simp add: sync_append [OF assms] poller_apply_def close_socket_def close_native_def deregister_readiness_def)

lemma sync_nothing:
  assumes "cr_poller (sp_registry p) = cr_poller (sp_registry (ts_pipeline s))"
  shows "sync os p s w = (s\<lparr>ts_pipeline := p\<rparr>, w)"
  by (simp add: sync_append [of p s "[]"] assms)

subsection \<open>Closing a connection\<close>

lemma filter_length_distinct:
  "distinct xs \<Longrightarrow> k \<in> set xs \<Longrightarrow> length xs = Suc (length (filter (\<lambda>j. j \<noteq> k) xs))"
proof (induction xs)
  case (Cons x xs)
  show ?case
  proof (cases "x = k")
    case True
    with Cons.prems have "filter (\<lambda>j. j \<noteq> k) xs = xs" by (auto simp: filter_id_conv)
    with True show ?thesis by simp
  qed (use Cons in auto)
qed simp

lemma keys_filter [simp]: "keys (filter (\<lambda>c. fst c \<noteq> k) xs) = keys xs - {k}"
  by (auto simp: keys_def)

text \<open>Any operation that removes the connection \<open>fd\<close> from the registry, followed by \<open>drop_connection\<close>.\<close>

lemma drop_keeps_inv:
  assumes inv: "srv_inv cp opened maxfd s w" and os: "system_ok os opened bl maxfd" and fd: "fd \<in> tracked (ts_pipeline s)"
    and p: "pipe_rel cp p a" "sp_operational p" "reg_after fd None (sp_registry (ts_pipeline s)) (sp_registry p)"
    and q: "keys q = keys (ts_outbound s)" "distinct (map fst q)"
    and w: "opened w1 = opened w"
  shows "\<exists>s' w'. sync os p (s\<lparr>ts_outbound := q\<rparr>) w1 = (s', w') \<and> srv_inv cp opened maxfd (drop_connection fd s') w'
    \<and> ts_listen_fd s' = ts_listen_fd s \<and> tracked (ts_pipeline s') = tracked (ts_pipeline s) - {fd}"
proof -
  let ?r = "sp_registry (ts_pipeline s)"
  from p(3) have r: "cr_poller (sp_registry p) = cr_poller ?r @ [DeregisterReadiness fd, CloseSocket fd]"
    "map fst (cr_connections (sp_registry p)) = filter (\<lambda>k. k \<noteq> fd) (map fst (cr_connections ?r))" by (simp_all add: reg_after_def)
  have tr: "tracked p = tracked (ts_pipeline s) - {fd}"
    using arg_cong [OF r(2), of set] by (auto simp: tracked_def)
  have "distinct (map fst (cr_connections ?r))" using inv by (auto simp: srv_inv_def pipe_rel_def reg_inv_def)
  from filter_length_distinct [OF this, of fd] fd arg_cong [OF r(2), of length]
  have len: "length (cr_connections ?r) = Suc (length (cr_connections (sp_registry p)))" by (simp add: tracked_def)
  from sync_torn_down [of p "s\<lparr>ts_outbound := q\<rparr>" fd os w1] r(1) obtain po where
    po: "sync os p (s\<lparr>ts_outbound := q\<rparr>) w1 = (s\<lparr>ts_outbound := q, ts_pipeline := p, ts_poller := po\<rparr>, sys_close os fd w1)"
      "po_monitored po = filter (\<lambda>k. k \<noteq> fd) (po_monitored (ts_poller s))" by auto
  have ri: "reg_inv (sp_registry (ts_pipeline s))" "reg_inv (sp_registry p)" using inv p(1) by (auto simp: srv_inv_def pipe_rel_def)
  have s: "set (po_monitored (ts_poller (s\<lparr>ts_outbound := q\<rparr>))) = tracked (ts_pipeline (s\<lparr>ts_outbound := q\<rparr>))"
    "distinct (po_monitored (ts_poller s))" using inv by (simp_all add: srv_inv_def)
  have mon: "set (po_monitored po) = tracked p" "distinct (po_monitored po)"
    using sync_tracked [OF s(1) _ ri(2) _ po(1)] ri(1) r(1) po(2) s(2) by (simp_all del: set_filter)
  have "srv_inv cp opened maxfd (drop_connection fd (s\<lparr>ts_outbound := q, ts_pipeline := p, ts_poller := po\<rparr>)) (sys_close os fd w1)"
    using inv p(1,2) mon tr len fd q w close_opened [OF os, of fd w1]
    unfolding srv_inv_def drop_connection_def
    by (auto simp: map_fst_filter)
  with po(1) tr show ?thesis by auto
qed

lemma inv_rel:
  assumes "srv_inv cp opened maxfd s w"
  obtains a where "pipe_rel cp (ts_pipeline s) a" "sp_operational (ts_pipeline s)" "reg_inv (sp_registry (ts_pipeline s))"
  using assms by (auto simp: srv_inv_def pipe_rel_def)

lemma tracked_tail: "reg_inv (sp_registry p) \<Longrightarrow> fd \<in> tracked p \<longleftrightarrow> tail_of (sp_registry p) fd \<noteq> None"
  using tracked_iff [of "sp_registry p" fd] by (auto simp: tracked_def is_registered_def map_of_no_key)

lemma teardown_keeps_inv:
  assumes inv: "srv_inv cp opened maxfd s w" and os: "system_ok os opened bl maxfd" and fd: "fd \<in> tracked (ts_pipeline s)" and w: "opened w1 = opened w"
  shows "\<exists>s' w'. sync os (sp_teardown fd reason (ts_pipeline s)) s w1 = (s', w') \<and> srv_inv cp opened maxfd (drop_connection fd s') w'
    \<and> ts_listen_fd s' = ts_listen_fd s \<and> tracked (ts_pipeline s') = tracked (ts_pipeline s) - {fd}"
proof -
  let ?p = "ts_pipeline s"
  from inv_rel [OF inv] obtain a where a: "pipe_rel cp ?p a" "sp_operational ?p" "reg_inv (sp_registry ?p)" .
  from fd obtain fb where "map_of (cr_connections (sp_registry ?p)) fd = Some fb"
    by (metis map_of_no_key option.exhaust tracked_def)
  then have "reg_after fd None (sp_registry ?p) (sp_registry (sp_teardown fd reason ?p))"
    using reg_after_teardown by (simp add: sp_teardown_def)
  moreover have "pipe_rel cp (sp_teardown fd reason ?p) a" "sp_operational (sp_teardown fd reason ?p)"
    using a teardown_inv [OF a(3), of fd reason] by (simp_all add: pipe_rel_def sp_teardown_def sp_operational_def)
  moreover have "distinct (map fst (ts_outbound s))" using inv by (simp add: srv_inv_def)
  ultimately show ?thesis
    using drop_keeps_inv [OF inv os fd, of "sp_teardown fd reason ?p" a "ts_outbound s" w1] w by simp
qed

subsection \<open>Accepting\<close>

lemma accept_keeps_inv:
  assumes inv: "srv_inv cp opened maxfd s w" and os: "system_ok os opened bl maxfd"
    and fd: "fd \<notin> opened w" "opened w1 = insert fd (opened w)" "0 \<le> fd" "fd < maxfd"
    and acc: "sp_accept fd (ts_pipeline s) = (res, p)" and sy: "sync os p s w1 = (s', w')"
  shows "(if res = Registered
    then srv_inv cp opened maxfd (s'\<lparr>ts_accepted := ts_accepted s' + 1, ts_outbound := emplace_queue fd (ts_outbound s')\<rparr>) w' \<and> w' = w1
    else srv_inv cp opened maxfd (s'\<lparr>ts_rejected := ts_rejected s' + 1\<rparr>) w' \<and> w' = sys_close os fd w1) \<and> ts_listen_fd s' = ts_listen_fd s
    \<and> tracked (ts_pipeline s') = (if res = Registered then insert fd (tracked (ts_pipeline s)) else tracked (ts_pipeline s))"
proof -
  let ?p = "ts_pipeline s"
  from inv_rel [OF inv] obtain a where a: "pipe_rel cp ?p a" "sp_operational ?p" "reg_inv (sp_registry ?p)" .
  have new: "fd \<notin> tracked ?p" "fd \<noteq> ts_listen_fd s" using inv fd(1) by (auto simp: srv_inv_def)
  then have none: "map_of (cr_connections (sp_registry ?p)) fd = None" by (simp add: map_of_no_key tracked_def)
  then have "reg_inv (snd (accept fd (sp_registry ?p)))" using accept_inv [OF a(3), of fd] by (simp add: is_registered_def)
  with a acc have p: "pipe_rel cp p a" "sp_operational p"
    by (auto simp: pipe_rel_def sp_operational_def sp_accept_def split: prod.splits)
  have qn: "map_of (ts_outbound s) fd = None" using inv new(1) by (simp add: map_of_no_key srv_inv_def keys_def)
  have mon: "fd \<notin> set (po_monitored (ts_poller s))" using inv new(1) by (simp add: srv_inv_def)
  show ?thesis
  proof (cases "length (cr_connections (sp_registry ?p)) \<ge> unat (cr_max_connections (sp_registry ?p))")
    case True
    then have "res = RejectedAtCapacity" "p = ?p\<lparr>sp_registry := poller_call (CloseSocket fd) (sp_registry ?p)\<rparr>"
      using acc by (auto simp: sp_accept_def accept_def)
    moreover from this have "(s', w') = (s\<lparr>ts_pipeline := p, ts_poller := (ts_poller s)\<lparr>po_closed_count := po_closed_count (ts_poller s) + 1\<rparr>\<rparr>, sys_close os fd w1)"
      using sync_closed [of p s fd os w1] sy by (simp add: poller_call_def)
    ultimately show ?thesis
      using inv p fd new close_opened [OF os, of fd w1] by (simp add: srv_inv_def tracked_def poller_call_def) auto
  next
    case False
    then have r: "res = Registered" "p = ?p\<lparr>sp_registry := poller_call (RegisterReadiness fd) (try_emplace fd (sp_registry ?p))\<rparr>"
      using acc by (auto simp: sp_accept_def accept_def)
    then have "cr_poller (sp_registry p) = cr_poller (sp_registry ?p) @ [RegisterReadiness fd]"
      using none by (simp add: poller_call_def try_emplace_def)
    from sync_registered [OF this, of os w1] sy
    have "(s', w') = (s\<lparr>ts_pipeline := p, ts_poller := register_readiness fd (ts_poller s)\<rparr>, w1)" by simp
    moreover have "tracked p = insert fd (tracked ?p)" "length (cr_connections (sp_registry p)) = Suc (length (cr_connections (sp_registry ?p)))"
      using r(2) none by (simp_all add: tracked_def poller_call_def try_emplace_def)
    moreover have "emplace_queue fd (ts_outbound s) = (fd, []) # ts_outbound s" using qn by (simp add: emplace_queue_def)
    ultimately show ?thesis
      using inv p r(1) fd new mon qn by (auto simp: srv_inv_def register_readiness_def keys_def map_of_no_key)
  qed
qed

text \<open>The accept loop ends when the backlog is empty.\<close>

lemma drain_accept_ok:
  assumes "system_ok os opened bl maxfd" "srv_inv cp opened maxfd s w"
  shows "\<exists>s' w'. drain_accept os s w = Some (s', w') \<and> srv_inv cp opened maxfd s' w' \<and> ts_listen_fd s' = ts_listen_fd s
    \<and> tracked (ts_pipeline s) \<subseteq> tracked (ts_pipeline s')"
  using assms(2)
proof (induction "bl w" arbitrary: s w rule: less_induct)
  case less
  obtain fd w1 where acc: "sys_accept os (ts_listen_fd s) w = (fd, w1)" by (cases "sys_accept os (ts_listen_fd s) w")
  show ?case
  proof (cases "invalid_socket os fd")
    case True
    with acc assms(1) have "opened w1 = opened w" unfolding system_ok_def by meson
    with acc True less.prems show ?thesis by (subst drain_accept.simps) (simp add: srv_inv_def)
  next
    case False
    with acc assms(1) have o1: "fd \<notin> opened w" "opened w1 = insert fd (opened w)" "bl w1 < bl w" "fd < maxfd" "0 \<le> fd"
      unfolding system_ok_def by (metis (no_types, lifting))+
    obtain ok w2 where nb: "set_nonblocking os fd w1 = (ok, w2)" by (cases "set_nonblocking os fd w1")
    note o2 = nonblocking_opened [OF assms(1) nb]
    have cl: "bl (sys_close os fd w2) \<le> bl w2" using assms(1) by (simp add: system_ok_def)
    show ?thesis
    proof (cases ok)
      case False
      have "srv_inv cp opened maxfd s (close_native os fd w2)"
        using less.prems o1 o2(1) close_opened [OF assms(1), of fd w2] by (auto simp: srv_inv_def close_native_def)
      moreover have "bl (close_native os fd w2) < bl w" using cl o1(3) o2(2) by (simp add: close_native_def)
      ultimately show ?thesis using less.hyps acc nb False \<open>\<not> invalid_socket os fd\<close> by (subst drain_accept.simps) simp
    next
      case True
      obtain res p where a: "sp_accept fd (ts_pipeline s) = (res, p)" by (cases "sp_accept fd (ts_pipeline s)")
      obtain s1 w3 where sy: "sync os p s w2 = (s1, w3)" by (cases "sync os p s w2")
      have w2: "opened w2 = insert fd (opened w)" using o1(2) o2(1) by simp
      note K = accept_keeps_inv [OF less.prems assms(1) o1(1) w2 o1(5,4) a sy, THEN conjunct1]
        accept_keeps_inv [OF less.prems assms(1) o1(1) w2 o1(5,4) a sy, THEN conjunct2, THEN conjunct1]
        accept_keeps_inv [OF less.prems assms(1) o1(1) w2 o1(5,4) a sy, THEN conjunct2, THEN conjunct2]
      let ?s = "if res = Registered then s1\<lparr>ts_accepted := ts_accepted s1 + 1, ts_outbound := emplace_queue fd (ts_outbound s1)\<rparr>
        else s1\<lparr>ts_rejected := ts_rejected s1 + 1\<rparr>"
      have "srv_inv cp opened maxfd ?s w3" "bl w3 < bl w" using K(1) o1(3) o2(2) cl by (auto split: if_splits)
      from less.hyps [OF this(2,1)] obtain s' w' where
        "drain_accept os ?s w3 = Some (s', w')" "srv_inv cp opened maxfd s' w'" "ts_listen_fd s' = ts_listen_fd ?s"
        "tracked (ts_pipeline ?s) \<subseteq> tracked (ts_pipeline s')" by blast
      moreover have "drain_accept os s w = drain_accept os ?s w3"
        using acc nb True a sy \<open>\<not> invalid_socket os fd\<close> by (subst drain_accept.simps) simp
      ultimately show ?thesis using K(2,3) by (auto split: if_splits)
    qed
  qed
qed

subsection \<open>Writing\<close>

lemma send_loop_opened:
  assumes "system_ok os opened bl maxfd"
  shows "opened (snd (send_loop os fd queue k w)) = opened w"
proof (induction "length queue - k" arbitrary: k w rule: less_induct)
  case less
  obtain n w1 where sd: "sys_send os fd (drop k queue) (to_int (length queue - k)) w = (n, w1)"
    by (cases "sys_send os fd (drop k queue) (to_int (length queue - k)) w")
  have "opened w1 = opened w" using assms sd unfolding system_ok_def by (metis snd_conv)
  moreover have "opened (snd (send_loop os fd queue (k + nat n) w1)) = opened w1" if "n > 0" "k < length queue"
    using that by (intro less.hyps) simp
  ultimately show ?case using sd by (subst send_loop.simps) simp
qed

lemma to_int_small: "n < 2 ^ 31 \<Longrightarrow> to_int n = int n"
  by (simp add: to_int_def signed_of_nat signed_take_bit_int_eq_self)

lemma send_loop_delivers:
  assumes "sends_ok os delivered" "length queue < 2 ^ 31" "k \<le> length queue"
  shows "\<exists>j r w'. send_loop os fd queue k w = (r, w') \<and> k \<le> j \<and> j \<le> length queue \<and> (r = Some j \<or> r = None)
    \<and> delivered w' = (delivered w)(fd := delivered w fd @ take (j - k) (drop k queue))"
  using assms(3)
proof (induction "length queue - k" arbitrary: k w rule: less_induct)
  case less
  let ?bs = "drop k queue" let ?len = "to_int (length queue - k)"
  obtain n w1 where sd: "sys_send os fd ?bs ?len w = (n, w1)" by (cases "sys_send os fd ?bs ?len w")
  show ?case
  proof (cases "k < length queue")
    case False
    with less.prems show ?thesis by (subst send_loop.simps) auto
  next
    case True
    have len: "?len = int (length queue - k)" using assms(2) by (intro to_int_small) linarith
    have d: "n \<le> int (length queue - k)" "delivered w1 = (if n > 0 then (delivered w)(fd := delivered w fd @ take (nat n) ?bs) else delivered w)"
      using assms(1) sd len True unfolding sends_ok_def by (metis length_drop of_nat_0_less_iff order_refl zero_less_diff)+
    show ?thesis
    proof (cases "n > 0")
      case False
      with d sd True show ?thesis
        by (subst send_loop.simps) (auto intro!: exI [of _ k])
    next
      case pos: True
      with d(1) True have k: "k + nat n \<le> length queue" "length queue - (k + nat n) < length queue - k" by auto
      from less.hyps [OF k(2,1), of w1] obtain j r w' where
        j: "send_loop os fd queue (k + nat n) w1 = (r, w')" "k + nat n \<le> j" "j \<le> length queue" "r = Some j \<or> r = None"
          "delivered w' = (delivered w1)(fd := delivered w1 fd @ take (j - (k + nat n)) (drop (k + nat n) queue))" by blast
      have "send_loop os fd queue k w = (r, w')" using sd True pos j(1) by (subst send_loop.simps) simp
      moreover have "take (nat n) ?bs @ take (j - (k + nat n)) (drop (k + nat n) queue) = take (j - k) ?bs"
        using j(2) take_add [of "nat n" "j - (k + nat n)" ?bs] by (simp add: add.commute)
      ultimately show ?thesis using j d(2) pos by (intro exI [of _ j] exI [of _ r] exI [of _ w']) simp
    qed
  qed
qed

lemma keys_set_queue [simp]: "keys (set_queue fd bs q) = keys q" "map fst (set_queue fd bs q) = map fst q"
  by (force simp: keys_def set_queue_def)+

lemma inv_outbound:
  assumes "srv_inv cp opened maxfd s w" "keys q = keys (ts_outbound s)" "distinct (map fst q)" "opened w' = opened w"
  shows "srv_inv cp opened maxfd (s\<lparr>ts_outbound := q\<rparr>) w'"
  using assms by (simp add: srv_inv_def)

lemma writable_keeps_inv:
  assumes inv: "srv_inv cp opened maxfd s w" and os: "system_ok os opened bl maxfd"
  shows "\<exists>s' w'. handle_writable os fd s w = (s', w') \<and> srv_inv cp opened maxfd s' w' \<and> ts_listen_fd s' = ts_listen_fd s
    \<and> tracked (ts_pipeline s) - {fd} \<subseteq> tracked (ts_pipeline s')"
proof (cases "map_of (ts_outbound s) fd = None \<or> map_of (ts_outbound s) fd = Some []")
  case True
  then show ?thesis using inv by (auto simp: handle_writable_def)
next
  case False
  then obtain queue where q: "map_of (ts_outbound s) fd = Some queue" "queue \<noteq> []" by (cases "map_of (ts_outbound s) fd") auto
  have "fd \<in> keys (ts_outbound s)" using map_of_key [OF q(1)] by (simp add: keys_def)
  then have fd: "fd \<in> tracked (ts_pipeline s)" using inv by (simp add: srv_inv_def)
  obtain r w1 where sl: "send_loop os fd queue 0 w = (r, w1)" by (cases "send_loop os fd queue 0 w")
  have o1: "opened w1 = opened w" using send_loop_opened [OF os, of fd queue 0 w] sl by simp
  show ?thesis
  proof (cases r)
    case None
    from teardown_keeps_inv [OF inv os fd o1, of SocketError] obtain s' w' where
      "sync os (sp_teardown fd SocketError (ts_pipeline s)) s w1 = (s', w')" "srv_inv cp opened maxfd (drop_connection fd s') w'"
      "ts_listen_fd s' = ts_listen_fd s" "tracked (ts_pipeline s') = tracked (ts_pipeline s) - {fd}" by blast
    with q sl None show ?thesis by (simp add: handle_writable_def drop_connection_def)
  next
    case (Some k)
    have "srv_inv cp opened maxfd (s\<lparr>ts_outbound := set_queue fd (drop k queue) (ts_outbound s)\<rparr>) w1"
      using inv o1 by (intro inv_outbound [OF inv]) (simp_all add: srv_inv_def)
    moreover have "srv_inv cp opened maxfd s w1" using inv_outbound [OF inv, of "ts_outbound s" w1] inv o1 by (simp add: srv_inv_def)
    ultimately show ?thesis using q sl Some by (auto simp: handle_writable_def)
  qed
qed

subsection \<open>Reading\<close>

lemma append_queue_ok:
  assumes "map_of q fd = Some v"
  shows "map_of (append_queue fd bs q) = (map_of q)(fd \<mapsto> v @ bs)" "map fst (append_queue fd bs q) = map fst q"
proof -
  have e: "emplace_queue fd q = q" using assms by (simp add: emplace_queue_def)
  have "map_of (map (\<lambda>(k, v). if k = fd then (k, v @ bs) else (k, v)) q) = (\<lambda>k. if k = fd then map_option (\<lambda>v. v @ bs) (map_of q fd) else map_of q k)" for q
    by (induction q) (auto simp: fun_eq_iff)
  with assms e show "map_of (append_queue fd bs q) = (map_of q)(fd \<mapsto> v @ bs)" by (auto simp: append_queue_def fun_eq_iff)
  show "map fst (append_queue fd bs q) = map fst q" unfolding append_queue_def e by (induction q) auto
qed

lemma append_all:
  assumes "map_of q fd = Some v"
  shows "\<exists>q'. for_each (\<lambda>e q. Some (append_queue fd (f e) q)) es q = Some q' \<and> map_of q' = (map_of q)(fd \<mapsto> v @ concat (map f es))
    \<and> map fst q' = map fst q"
  using assms
proof (induction es arbitrary: q v)
  case Nil
  then show ?case by (simp add: fun_upd_idem)
next
  case (Cons e es)
  note A = append_queue_ok [OF Cons.prems, of "f e"]
  have "map_of (append_queue fd (f e) q) fd = Some (v @ f e)" by (simp only: A(1) fun_upd_same)
  from Cons.IH [OF this] obtain q' where
    "for_each (\<lambda>e q. Some (append_queue fd (f e) q)) es (append_queue fd (f e) q) = Some q'"
    "map_of q' = (map_of (append_queue fd (f e) q))(fd \<mapsto> (v @ f e) @ concat (map f es))"
    "map fst q' = map fst (append_queue fd (f e) q)" by blast
  then show ?case by (intro exI [of _ q']) (simp only: for_each.simps Option.bind.bind_lunit A fun_upd_upd append_assoc list.map concat.simps simp_thms)
qed

lemma keys_eq: "map fst q' = map fst q \<Longrightarrow> keys q' = keys q"
  unfolding keys_def by (metis list.set_map)

text \<open>What one readable event does, when the connection is open and bytes arrive.\<close>

lemma readable_bytes:
  assumes inv: "srv_inv cp opened maxfd s w" and os: "system_ok os opened bl maxfd" and fd: "fd \<in> tracked (ts_pipeline s)"
    and rel: "pipe_rel cp (ts_pipeline s) a" and t: "tail_of (sp_registry (ts_pipeline s)) fd = Some t"
    and w1: "opened w1 = opened w"
    and rd: "a_read cp (in_cap (ts_pipeline s)) (out_cap (ts_pipeline s)) (t @ bytes) a = (es, a', t')"
  shows "\<exists>p q s1 w2. submit_client_bytes (\<lambda>out_fd frame q. Some (append_queue out_fd frame q)) fd bytes (ts_pipeline s) (ts_outbound s)
      = Some (if t' = None then FS_Closed else FS_Ok, p, q)
    \<and> sync os p (s\<lparr>ts_outbound := q\<rparr>) w1 = (s1, w2) \<and> pipe_rel cp p a' \<and> ts_pipeline s1 = p \<and> ts_listen_fd s1 = ts_listen_fd s
    \<and> map_of q = (map_of (ts_outbound s))(fd \<mapsto> the (map_of (ts_outbound s) fd) @ concat (map frame_of es))
    \<and> (if t' = None then srv_inv cp opened maxfd (drop_connection fd s1) w2 \<and> tracked p = tracked (ts_pipeline s) - {fd}
       else srv_inv cp opened maxfd s1 w2 \<and> tracked p = tracked (ts_pipeline s) \<and> ts_outbound s1 = q)"
proof -
  let ?p = "ts_pipeline s"
  have op: "sp_operational ?p" using inv by (simp add: srv_inv_def)
  have "fd \<in> fst ` set (ts_outbound s)" using inv fd by (simp add: srv_inv_def keys_def)
  then obtain v where v: "map_of (ts_outbound s) fd = Some v" by (metis map_of_no_key option.exhaust)
  from read_ok [OF rel op t rd, of "\<lambda>out_fd frame q. Some (append_queue out_fd frame q)"] obtain p where
    p: "\<forall>st. submit_client_bytes (\<lambda>out_fd frame q. Some (append_queue out_fd frame q)) fd bytes ?p st
        = map_option (\<lambda>st'. (if t' = None then FS_Closed else FS_Ok, p, st')) (for_each (\<lambda>e q. Some (append_queue fd (frame_of e) q)) es st)"
      "pipe_rel cp p a'" "sp_operational p" "reg_after fd t' (sp_registry ?p) (sp_registry p)" by blast
  from append_all [OF v, of frame_of es] obtain q where
    q: "for_each (\<lambda>e q. Some (append_queue fd (frame_of e) q)) es (ts_outbound s) = Some q"
      "map_of q = (map_of (ts_outbound s))(fd \<mapsto> v @ concat (map frame_of es))" "map fst q = map fst (ts_outbound s)" by blast
  have sub: "submit_client_bytes (\<lambda>out_fd frame q. Some (append_queue out_fd frame q)) fd bytes ?p (ts_outbound s)
      = Some (if t' = None then FS_Closed else FS_Ok, p, q)" using p(1) q(1) by simp
  have kq: "keys q = keys (ts_outbound s)" "distinct (map fst q)" using keys_eq [OF q(3)] q(3) inv by (simp_all add: srv_inv_def)
  show ?thesis
  proof (cases t')
    case None
    from drop_keeps_inv [OF inv os fd p(2,3) p(4) [unfolded None] kq w1] obtain s1 w2 where
      "sync os p (s\<lparr>ts_outbound := q\<rparr>) w1 = (s1, w2)" "srv_inv cp opened maxfd (drop_connection fd s1) w2" "ts_listen_fd s1 = ts_listen_fd s"
      "tracked (ts_pipeline s1) = tracked ?p - {fd}" by blast
    moreover from this(1) have "ts_pipeline s1 = p" by (auto simp: sync_def split: prod.splits)
    ultimately show ?thesis using sub p(2) q(2) v None by (intro exI [of _ p] exI [of _ q] exI [of _ s1] exI [of _ w2]) simp
  next
    case (Some t1)
    with p(4) have r: "cr_poller (sp_registry p) = cr_poller (sp_registry ?p)" "map fst (cr_connections (sp_registry p)) = map fst (cr_connections (sp_registry ?p))"
      by (simp_all add: reg_after_def)
    have sy: "sync os p (s\<lparr>ts_outbound := q\<rparr>) w1 = (s\<lparr>ts_outbound := q, ts_pipeline := p\<rparr>, w1)" using sync_nothing [of p "s\<lparr>ts_outbound := q\<rparr>"] r(1) by simp
    have tr: "tracked p = tracked ?p" unfolding tracked_def by (metis r(2) list.set_map)
    have "length (cr_connections (sp_registry p)) = length (cr_connections (sp_registry ?p))" using r(2) by (metis length_map)
    with inv tr p(2,3) kq w1 have "srv_inv cp opened maxfd (s\<lparr>ts_outbound := q, ts_pipeline := p\<rparr>) w1" by (auto simp: srv_inv_def)
    with sub sy p(2) q(2) v tr Some show ?thesis
      by (intro exI [of _ p] exI [of _ q] exI [of _ "s\<lparr>ts_outbound := q, ts_pipeline := p\<rparr>"] exI [of _ w1]) simp
  qed
qed

lemma readable_keeps_inv:
  assumes inv: "srv_inv cp opened maxfd s w" and os: "system_ok os opened bl maxfd" and fd: "fd \<in> tracked (ts_pipeline s)"
  shows "\<exists>s' w'. handle_readable os fd s w = Some (s', w') \<and> srv_inv cp opened maxfd s' w' \<and> ts_listen_fd s' = ts_listen_fd s
    \<and> tracked (ts_pipeline s) - {fd} \<subseteq> tracked (ts_pipeline s')"
proof -
  obtain n buffer w1 where rc: "sys_recv os fd kReadBufferSize w = (n, buffer, w1)" by (cases "sys_recv os fd kReadBufferSize w") auto
  have o1: "opened w1 = opened w" using os rc unfolding system_ok_def by (metis snd_conv)
  have td: "\<exists>s' w'. sync os (sp_teardown fd reason (ts_pipeline s)) s w1 = (s', w') \<and> srv_inv cp opened maxfd (drop_connection fd s') w'
      \<and> ts_listen_fd s' = ts_listen_fd s \<and> tracked (ts_pipeline s') = tracked (ts_pipeline s) - {fd}" for reason
    by (rule teardown_keeps_inv [OF inv os fd o1])
  consider "n = 0" | "n < 0" | "n > 0" by linarith
  then show ?thesis
  proof cases
    case 1
    with rc td [of PeerClosed] show ?thesis by (auto simp: handle_readable_def drop_connection_def)
  next
    case 2
    have "srv_inv cp opened maxfd s w1" using inv_outbound [OF inv, of "ts_outbound s" w1] inv o1 by (simp add: srv_inv_def)
    with 2 rc td [of SocketError] show ?thesis by (auto simp: handle_readable_def drop_connection_def)
  next
    case 3
    from inv_rel [OF inv] obtain a where a: "pipe_rel cp (ts_pipeline s) a" "reg_inv (sp_registry (ts_pipeline s))" .
    from fd tracked_tail [OF a(2)] obtain t where t: "tail_of (sp_registry (ts_pipeline s)) fd = Some t" by auto
    obtain es a' t' where rd: "a_read cp (in_cap (ts_pipeline s)) (out_cap (ts_pipeline s)) (t @ take (nat n) buffer) a = (es, a', t')"
      by (cases "a_read cp (in_cap (ts_pipeline s)) (out_cap (ts_pipeline s)) (t @ take (nat n) buffer) a") auto
    from readable_bytes [OF inv os fd a(1) t o1 rd] obtain p q s1 w2 where
      s1: "submit_client_bytes (\<lambda>out_fd frame q. Some (append_queue out_fd frame q)) fd (take (nat n) buffer) (ts_pipeline s) (ts_outbound s)
        = Some (if t' = None then FS_Closed else FS_Ok, p, q)"
        "sync os p (s\<lparr>ts_outbound := q\<rparr>) w1 = (s1, w2)" "ts_pipeline s1 = p" "ts_listen_fd s1 = ts_listen_fd s"
        "if t' = None then srv_inv cp opened maxfd (drop_connection fd s1) w2 \<and> tracked p = tracked (ts_pipeline s) - {fd}
         else srv_inv cp opened maxfd s1 w2 \<and> tracked p = tracked (ts_pipeline s) \<and> ts_outbound s1 = q" by blast
    show ?thesis
    proof (cases "t' = None")
      case True
      with 3 rc s1 show ?thesis by (simp add: handle_readable_def drop_connection_def)
    next
      case False
      with s1(5) have i1: "srv_inv cp opened maxfd s1 w2" "tracked p = tracked (ts_pipeline s)" by auto
      from writable_keeps_inv [OF i1(1) os, of fd] obtain s2 w3 where
        w3: "handle_writable os fd s1 w2 = (s2, w3)" "srv_inv cp opened maxfd s2 w3" "ts_listen_fd s2 = ts_listen_fd s1"
          "tracked (ts_pipeline s1) - {fd} \<subseteq> tracked (ts_pipeline s2)" by blast
      have "handle_readable os fd s w = Some (s1, w2) \<or> handle_readable os fd s w = Some (s2, w3)"
        using 3 rc s1(1,2) False w3(1) by (auto simp: handle_readable_def split: option.splits)
      with i1 w3 s1(3,4) show ?thesis by auto
    qed
  qed
qed

subsection \<open>One iteration\<close>

text \<open>
  A descriptor the loop can watch (any on Windows, one below \<open>FD_SETSIZE\<close> on POSIX), and a descriptor
  limit that makes every descriptor one; on such a descriptor \<open>FD_SET\<close> and \<open>FD_ISSET\<close> are defined, and
  \<open>FD_ISSET\<close> tells whether it is a member.
\<close>

definition settable :: "'w system \<Rightarrow> int \<Rightarrow> bool" where
  "settable os fd \<longleftrightarrow> (platform os = Posix \<longrightarrow> 0 \<le> fd \<and> fd < fd_setsize os)"

definition limit_fits :: "'w system \<Rightarrow> int \<Rightarrow> bool" where
  "limit_fits os maxfd \<longleftrightarrow> (platform os = Posix \<longrightarrow> maxfd \<le> fd_setsize os)
     \<and> (\<forall>fd S. settable os fd \<longrightarrow> (\<exists>S'. sys_FD_SET os fd S = Some S') \<and> sys_FD_ISSET os fd S = Some (fd \<in> set S))"

lemma FD_settable:
  assumes "limit_fits os maxfd" "settable os fd"
  shows "\<exists>S'. sys_FD_SET os fd S = Some S'" "sys_FD_ISSET os fd S = Some (fd \<in> set S)"
  using assms by (simp_all add: limit_fits_def)

lemma watch_all:
  assumes "limit_fits os maxfd" "\<forall>fd\<in>set fds. settable os fd"
  shows "\<exists>S' m'. for_each (watch os) fds (S, m) = Some (S', m')"
  using assms(2)
proof (induction fds arbitrary: S m)
  case (Cons fd fds)
  with FD_settable(1) [OF assms(1), of fd S] show ?case by (auto simp: watch_def)
qed simp

lemma scan_all:
  assumes "limit_fits os maxfd" "\<forall>fd\<in>set fds. settable os fd"
  shows "\<exists>l. for_each (\<lambda>fd scratch. do { writable \<leftarrow> sys_FD_ISSET os fd ws; Some (if writable then scratch @ [fd] else scratch) }) fds scratch = Some l"
  using assms(2) by (induction fds arbitrary: scratch) (auto simp: FD_settable(2) [OF assms(1)])

lemma writes_keep_inv:
  assumes os: "system_ok os opened bl maxfd" and inv: "srv_inv cp opened maxfd s w"
  shows "\<exists>s' w'. for_each (\<lambda>fd (s, w). Some (handle_writable os fd s w)) fds (s, w) = Some (s', w') \<and> srv_inv cp opened maxfd s' w'"
  using inv
proof (induction fds arbitrary: s w)
  case (Cons fd fds)
  from writable_keeps_inv [OF Cons.prems os, of fd] obtain s1 w1 where
    "handle_writable os fd s w = (s1, w1)" "srv_inv cp opened maxfd s1 w1" by blast
  with Cons.IH [of s1 w1] show ?case by simp
qed simp

lemma reads_keep_inv:
  assumes os: "system_ok os opened bl maxfd" and inv: "srv_inv cp opened maxfd s w"
    and fds: "distinct fds" "set fds \<subseteq> tracked (ts_pipeline s)" and fits: "limit_fits os maxfd"
  shows "\<exists>s' w'. for_each (\<lambda>fd (s, w). do { readable \<leftarrow> sys_FD_ISSET os fd rs; if readable then handle_readable os fd s w else Some (s, w) }) fds (s, w)
      = Some (s', w') \<and> srv_inv cp opened maxfd s' w' \<and> ts_listen_fd s' = ts_listen_fd s"
  using inv fds
proof (induction fds arbitrary: s w)
  case (Cons fd fds)
  then have fd: "fd \<in> tracked (ts_pipeline s)" by simp
  then have "settable os fd" using Cons.prems(1) fits by (force simp: srv_inv_def settable_def limit_fits_def)
  then have b: "sys_FD_ISSET os fd rs = Some (fd \<in> set rs)" by (rule FD_settable(2) [OF fits])
  show ?case
  proof (cases "fd \<in> set rs")
    case False
    with b Cons show ?thesis by simp
  next
    case True
    from readable_keeps_inv [OF Cons.prems(1) os fd] obtain s1 w1 where
      s1: "handle_readable os fd s w = Some (s1, w1)" "srv_inv cp opened maxfd s1 w1" "ts_listen_fd s1 = ts_listen_fd s"
        "tracked (ts_pipeline s) - {fd} \<subseteq> tracked (ts_pipeline s1)" by blast
    have "set fds \<subseteq> tracked (ts_pipeline s1)" using Cons.prems(2,3) s1(4) by auto
    from Cons.IH [OF s1(2) _ this] Cons.prems(2) s1(1,3) True b show ?thesis by simp
  qed
qed simp

lemma inv_ranges:
  assumes "srv_inv cp opened maxfd s w" "system_ok os opened bl maxfd" "limit_fits os maxfd"
  shows "settable os (ts_listen_fd s)"
    "\<forall>fd\<in>set (iter_order os (po_monitored (ts_poller s))). settable os fd"
    "\<forall>fd\<in>set (iter_order os (queued s)). settable os fd"
    "distinct (iter_order os (po_monitored (ts_poller s)))"
    "set (iter_order os (po_monitored (ts_poller s))) = tracked (ts_pipeline s)"
proof -
  have it: "set (iter_order os xs) = set xs" "distinct xs \<Longrightarrow> distinct (iter_order os xs)" for xs
    using assms(2) by (auto simp: system_ok_def)
  have r: "settable os fd" if "fd \<in> insert (ts_listen_fd s) (tracked (ts_pipeline s))" for fd
    using that assms(1,3) by (force simp: srv_inv_def settable_def limit_fits_def)
  have "set (queued s) \<subseteq> keys (ts_outbound s)" by (auto simp: queued_def keys_def image_iff)
  then have "set (queued s) \<subseteq> tracked (ts_pipeline s)" using assms(1) by (simp add: srv_inv_def)
  then show "\<forall>fd\<in>set (iter_order os (queued s)). settable os fd" using r it by blast
  show "settable os (ts_listen_fd s)" using r by blast
  show m: "set (iter_order os (po_monitored (ts_poller s))) = tracked (ts_pipeline s)" using assms(1) it by (simp add: srv_inv_def)
  then show "\<forall>fd\<in>set (iter_order os (po_monitored (ts_poller s))). settable os fd" using r by blast
  show "distinct (iter_order os (po_monitored (ts_poller s)))" using assms(1) it by (simp add: srv_inv_def)
qed

lemma run_once_ok:
  assumes inv: "srv_inv cp opened maxfd s w" and os: "system_ok os opened bl maxfd" and fits: "limit_fits os maxfd"
  shows "\<exists>s' w'. run_once os s w = Some (s', w') \<and> srv_inv cp opened maxfd s' w'"
proof -
  note R = inv_ranges [OF _ os fits]
  let ?n = "\<lambda>m. case platform os of Windows \<Rightarrow> 0 | Posix \<Rightarrow> m + 1"
  from FD_settable(1) [OF fits R(1) [OF inv]] obtain rs0 where "sys_FD_SET os (ts_listen_fd s) [] = Some rs0" by blast
  moreover from watch_all [OF fits R(2) [OF inv]] obtain rs m where
    "for_each (watch os) (iter_order os (po_monitored (ts_poller s))) (rs0, ts_listen_fd s) = Some (rs, m)" by blast
  moreover from watch_all [OF fits R(3) [OF inv]] obtain ws m' where
    "for_each (watch os) (iter_order os (queued s)) ([], m) = Some (ws, m')" by blast
  moreover obtain ready rs' ws' w1 where sel: "sys_select os (?n m') rs ws w = (ready, rs', ws', w1)"
    by (cases "sys_select os (?n m') rs ws w") auto
  moreover have "opened w1 = opened w" using os sel unfolding system_ok_def by (metis snd_conv)
  then have i1: "srv_inv cp opened maxfd s w1" using inv by (simp add: srv_inv_def)
  moreover have "sys_FD_ISSET os (ts_listen_fd s) rs' = Some (ts_listen_fd s \<in> set rs')" by (rule FD_settable(2) [OF fits R(1) [OF inv]])
  moreover from drain_accept_ok [OF os i1] i1 obtain s2 w2 where
    s2: "(if ts_listen_fd s \<in> set rs' then drain_accept os s w1 else Some (s, w1)) = Some (s2, w2)" "srv_inv cp opened maxfd s2 w2"
    by (cases "ts_listen_fd s \<in> set rs'") auto
  moreover from reads_keep_inv [OF os s2(2) R(4) [OF s2(2)] _ fits, of rs'] R(5) [OF s2(2)] obtain s3 w3 where
    s3: "for_each (\<lambda>fd (s, w). do { readable \<leftarrow> sys_FD_ISSET os fd rs'; if readable then handle_readable os fd s w else Some (s, w) })
      (iter_order os (po_monitored (ts_poller s2))) (s2, w2) = Some (s3, w3)" "srv_inv cp opened maxfd s3 w3" by auto
  moreover from scan_all [OF fits R(3) [OF s3(2)]] obtain l where
    "for_each (\<lambda>fd scratch. do { writable \<leftarrow> sys_FD_ISSET os fd ws'; Some (if writable then scratch @ [fd] else scratch) }) (iter_order os (queued s3)) []
      = Some l" by blast
  moreover from writes_keep_inv [OF os s3(2)] obtain s4 w4 where
    "for_each (\<lambda>fd (s, w). Some (handle_writable os fd s w)) l (s3, w3) = Some (s4, w4)" "srv_inv cp opened maxfd s4 w4" by blast
  ultimately show ?thesis unfolding run_once_def serve_ready_def by simp
qed

end
