(* ===== verification/Tcp_Server_Properties.thy ===== *)
theory Tcp_Server_Properties
  imports Tcp_Server_Invariant "HOL-Library.Extended_Nat"
begin

text \<open>
  On top of the invariant: the loop ends when a stop signal arrives, start-up is all or nothing,
  nothing queued is lost or reordered, and what the server promises as a whole.
\<close>

subsection \<open>The loop stops\<close>

text \<open>
  \<open>clock\<close> counts the waits left before a stop signal has arrived, infinitely many if none ever will:
  no call prolongs it, every \<open>select\<close> shortens it, and at 0 the signal is there.
\<close>

definition clock_ok :: "'w system \<Rightarrow> ('w \<Rightarrow> enat) \<Rightarrow> bool" where
  "clock_ok os clock \<longleftrightarrow>
     (\<forall>l w. clock (snd (sys_accept os l w)) \<le> clock w)
     \<and> (\<forall>fd w. clock (snd (sys_getfl os fd w)) \<le> clock w)
     \<and> (\<forall>fd f w. clock (snd (sys_setfl_nonblock os fd f w)) \<le> clock w)
     \<and> (\<forall>fd w. clock (snd (sys_ioctl_fionbio os fd w)) \<le> clock w)
     \<and> (\<forall>fd w. clock (sys_close os fd w) \<le> clock w)
     \<and> (\<forall>fd n w. clock (snd (snd (sys_recv os fd n w))) \<le> clock w)
     \<and> (\<forall>fd bs n w. clock (snd (sys_send os fd bs n w)) \<le> clock w)
     \<and> (\<forall>n rs ws w. 0 < clock w \<and> clock w < \<infinity> \<longrightarrow> clock (snd (snd (snd (sys_select os n rs ws w)))) < clock w)
     \<and> (\<forall>w. \<not> fst (sys_signalled os w) \<longrightarrow> 0 < clock w \<and> clock (snd (sys_signalled os w)) \<le> clock w \<and> 0 < clock (snd (sys_signalled os w)))"

text \<open>The calls of the loop, apart from \<open>accept\<close>, \<open>recv\<close> and \<open>select\<close>, do not leave the worlds \<open>I\<close>.\<close>

definition calls_keep :: "'w system \<Rightarrow> 'w set \<Rightarrow> bool" where
  "calls_keep os I \<longleftrightarrow> (\<forall>w\<in>I. \<forall>fd. snd (sys_getfl os fd w) \<in> I \<and> snd (sys_ioctl_fionbio os fd w) \<in> I \<and> sys_close os fd w \<in> I
     \<and> (\<forall>f. snd (sys_setfl_nonblock os fd f w) \<in> I) \<and> (\<forall>bs n. snd (sys_send os fd bs n w) \<in> I))"

definition accept_keeps :: "'w system \<Rightarrow> 'w set \<Rightarrow> bool" where
  "accept_keeps os I \<longleftrightarrow> (\<forall>w\<in>I. \<forall>l. snd (sys_accept os l w) \<in> I)"

definition recv_keeps :: "'w system \<Rightarrow> 'w set \<Rightarrow> int \<Rightarrow> bool" where
  "recv_keeps os I fd \<longleftrightarrow> (\<forall>w\<in>I. \<forall>n. snd (snd (sys_recv os fd n w)) \<in> I)"

lemma keep_nonblocking:
  assumes "calls_keep os I" "w \<in> I" "set_nonblocking os fd w = (ok, w')"
  shows "w' \<in> I"
proof -
  obtain f w1 where 1: "sys_getfl os fd w = (f, w1)" by (cases "sys_getfl os fd w")
  obtain rc w2 where 2: "sys_setfl_nonblock os fd f w1 = (rc, w2)" by (cases "sys_setfl_nonblock os fd f w1")
  obtain rc' w3 where 3: "sys_ioctl_fionbio os fd w = (rc', w3)" by (cases "sys_ioctl_fionbio os fd w")
  have "w1 \<in> I" using assms(1,2) 1 unfolding calls_keep_def by (metis snd_conv)
  moreover from this have "w2 \<in> I" using assms(1) 2 unfolding calls_keep_def by (metis snd_conv)
  moreover have "w3 \<in> I" using assms(1,2) 3 unfolding calls_keep_def by (metis snd_conv)
  moreover have "w' = w1 \<or> w' = w2 \<or> w' = w3" using assms(3) 1 2 3 by (auto simp: set_nonblocking_def split: if_splits Platform.splits)
  ultimately show ?thesis by auto
qed

lemma keep_sync:
  assumes "calls_keep os I" "w \<in> I" "sync os p s w = (s', w')"
  shows "w' \<in> I \<and> ts_stop s' = ts_stop s"
proof -
  have step: "snd (poller_apply os c pw) \<in> I" if "snd pw \<in> I" for c pw
    using assms(1) that by (cases pw) (auto simp: poller_apply_def close_socket_def close_native_def calls_keep_def split: PollerCall.splits)
  have "snd (fold (poller_apply os) cs pw) \<in> I" if "snd pw \<in> I" for cs pw
    using that by (induction cs arbitrary: pw) (simp_all add: step)
  from this [of "(ts_poller s, w)"] assms(2,3) show ?thesis by (auto simp: sync_def split: prod.splits) (metis snd_conv)
qed

lemma keep_send_loop:
  assumes "calls_keep os I" "w \<in> I"
  shows "snd (send_loop os fd queue k w) \<in> I"
  using assms(2)
proof (induction "length queue - k" arbitrary: k w rule: less_induct)
  case less
  obtain n w1 where sd: "sys_send os fd (drop k queue) (to_int (length queue - k)) w = (n, w1)"
    by (cases "sys_send os fd (drop k queue) (to_int (length queue - k)) w")
  have w1: "w1 \<in> I" using assms(1) less.prems sd unfolding calls_keep_def by (metis snd_conv)
  then have "snd (send_loop os fd queue (k + nat n) w1) \<in> I" if "n > 0" "k < length queue"
    using that by (intro less.hyps) simp_all
  with w1 less.prems sd show ?case by (subst send_loop.simps) auto
qed

lemma keep_writable:
  assumes "calls_keep os I" "w \<in> I" "handle_writable os fd s w = (s', w')"
  shows "w' \<in> I \<and> ts_stop s' = ts_stop s"
proof -
  have sl: "w1 \<in> I" if "send_loop os fd queue 0 w = (r, w1)" for queue r w1
    using keep_send_loop [OF assms(1,2), of fd queue 0] that by simp
  show ?thesis using assms(2,3)
    by (auto simp: handle_writable_def drop_connection_def split: option.splits prod.splits if_splits dest!: sl keep_sync [OF assms(1), rotated])
qed

lemma keep_readable:
  assumes "calls_keep os I" "recv_keeps os I fd" "w \<in> I" "handle_readable os fd s w = Some (s', w')"
  shows "w' \<in> I \<and> ts_stop s' = ts_stop s"
proof -
  obtain n buffer w1 where rc: "sys_recv os fd kReadBufferSize w = (n, buffer, w1)" by (cases "sys_recv os fd kReadBufferSize w") auto
  have w1: "w1 \<in> I" using assms(2,3) rc unfolding recv_keeps_def by (metis snd_conv)
  note K = keep_sync [OF assms(1) w1]
  show ?thesis
  proof (cases "n > 0")
    case False
    with w1 assms(4) rc show ?thesis
      by (auto simp: handle_readable_def drop_connection_def split: if_splits prod.splits dest!: K)
  next
    case True
    with assms(4) rc obtain st p q where sub: "submit_client_bytes (\<lambda>out_fd frame q. Some (append_queue out_fd frame q)) fd (take (nat n) buffer)
        (ts_pipeline s) (ts_outbound s) = Some (st, p, q)" by (auto simp: handle_readable_def bind_eq_Some_conv)
    obtain s1 w2 where sy: "sync os p (s\<lparr>ts_outbound := q\<rparr>) w1 = (s1, w2)" by (cases "sync os p (s\<lparr>ts_outbound := q\<rparr>) w1")
    obtain s2 w3 where hw: "handle_writable os fd s1 w2 = (s2, w3)" by (cases "handle_writable os fd s1 w2")
    from K [OF sy] have 2: "w2 \<in> I" "ts_stop s1 = ts_stop s" by simp_all
    have "(s' = s1 \<or> s' = drop_connection fd s1) \<and> w' = w2 \<or> s' = s2 \<and> w' = w3"
      using assms(4) rc sub sy hw True by (auto simp: handle_readable_def split: if_splits option.splits)
    with 2 keep_writable [OF assms(1) 2(1) hw] show ?thesis by (auto simp: drop_connection_def)
  qed
qed

lemma keep_drain_accept:
  assumes "calls_keep os I" "accept_keeps os I" "w \<in> I" "drain_accept os s w = Some (s', w')"
  shows "w' \<in> I \<and> ts_stop s' = ts_stop s"
proof -
  have "os' = os \<longrightarrow> w \<in> I \<longrightarrow> snd r \<in> I \<and> ts_stop (fst r) = ts_stop s" if "drain_accept os' s w = Some r" for os' s w r
  proof (rule drain_accept.raw_induct [where P = "\<lambda>os' s w r. os' = os \<longrightarrow> w \<in> I \<longrightarrow> snd r \<in> I \<and> ts_stop (fst r) = ts_stop s", OF _ that], intro impI)
    fix da os' s w r
    assume IH: "\<And>os' s w r. da os' s w = Some r \<Longrightarrow> os' = os \<longrightarrow> w \<in> I \<longrightarrow> snd r \<in> I \<and> ts_stop (fst r) = ts_stop s"
      and os': "os' = os" and w: "w \<in> I"
      and step: "(case sys_accept os' (ts_listen_fd s) w of (fd, w) \<Rightarrow>
        if invalid_socket os' fd then Some (s, w)
        else case set_nonblocking os' fd w of (ok, w) \<Rightarrow>
          if \<not> ok then da os' s (close_native os' fd w)
          else case sp_accept fd (ts_pipeline s) of (result, p) \<Rightarrow> case sync os' p s w of (s, w) \<Rightarrow>
            if result = Registered
            then da os' (s\<lparr>ts_accepted := ts_accepted s + 1, ts_outbound := emplace_queue fd (ts_outbound s)\<rparr>) w
            else da os' (s\<lparr>ts_rejected := ts_rejected s + 1\<rparr>) w) = Some r"
    obtain fd w1 where acc: "sys_accept os (ts_listen_fd s) w = (fd, w1)" by (cases "sys_accept os (ts_listen_fd s) w")
    obtain ok w2 where nb: "set_nonblocking os fd w1 = (ok, w2)" by (cases "set_nonblocking os fd w1")
    obtain res p where a: "sp_accept fd (ts_pipeline s) = (res, p)" by (cases "sp_accept fd (ts_pipeline s)")
    obtain s1 w3 where sy: "sync os p s w2 = (s1, w3)" by (cases "sync os p s w2")
    have w1: "w1 \<in> I" using assms(2) w acc unfolding accept_keeps_def by (metis snd_conv)
    note w2 = keep_nonblocking [OF assms(1) w1 nb]
    note w3 = keep_sync [OF assms(1) w2 sy]
    have cl: "close_native os fd w2 \<in> I" using assms(1) w2 by (simp add: calls_keep_def close_native_def)
    have "r = (s, w1) \<or> da os s (close_native os fd w2) = Some r \<or> (\<exists>s'. da os s' w3 = Some r \<and> ts_stop s' = ts_stop s1)"
      using step os' acc nb a sy by (auto split: if_splits)
    then show "snd r \<in> I \<and> ts_stop (fst r) = ts_stop s"
      using IH [of os s "close_native os fd w2" r] IH [of os _ w3 r] w1 w3 cl by auto
  qed
  from this [of os s w "(s', w')"] assms(3,4) show ?thesis by simp
qed

lemma keep_for_each:
  assumes "for_each f fds (s, w) = Some (s', w')" "w \<in> I"
    and "\<And>fd s w s' w'. fd \<in> set fds \<Longrightarrow> w \<in> I \<Longrightarrow> f fd (s, w) = Some (s', w') \<Longrightarrow> w' \<in> I \<and> ts_stop s' = ts_stop s"
  shows "w' \<in> I \<and> ts_stop s' = ts_stop s"
  using assms
proof (induction fds arbitrary: s w)
  case (Cons fd fds)
  then obtain s1 w1 where f: "f fd (s, w) = Some (s1, w1)" "for_each f fds (s1, w1) = Some (s', w')" by (auto simp: bind_eq_Some_conv)
  have 1: "w1 \<in> I \<and> ts_stop s1 = ts_stop s" by (rule Cons.prems(3) [OF _ Cons.prems(2) f(1)]) simp
  have "w' \<in> I \<and> ts_stop s' = ts_stop s1" by (rule Cons.IH [OF f(2) conjunct1 [OF 1] Cons.prems(3)]) simp_all
  with 1 show ?case by simp
qed simp

lemma bind_pair_Some: "(m \<bind> (\<lambda>(x, y). f x y)) = Some r \<longleftrightarrow> (\<exists>x y. m = Some (x, y) \<and> f x y = Some r)"
  by (cases m) (auto split: prod.splits)

text \<open>The three phases of an iteration, after \<open>select\<close>.\<close>

lemma serve_ready_phases:
  assumes "serve_ready os rs ws s w = Some (s', w')"
  obtains b s2 w2 s3 w3 l where "(if b then drain_accept os s w else Some (s, w)) = Some (s2, w2)"
    "for_each (\<lambda>fd (s, w). do { readable \<leftarrow> sys_FD_ISSET os fd rs; if readable then handle_readable os fd s w else Some (s, w) })
        (iter_order os (po_monitored (ts_poller s2))) (s2, w2) = Some (s3, w3)"
    "for_each (\<lambda>fd (s, w). Some (handle_writable os fd s w)) l (s3, w3) = Some (s', w')"
  using assms that unfolding serve_ready_def bind_pair_Some by (auto simp only: bind_eq_Some_conv bind_pair_Some)

lemma keep_writes:
  assumes "calls_keep os I" "w \<in> I" "for_each (\<lambda>fd (s, w). Some (handle_writable os fd s w)) l (s, w) = Some (s', w')"
  shows "w' \<in> I \<and> ts_stop s' = ts_stop s"
  by (rule keep_for_each [OF assms(3,2)]) (simp, rule keep_writable [OF assms(1)])

lemma keep_reads:
  assumes "calls_keep os I" "w \<in> I"
    and "\<And>fd. fd \<in> set fds \<Longrightarrow> sys_FD_ISSET os fd rs \<noteq> Some False \<Longrightarrow> recv_keeps os I fd"
    and "for_each (\<lambda>fd (s, w). do { readable \<leftarrow> sys_FD_ISSET os fd rs; if readable then handle_readable os fd s w else Some (s, w) }) fds (s, w)
      = Some (s', w')"
  shows "w' \<in> I \<and> ts_stop s' = ts_stop s"
proof (rule keep_for_each [OF assms(4,2)])
  fix fd s w s' w'
  assume "fd \<in> set fds" "w \<in> I"
    "(case (s, w) of (s, w) \<Rightarrow> do { readable \<leftarrow> sys_FD_ISSET os fd rs; if readable then handle_readable os fd s w else Some (s, w) }) = Some (s', w')"
  then show "w' \<in> I \<and> ts_stop s' = ts_stop s"
    using assms(3) [of fd] keep_readable [OF assms(1), of fd w s s' w'] by (auto simp: bind_eq_Some_conv split: if_splits)
qed

lemma keep_serve_ready:
  assumes "calls_keep os I" "accept_keeps os I" "\<And>fd. recv_keeps os I fd" "w \<in> I" "serve_ready os rs ws s w = Some (s', w')"
  shows "w' \<in> I \<and> ts_stop s' = ts_stop s"
  using assms(5)
proof (cases rule: serve_ready_phases)
  case (1 b s2 w2 s3 w3 l)
  have 2: "w2 \<in> I \<and> ts_stop s2 = ts_stop s" using 1(1) keep_drain_accept [OF assms(1,2,4)] assms(4) by (cases b) auto
  from keep_reads [OF assms(1) conjunct1 [OF 2] assms(3) 1(2)] have 3: "w3 \<in> I \<and> ts_stop s3 = ts_stop s2" .
  from keep_writes [OF assms(1) conjunct1 [OF 3] 1(3)] 2 3 show ?thesis by simp
qed

lemma run_once_select:
  assumes "run_once os s w = Some (s', w')"
  obtains m rs0 ws0 ready rs ws w1 where "sys_select os m rs0 ws0 w = (ready, rs, ws, w1)"
    "s' = s \<and> w' = w1 \<or> serve_ready os rs ws s w1 = Some (s', w')"
proof -
  from assms obtain m rs ws where r: "(case sys_select os m rs ws w of (ready, rs, ws, w1) \<Rightarrow>
      if ready < 0 then Some (s, w1) else if ready = 0 then Some (s, w1) else serve_ready os rs ws s w1) = Some (s', w')"
    unfolding run_once_def bind_pair_Some Let_def by (auto simp only: bind_eq_Some_conv bind_pair_Some)
  obtain ready rs' ws' w1 where sel: "sys_select os m rs ws w = (ready, rs', ws', w1)" by (cases "sys_select os m rs ws w")
  with r have "s' = s \<and> w' = w1 \<or> serve_ready os rs' ws' s w1 = Some (s', w')" by (auto split: if_splits)
  with sel show thesis by (rule that)
qed

lemma clock_keeps:
  assumes "clock_ok os clock"
  shows "calls_keep os {w. clock w \<le> c}" "accept_keeps os {w. clock w \<le> c}" "recv_keeps os {w. clock w \<le> c} fd"
proof -
  have "clock (snd (sys_accept os l w)) \<le> clock w" "clock (snd (sys_getfl os fd w)) \<le> clock w" "clock (snd (sys_setfl_nonblock os fd f w)) \<le> clock w"
    "clock (snd (sys_ioctl_fionbio os fd w)) \<le> clock w" "clock (sys_close os fd w) \<le> clock w" "clock (snd (snd (sys_recv os fd n w))) \<le> clock w"
    "clock (snd (sys_send os fd bs k w)) \<le> clock w" for l fd f n bs k w
    using assms by (simp_all add: clock_ok_def)
  from this [THEN order_trans] show "calls_keep os {w. clock w \<le> c}" "accept_keeps os {w. clock w \<le> c}" "recv_keeps os {w. clock w \<le> c} fd"
    by (simp_all add: calls_keep_def accept_keeps_def recv_keeps_def)
qed

lemma run_once_ticks:
  assumes "clock_ok os clock" "run_once os s w = Some (s', w')" "0 < clock w" "clock w < \<infinity>"
  shows "clock w' < clock w"
  using assms(2)
proof (cases rule: run_once_select)
  case (1 m rs0 ws0 ready rs ws w1)
  have "clock w1 < clock w" using assms(1,3,4) 1(1) unfolding clock_ok_def by (metis snd_conv)
  moreover have "clock w' \<le> clock w1" if "serve_ready os rs ws s w1 = Some (s', w')"
    using keep_serve_ready [OF clock_keeps(1,2) [OF assms(1), of "clock w1"] clock_keeps(3) [OF assms(1)] _ that] by simp
  ultimately show ?thesis using 1(2) by auto
qed

lemma inv_flag: "srv_inv cp opened maxfd s w \<Longrightarrow> srv_inv cp opened maxfd (s\<lparr>ts_stop := b\<rparr>) w"
  by (simp add: srv_inv_def)

lemma take_signal_inv:
  assumes "system_ok os opened bl maxfd" "srv_inv cp opened maxfd s w" "take_signal os s w = (s', w')"
  shows "srv_inv cp opened maxfd s' w'" "srv_inv cp opened maxfd (s'\<lparr>ts_stop := b\<rparr>) w'"
proof -
  have "opened w' = opened w" using assms(1,3) unfolding system_ok_def take_signal_def
    by (metis (no_types, lifting) case_prod_beta snd_conv)
  with assms(2,3) show "srv_inv cp opened maxfd s' w'" "srv_inv cp opened maxfd (s'\<lparr>ts_stop := b\<rparr>) w'"
    by (auto simp: take_signal_def stop_def srv_inv_def split: prod.splits if_splits)
qed

lemma run_loop_ok:
  assumes "system_ok os opened bl maxfd" "limit_fits os maxfd" "clock_ok os clock" "srv_inv cp opened maxfd s w" "clock w < \<infinity>"
  shows "\<exists>s' w'. run_loop os s w = Some (s', w') \<and> srv_inv cp opened maxfd s' w' \<and> ts_stop s'"
  using assms(4,5)
proof (induction "clock w" arbitrary: s w rule: less_induct)
  case less
  obtain s0 w0 where sig: "take_signal os s w = (s0, w0)" by (cases "take_signal os s w")
  note inv = take_signal_inv(1) [OF assms(1) less.prems(1) sig]
  show ?case
  proof (cases "ts_stop s0")
    case True
    then show ?thesis using inv sig by (subst run_loop.simps) auto
  next
    case False
    then have "\<not> fst (sys_signalled os w)" "w0 = snd (sys_signalled os w)"
      using sig by (auto simp: take_signal_def stop_def split: prod.splits if_splits)
    then have c: "0 < clock w0" "clock w0 \<le> clock w" using assms(3) by (auto simp: clock_ok_def)
    then have fin: "clock w0 < \<infinity>" using le_less_trans [OF c(2) less.prems(2)] by simp
    from run_once_ok [OF inv assms(1,2)] obtain s1 w1 where s1: "run_once os s0 w0 = Some (s1, w1)" "srv_inv cp opened maxfd s1 w1" by blast
    have t: "clock w1 < clock w0" by (rule run_once_ticks [OF assms(3) s1(1) c(1) fin])
    from less.hyps [OF less_le_trans [OF t c(2)] s1(2) less_trans [OF t fin]] obtain s' w' where
      "run_loop os s1 w1 = Some (s', w') \<and> srv_inv cp opened maxfd s' w' \<and> ts_stop s'" by blast
    moreover have "run_loop os s w = run_loop os s1 w1" using False s1(1) sig by (subst run_loop.simps) simp
    ultimately show ?thesis by auto
  qed
qed

lemma run_ok:
  assumes "system_ok os opened bl maxfd" "limit_fits os maxfd" "clock_ok os clock" "srv_inv cp opened maxfd s w"
    and "clock (snd (sys_signalled os w)) < \<infinity>"
  shows "\<exists>s' w'. run os s w = Some (s', w') \<and> srv_inv cp opened maxfd s' w' \<and> ts_stop s'"
proof -
  obtain s0 w0 where sig: "take_signal os s w = (s0, w0)" by (cases "take_signal os s w")
  then have "w0 = snd (sys_signalled os w)" by (auto simp: take_signal_def split: prod.splits)
  with run_loop_ok [OF assms(1-3) take_signal_inv(2) [OF assms(1,4) sig], of False] assms(5) sig show ?thesis by (simp add: run_def)
qed

subsection \<open>Starting up\<close>

text \<open>What start-up relies on: \<open>socket\<close> returns an unused descriptor below the limit, the calls on it open or close nothing.\<close>

definition listen_calls_ok :: "'w system \<Rightarrow> ('w \<Rightarrow> int set) \<Rightarrow> int \<Rightarrow> bool" where
  "listen_calls_ok os opened maxfd \<longleftrightarrow>
     (\<forall>w c w'. sys_socket os w = (c, w') \<longrightarrow>
        (if invalid_socket os c then opened w' = opened w else 0 \<le> c \<and> c \<notin> opened w \<and> c < maxfd \<and> opened w' = insert c (opened w)))
     \<and> (\<forall>fd w. opened (sys_setsockopt os fd w) = opened w)
     \<and> (\<forall>fd h p w. opened (snd (sys_bind os fd h p w)) = opened w)
     \<and> (\<forall>fd w. opened (snd (sys_listen os fd w)) = opened w)
     \<and> (\<forall>w. opened (snd (sys_wsastartup os w)) = opened w \<and> opened (sys_wsacleanup os w) = opened w)"

text \<open>
  The waits left until the next stop signal, once the one that may have arrived by now is forgotten;
  \<open>stop_due\<close>: there will be one.  Starting up does not delay it.
\<close>

definition due :: "'w system \<Rightarrow> ('w \<Rightarrow> enat) \<Rightarrow> 'w \<Rightarrow> enat" where
  "due os clock w = clock (snd (sys_signalled os w))"

definition stop_due :: "'w system \<Rightarrow> ('w \<Rightarrow> enat) \<Rightarrow> 'w \<Rightarrow> bool" where
  "stop_due os clock w \<longleftrightarrow> due os clock w < \<infinity>"

definition start_keeps_due :: "'w system \<Rightarrow> ('w \<Rightarrow> enat) \<Rightarrow> bool" where
  "start_keeps_due os clock \<longleftrightarrow> (\<forall>w.
     due os clock (snd (sys_wsastartup os w)) \<le> due os clock w \<and> due os clock (snd (sys_socket os w)) \<le> due os clock w
     \<and> (\<forall>fd. due os clock (sys_setsockopt os fd w) \<le> due os clock w \<and> due os clock (snd (sys_listen os fd w)) \<le> due os clock w
          \<and> due os clock (snd (sys_getfl os fd w)) \<le> due os clock w \<and> due os clock (snd (sys_ioctl_fionbio os fd w)) \<le> due os clock w)
     \<and> (\<forall>fd h p. due os clock (snd (sys_bind os fd h p w)) \<le> due os clock w)
     \<and> (\<forall>fd f. due os clock (snd (sys_setfl_nonblock os fd f w)) \<le> due os clock w))"

lemma nonblocking_due:
  assumes K: "start_keeps_due os clock"
  shows "due os clock (snd (set_nonblocking os fd w)) \<le> due os clock w"
proof -
  obtain f w1 where 1: "sys_getfl os fd w = (f, w1)" by (cases "sys_getfl os fd w")
  obtain rc w2 where 2: "sys_setfl_nonblock os fd f w1 = (rc, w2)" by (cases "sys_setfl_nonblock os fd f w1")
  have "due os clock w1 \<le> due os clock w" using K 1 unfolding start_keeps_due_def by (metis snd_conv)
  moreover have "due os clock w2 \<le> due os clock w1" using K 2 unfolding start_keeps_due_def by (metis snd_conv)
  moreover have "due os clock (snd (sys_ioctl_fionbio os fd w)) \<le> due os clock w" using K by (simp add: start_keeps_due_def)
  ultimately show ?thesis using 1 2 by (auto simp: set_nonblocking_def split: Platform.splits prod.splits)
qed

lemma open_listen_due:
  assumes K: "start_keeps_due os clock" and op: "open_listen_socket os s w = (Inr u, s', w')"
  shows "due os clock w' \<le> due os clock w"
proof -
  obtain fd w0 where so: "sys_socket os w = (fd, w0)" by (cases "sys_socket os w")
  let ?w1 = "sys_setsockopt os fd w0"
  obtain rc w2 where bi: "sys_bind os fd (ts_host s) (ts_port s) ?w1 = (rc, w2)" by (cases "sys_bind os fd (ts_host s) (ts_port s) ?w1")
  obtain rc' w3 where li: "sys_listen os fd w2 = (rc', w3)" by (cases "sys_listen os fd w2")
  have "w' = snd (set_nonblocking os fd w3)"
    using op so bi li by (auto simp: open_listen_socket_def Let_def split: if_splits prod.splits)
  then have "due os clock w' \<le> due os clock w3" using nonblocking_due [OF K] by simp
  also have "\<dots> \<le> due os clock w2" using K li unfolding start_keeps_due_def by (metis snd_conv)
  also have "\<dots> \<le> due os clock ?w1" using K bi unfolding start_keeps_due_def by (metis snd_conv)
  also have "\<dots> \<le> due os clock w0" using K by (simp add: start_keeps_due_def)
  also have "\<dots> \<le> due os clock w" using K so unfolding start_keeps_due_def by (metis snd_conv)
  finally show ?thesis .
qed

text \<open>
  What start-up is to achieve and how it can fail.  Of the world, \<open>so_socket\<close> observes what has been
  done to a socket and \<open>so_faults\<close> the calls that have failed, oldest first.
\<close>

datatype Fault = WinsockFault | SocketFault | BindFault | ListenFault | NonblockingFault

record Socket =
  sk_bound :: "(string \<times> 16 word) option"
  sk_listening :: bool
  sk_nonblocking :: bool

record 'w start_observers =
  so_socket :: "'w \<Rightarrow> int \<Rightarrow> Socket"
  so_faults :: "'w \<Rightarrow> Fault list"

text \<open>A call that reports success has had its effect on the socket; one that reports failure is recorded as a fault.\<close>

definition takes_effect :: "'w start_observers \<Rightarrow> Fault \<Rightarrow> bool \<Rightarrow> int \<Rightarrow> (Socket \<Rightarrow> Socket) \<Rightarrow> 'w \<Rightarrow> 'w \<Rightarrow> bool" where
  "takes_effect so fault ok fd f w w' \<longleftrightarrow>
     (if ok then so_faults so w' = so_faults so w \<and> so_socket so w' fd = f (so_socket so w fd)
      else so_faults so w' = so_faults so w @ [fault])"

definition start_calls_ok :: "'w system \<Rightarrow> 'w start_observers \<Rightarrow> bool" where
  "start_calls_ok os so \<longleftrightarrow>
     (\<forall>w fd w'. sys_socket os w = (fd, w') \<longrightarrow>
        takes_effect so SocketFault (\<not> invalid_socket os fd) fd (\<lambda>_. \<lparr>sk_bound = None, sk_listening = False, sk_nonblocking = False\<rparr>) w w')
     \<and> (\<forall>fd w. takes_effect so SocketFault True fd id w (sys_setsockopt os fd w))
     \<and> (\<forall>fd h p w rc w'. sys_bind os fd h p w = (rc, w') \<longrightarrow> takes_effect so BindFault (rc = 0) fd (sk_bound_update (\<lambda>_. Some (h, p))) w w')
     \<and> (\<forall>fd w rc w'. sys_listen os fd w = (rc, w') \<longrightarrow> takes_effect so ListenFault (rc = 0) fd (sk_listening_update (\<lambda>_. True)) w w')
     \<and> (\<forall>fd w flags w'. sys_getfl os fd w = (flags, w') \<longrightarrow> takes_effect so NonblockingFault (0 \<le> flags) fd id w w')
     \<and> (\<forall>fd flags w rc w'. sys_setfl_nonblock os fd flags w = (rc, w') \<longrightarrow>
          takes_effect so NonblockingFault (rc = 0) fd (sk_nonblocking_update (\<lambda>_. True)) w w')
     \<and> (\<forall>fd w rc w'. sys_ioctl_fionbio os fd w = (rc, w') \<longrightarrow>
          takes_effect so NonblockingFault (rc = 0) fd (sk_nonblocking_update (\<lambda>_. True)) w w')
     \<and> (\<forall>w rc w'. sys_wsastartup os w = (rc, w') \<longrightarrow> so_faults so w' = so_faults so w @ (if rc = 0 then [] else [WinsockFault]))
     \<and> (\<forall>fd w. so_faults so (sys_close os fd w) = so_faults so w \<and> so_faults so (sys_wsacleanup os w) = so_faults so w)"

definition valid_host :: "'w system \<Rightarrow> string \<Rightarrow> bool" where
  "valid_host os host \<longleftrightarrow> host = [] \<or> host = ''0.0.0.0'' \<or> sys_inet_pton os host"

fun fault_message :: "16 word \<Rightarrow> Fault \<Rightarrow> string" where
  "fault_message port WinsockFault = ''WSAStartup failed''"
| "fault_message port SocketFault = ''socket() failed''"
| "fault_message port BindFault = ''bind() failed on port '' @ to_string (unat port)"
| "fault_message port ListenFault = ''listen() failed''"
| "fault_message port NonblockingFault = ''failed to set listen socket non-blocking''"

text \<open>The message names the call that failed, the first and only one, or the address that is none.\<close>

definition reports :: "'w system \<Rightarrow> 'w start_observers \<Rightarrow> string \<Rightarrow> 16 word \<Rightarrow> 'w \<Rightarrow> 'w \<Rightarrow> string \<Rightarrow> bool" where
  "reports os so host port w w' msg \<longleftrightarrow>
     (\<exists>fault. so_faults so w' = so_faults so w @ [fault] \<and> msg = fault_message port fault)
     \<or> so_faults so w' = so_faults so w \<and> \<not> valid_host os host \<and> msg = ''invalid host address: '' @ host"

text \<open>The socket the server needs.\<close>

definition serving :: "'w start_observers \<Rightarrow> string \<Rightarrow> 16 word \<Rightarrow> 'w \<Rightarrow> int \<Rightarrow> bool" where
  "serving so host port w fd \<longleftrightarrow> so_socket so w fd = \<lparr>sk_bound = Some (host, port), sk_listening = True, sk_nonblocking = True\<rparr>"

lemma nonblocking_effect:
  assumes "start_calls_ok os so" "set_nonblocking os fd w = (ok, w')"
  shows "takes_effect so NonblockingFault ok fd (sk_nonblocking_update (\<lambda>_. True)) w w'"
proof -
  note S = assms(1) [unfolded start_calls_ok_def]
  obtain f w1 where 1: "sys_getfl os fd w = (f, w1)" by (cases "sys_getfl os fd w")
  obtain rc w2 where 2: "sys_setfl_nonblock os fd f w1 = (rc, w2)" by (cases "sys_setfl_nonblock os fd f w1")
  obtain rc' w3 where 3: "sys_ioctl_fionbio os fd w = (rc', w3)" by (cases "sys_ioctl_fionbio os fd w")
  from S 1 have "takes_effect so NonblockingFault (0 \<le> f) fd id w w1" by blast
  moreover from S 2 have "takes_effect so NonblockingFault (rc = 0) fd (sk_nonblocking_update (\<lambda>_. True)) w1 w2" by blast
  moreover from S 3 have "takes_effect so NonblockingFault (rc' = 0) fd (sk_nonblocking_update (\<lambda>_. True)) w w3" by blast
  ultimately show ?thesis using assms(2) 1 2 3
    by (auto simp: set_nonblocking_def takes_effect_def split: if_splits Platform.splits)
qed

text \<open>What \<open>open_listen_socket\<close> answers is what happened.\<close>

lemma open_listen_reports:
  assumes so: "start_calls_ok os so" and op: "open_listen_socket os s w = (r, s', w')"
  shows "case r of Inl msg \<Rightarrow> reports os so (ts_host s) (ts_port s) w w' msg
    | Inr u \<Rightarrow> so_faults so w' = so_faults so w \<and> valid_host os (ts_host s) \<and> serving so (ts_host s) (ts_port s) w' (ts_listen_fd s')"
proof -
  note S = so [unfolded start_calls_ok_def]
  obtain fd w0 where so: "sys_socket os w = (fd, w0)" by (cases "sys_socket os w")
  let ?w1 = "sys_setsockopt os fd w0"
  obtain rc w2 where bi: "sys_bind os fd (ts_host s) (ts_port s) ?w1 = (rc, w2)" by (cases "sys_bind os fd (ts_host s) (ts_port s) ?w1")
  obtain rc' w3 where li: "sys_listen os fd w2 = (rc', w3)" by (cases "sys_listen os fd w2")
  obtain ok w4 where nb: "set_nonblocking os fd w3 = (ok, w4)" by (cases "set_nonblocking os fd w3")
  have e0: "takes_effect so SocketFault (\<not> invalid_socket os fd) fd (\<lambda>_. \<lparr>sk_bound = None, sk_listening = False, sk_nonblocking = False\<rparr>) w w0"
    by (rule S [THEN conjunct1, rule_format, OF so])
  from S have e1: "takes_effect so SocketFault True fd id w0 ?w1" by simp
  from S bi have e2: "takes_effect so BindFault (rc = 0) fd (sk_bound_update (\<lambda>_. Some (ts_host s, ts_port s))) ?w1 w2" by simp
  from S li have e3: "takes_effect so ListenFault (rc' = 0) fd (sk_listening_update (\<lambda>_. True)) w2 w3" by simp
  note e4 = nonblocking_effect [OF assms(1) nb]
  have cl: "so_faults so (close_native os fd v) = so_faults so v" for v using S by (simp add: close_native_def)
  consider "invalid_socket os fd" | "\<not> invalid_socket os fd" "\<not> valid_host os (ts_host s)" | "\<not> invalid_socket os fd" "valid_host os (ts_host s)" by blast
  then show ?thesis
  proof cases
    case 1
    with op so e0 show ?thesis by (auto simp: open_listen_socket_def reports_def takes_effect_def intro!: exI [of _ SocketFault])
  next
    case 2
    with op so e0 e1 cl show ?thesis by (auto simp: open_listen_socket_def reports_def takes_effect_def valid_host_def)
  next
    case 3
    then have h: "\<not> (ts_host s \<noteq> [] \<and> ts_host s \<noteq> ''0.0.0.0'' \<and> \<not> sys_inet_pton os (ts_host s))" by (simp add: valid_host_def)
    have f1: "so_faults so ?w1 = so_faults so w" "so_socket so ?w1 fd = \<lparr>sk_bound = None, sk_listening = False, sk_nonblocking = False\<rparr>"
      using e0 e1 3(1) by (simp_all add: takes_effect_def)
    have call: "open_listen_socket os s w = (if rc \<noteq> 0 then (Inl (fault_message (ts_port s) BindFault), s\<lparr>ts_listen_fd := kInvalid\<rparr>, close_native os fd w2)
        else if rc' \<noteq> 0 then (Inl (fault_message (ts_port s) ListenFault), s\<lparr>ts_listen_fd := kInvalid\<rparr>, close_native os fd w3)
        else if \<not> ok then (Inl (fault_message (ts_port s) NonblockingFault), s\<lparr>ts_listen_fd := kInvalid\<rparr>, close_native os fd w4)
        else (Inr (), s\<lparr>ts_listen_fd := fd\<rparr>, w4))"
      using so h bi li nb 3(1) by (simp add: open_listen_socket_def Let_def)
    consider "rc \<noteq> 0" | "rc = 0" "rc' \<noteq> 0" | "rc = 0" "rc' = 0" "\<not> ok" | "rc = 0" "rc' = 0" "ok" by blast
    then show ?thesis
      by cases (use op call e2 e3 e4 f1 cl 3(2) in \<open>auto simp: reports_def takes_effect_def serving_def simp del: fault_message.simps\<close>)
  qed
qed

lemma open_listen_ok:
  assumes os: "system_ok os opened bl maxfd" and lo: "listen_calls_ok os opened maxfd"
    and op: "open_listen_socket os s w = (r, s', w')" and s: "ts_listen_fd s = kInvalid"
  shows "case r of Inl msg \<Rightarrow> opened w' = opened w \<and> s' = s
    | Inr u \<Rightarrow> (\<exists>fd. 0 \<le> fd \<and> fd < maxfd \<and> fd \<notin> opened w \<and> opened w' = insert fd (opened w) \<and> s' = s\<lparr>ts_listen_fd := fd\<rparr>)"
proof -
  obtain fd w0 where so: "sys_socket os w = (fd, w0)" by (cases "sys_socket os w")
  have restore: "s\<lparr>ts_listen_fd := kInvalid\<rparr> = s" using s by (cases s) simp
  show ?thesis
  proof (cases "invalid_socket os fd")
    case True
    then show ?thesis using op so lo by (auto simp: open_listen_socket_def listen_calls_ok_def)
  next
    case False
    let ?w1 = "sys_setsockopt os fd w0"
    have o0: "0 \<le> fd" "fd \<notin> opened w" "fd < maxfd" "opened ?w1 = insert fd (opened w)" using False so lo by (auto simp: listen_calls_ok_def)
    obtain rc w2 where bi: "sys_bind os fd (ts_host s) (ts_port s) ?w1 = (rc, w2)" by (cases "sys_bind os fd (ts_host s) (ts_port s) ?w1")
    obtain rc' w3 where li: "sys_listen os fd w2 = (rc', w3)" by (cases "sys_listen os fd w2")
    obtain ok w4 where nb: "set_nonblocking os fd w3 = (ok, w4)" by (cases "set_nonblocking os fd w3")
    have "opened w2 = opened ?w1" using lo bi unfolding listen_calls_ok_def by (metis snd_conv)
    moreover have "opened w3 = opened w2" using lo li unfolding listen_calls_ok_def by (metis snd_conv)
    moreover note nonblocking_opened(1) [OF os nb]
    ultimately have ws: "opened w2 = insert fd (opened w)" "opened w3 = insert fd (opened w)" "opened w4 = insert fd (opened w)"
      using o0(4) by simp_all
    show ?thesis
      using op so False bi li nb restore ws o0 close_opened [OF os, of fd]
      by (auto simp: open_listen_socket_def close_native_def Let_def split: if_splits intro!: exI [of _ fd])
  qed
qed

lemma server_new_ok:
  assumes os: "system_ok os opened bl maxfd" and lo: "listen_calls_ok os opened maxfd" and w: "opened w = {}"
    and p: "pipe_rel cp p a" "sp_operational p" "cr_connections (sp_registry p) = []" and po: "po_monitored po = []"
    and new: "tcp_server_new os host port p po w = (r, s, w')"
  shows "case r of Inl msg \<Rightarrow> opened w' = {} | Inr u \<Rightarrow> srv_inv cp opened maxfd s w'"
proof -
  let ?s0 = "\<lparr>ts_pipeline = p, ts_poller = po, ts_host = host, ts_port = port, ts_listen_fd = kInvalid, ts_stop = False,
      ts_outbound = [], ts_accepted = 0, ts_rejected = 0, ts_closed = 0\<rparr>"
  from open_listen_ok [OF os lo, of ?s0 w r s w'] new w have "case r of Inl msg \<Rightarrow> opened w' = {} \<and> s = ?s0
    | Inr u \<Rightarrow> (\<exists>fd. 0 \<le> fd \<and> fd < maxfd \<and> opened w' = {fd} \<and> s = ?s0\<lparr>ts_listen_fd := fd\<rparr>)"
    by (auto simp: tcp_server_new_def split: sum.splits)
  moreover have "srv_inv cp opened maxfd (?s0\<lparr>ts_listen_fd := fd\<rparr>) w'" if "0 \<le> fd" "fd < maxfd" "opened w' = {fd}" for fd
    using p po that by (auto simp: srv_inv_def tracked_def keys_def)
  ultimately show ?thesis by (auto split: sum.splits)
qed

subsection \<open>A small operating system, for concrete runs\<close>

record World =
  wo_open :: "int set"
  wo_backlog :: nat
  wo_clock :: nat
  wo_signals :: nat
  wo_sent :: "int \<Rightarrow> u8 list"
  wo_inbox :: "u8 list"
  wo_received :: "int \<Rightarrow> u8 list"
  wo_socket :: "int \<Rightarrow> Socket"
  wo_faults :: "Fault list"

definition demo_os :: "World system" where
  "demo_os = \<lparr>
     platform = Posix,
     sys_socket = (\<lambda>w. if 3 \<in> wo_open w then (- 1, w\<lparr>wo_faults := wo_faults w @ [SocketFault]\<rparr>)
        else (3, w\<lparr>wo_open := insert 3 (wo_open w),
          wo_socket := (wo_socket w)(3 := \<lparr>sk_bound = None, sk_listening = False, sk_nonblocking = False\<rparr>)\<rparr>)),
     sys_setsockopt = (\<lambda>fd w. w),
     sys_inet_pton = (\<lambda>h. True),
     sys_bind = (\<lambda>fd h p w. (0, w\<lparr>wo_socket := (wo_socket w)(fd := (wo_socket w fd)\<lparr>sk_bound := Some (h, p)\<rparr>)\<rparr>)),
     sys_listen = (\<lambda>fd w. (0, w\<lparr>wo_socket := (wo_socket w)(fd := (wo_socket w fd)\<lparr>sk_listening := True\<rparr>)\<rparr>)),
     sys_accept = (\<lambda>l w. if wo_backlog w = 0 \<or> 7 \<in> wo_open w then (- 1, w)
        else (7, w\<lparr>wo_open := insert 7 (wo_open w), wo_backlog := wo_backlog w - 1,
                 wo_sent := (wo_sent w)(7 := []), wo_received := (wo_received w)(7 := [])\<rparr>)),
     sys_getfl = (\<lambda>fd w. (0, w)),
     sys_setfl_nonblock = (\<lambda>fd f w. (0, w\<lparr>wo_socket := (wo_socket w)(fd := (wo_socket w fd)\<lparr>sk_nonblocking := True\<rparr>)\<rparr>)),
     sys_close = (\<lambda>fd w. w\<lparr>wo_open := wo_open w - {fd}\<rparr>),
     sys_recv = (\<lambda>fd n w. (if wo_inbox w = [] then - 1 else int (length (take n (wo_inbox w))), take n (wo_inbox w),
        w\<lparr>wo_inbox := drop n (wo_inbox w), wo_received := (wo_received w)(fd := wo_received w fd @ take n (wo_inbox w))\<rparr>)),
     sys_send = (\<lambda>fd bs len w. (len, w\<lparr>wo_sent := (wo_sent w)(fd := wo_sent w fd @ take (nat len) bs)\<rparr>)),
     sys_select = (\<lambda>n rs ws w. (1, rs, ws, w\<lparr>wo_clock := wo_clock w - 1\<rparr>)),
     sys_errno = (\<lambda>w. 11),
     sys_signalled = (\<lambda>w. if wo_clock w = 0 \<and> wo_signals w \<noteq> 0 then (True, w\<lparr>wo_clock := 3, wo_signals := wo_signals w - 1\<rparr>) else (False, w)),
     sys_ioctl_fionbio = (\<lambda>fd w. (0, w\<lparr>wo_socket := (wo_socket w)(fd := (wo_socket w fd)\<lparr>sk_nonblocking := True\<rparr>)\<rparr>)),
     sys_wsastartup = (\<lambda>w. (0, w)),
     sys_wsacleanup = (\<lambda>w. w),
     err_ewouldblock = 11, err_eagain = 11, err_eintr = 4, err_wsaewouldblock = 10035, fd_setsize = 1024,
     sys_FD_SET = (\<lambda>fd S. if 0 \<le> fd \<and> fd < 1024 then Some (fd # S) else None),
     sys_FD_ISSET = (\<lambda>fd S. if 0 \<le> fd \<and> fd < 1024 then Some (fd \<in> set S) else None),
     iter_order = (\<lambda>xs. xs)\<rparr>"

text \<open>The waits until the next signal, as long as one is still to come.\<close>

definition wo_due :: "World \<Rightarrow> enat" where
  "wo_due w = (if wo_signals w = 0 then \<infinity> else enat (wo_clock w))"

definition demo_world :: World where
  "demo_world = \<lparr>wo_open = {}, wo_backlog = 1, wo_clock = 3, wo_signals = 1, wo_sent = (\<lambda>_. []), wo_inbox = [], wo_received = (\<lambda>_. []),
     wo_socket = (\<lambda>_. \<lparr>sk_bound = None, sk_listening = False, sk_nonblocking = False\<rparr>), wo_faults = []\<rparr>"

lemma demo_os_ok:
  "system_ok demo_os wo_open wo_backlog 1024" "sends_ok demo_os wo_sent" "clock_ok demo_os wo_due" "listen_calls_ok demo_os wo_open 1024"
  "start_keeps_due demo_os wo_due" "limit_fits demo_os 1024"
proof -
  show "system_ok demo_os wo_open wo_backlog 1024" "listen_calls_ok demo_os wo_open 1024"
    by (auto simp: system_ok_def listen_calls_ok_def demo_os_def invalid_socket_def)
  show "sends_ok demo_os wo_sent" "limit_fits demo_os 1024" by (auto simp: sends_ok_def limit_fits_def settable_def demo_os_def)
  show "clock_ok demo_os wo_due" by (auto simp: clock_ok_def demo_os_def wo_due_def zero_enat_def)
  show "start_keeps_due demo_os wo_due" by (auto simp: start_keeps_due_def due_def demo_os_def wo_due_def)
qed

definition demo_sockets :: "World start_observers" where
  "demo_sockets = \<lparr>so_socket = wo_socket, so_faults = wo_faults\<rparr>"

lemma demo_sockets_ok: "start_calls_ok demo_os demo_sockets"
  by (auto simp: start_calls_ok_def takes_effect_def demo_sockets_def demo_os_def invalid_socket_def)

text \<open>A server on that system, listening, with one connection whose queue is \<open>q\<close>.\<close>

definition demo_server :: "int \<Rightarrow> u8 list \<Rightarrow> TcpServer" where
  "demo_server fd q = \<lparr>ts_pipeline = demo_pipeline, ts_poller = \<lparr>po_monitored = [5], po_closed_count = 0\<rparr>, ts_host = [], ts_port = 0,
     ts_listen_fd = fd, ts_stop = False, ts_outbound = [(5, q)], ts_accepted = 1, ts_rejected = 0, ts_closed = 0\<rparr>"

lemma demo_connections: "map fst (cr_connections (sp_registry demo_pipeline)) = [5]"
  by (simp add: demo_pipeline_def sp_accept_sel pipeline_new_def accept_def registry_new_def try_emplace_def poller_call_def)

lemma demo_server_inv:
  assumes "wo_open w = {fd, 5}" "0 \<le> fd" "fd < 1024" "fd \<noteq> 5"
  shows "srv_inv (4, 3) wo_open 1024 (demo_server fd q) w"
proof -
  have "tracked demo_pipeline = {5}" "length (cr_connections (sp_registry demo_pipeline)) = 1"
    using arg_cong [OF demo_connections, of set] arg_cong [OF demo_connections, of length] by (simp_all add: tracked_def)
  with demo_pipeline_rel assms show ?thesis by (auto simp: srv_inv_def demo_server_def keys_def)
qed

subsection \<open>The byte streams\<close>

lemma map_of_set_queue: "map_of (set_queue fd bs q) k = (if k = fd then map_option (\<lambda>_. bs) (map_of q fd) else map_of q k)"
  by (induction q) (auto simp: set_queue_def)

lemma torn_down_untracked: "fd \<notin> tracked (sp_teardown fd reason p)"
  by (auto simp: tracked_def sp_teardown_def teardown_def erase_conn_def map_of_eq_None_iff split: option.splits)

lemma sync_delivered:
  assumes "\<And>fd w. delivered (sys_close os fd w) = delivered w" "sync os p s w = (s', w')"
  shows "delivered w' = delivered w"
proof -
  have "delivered (snd (poller_apply os c pw)) = delivered (snd pw)" for c pw
    using assms(1) by (cases pw) (auto simp: poller_apply_def close_socket_def close_native_def split: PollerCall.splits)
  then have "delivered (snd (fold (poller_apply os) cs pw)) = delivered (snd pw)" for cs pw
    by (induction cs arbitrary: pw) (simp_all del: split_paired_All)
  then show ?thesis using assms(2) by (auto simp: sync_def split: prod.splits) (metis snd_conv)
qed

lemma to_int_long:
  assumes "2 ^ 31 \<le> n" "n < 2 ^ 32"
  shows "to_int n = int n - 2 ^ 32"
proof -
  have "2 ^ 31 \<le> int n" "int n < 2 ^ 32" using assms by (simp_all add: numeral_power_le_of_nat_cancel_iff of_nat_less_numeral_power_cancel_iff)
  then have "signed_take_bit 31 (int n - 2 ^ 32) = int n - 2 ^ 32" by (intro signed_take_bit_int_eq_self) simp_all
  moreover have "take_bit 32 (int n - 2 ^ 32) = take_bit 32 (int n)" by (simp add: take_bit_eq_mod)
  then have "signed_take_bit 31 (int n - 2 ^ 32) = signed_take_bit 31 (int n)"
    using signed_take_bit_eq_iff_take_bit_eq [of 31 "int n - 2 ^ 32" "int n"] by simp
  ultimately show ?thesis by (simp add: to_int_def signed_of_nat)
qed

lemma refused_write:
  assumes "\<And>fd w. delivered (sys_close os fd w) = delivered w" "map_of (ts_outbound s) fd = Some queue" "handle_writable os fd s w = (s', w')"
    and "send_loop os fd queue 0 w = (None, w1)" "queue \<noteq> []"
  shows "delivered w' = delivered w1 \<and> map_of (ts_outbound s') fd = None \<and> ts_pipeline s' = sp_teardown fd SocketError (ts_pipeline s)"
proof -
  obtain s1 w2 where sy: "sync os (sp_teardown fd SocketError (ts_pipeline s)) s w1 = (s1, w2)"
    by (cases "sync os (sp_teardown fd SocketError (ts_pipeline s)) s w1")
  have "delivered w2 = delivered w1" by (rule sync_delivered [OF assms(1) sy])
  moreover have "ts_pipeline s1 = sp_teardown fd SocketError (ts_pipeline s)" using sy by (auto simp: sync_def split: prod.splits)
  moreover have "s' = drop_connection fd s1" "w' = w2" using assms(2-5) sy by (auto simp: handle_writable_def)
  ultimately show ?thesis by (auto simp: drop_connection_def map_of_no_key)
qed

lemma writable_stream:
  assumes ok: "sends_ok os delivered" "\<And>fd w. delivered (sys_close os fd w) = delivered w"
    and q: "map_of (ts_outbound s) fd = Some queue" "length queue < 2 ^ 31"
    and hw: "handle_writable os fd s w = (s', w')"
  shows "\<exists>j\<le>length queue. delivered w' = (delivered w)(fd := delivered w fd @ take j queue)
    \<and> (map_of (ts_outbound s') fd = Some (drop j queue) \<and> ts_pipeline s' = ts_pipeline s
       \<or> map_of (ts_outbound s') fd = None \<and> ts_pipeline s' = sp_teardown fd SocketError (ts_pipeline s))"
proof (cases "queue = []")
  case True
  with q hw show ?thesis by (auto simp: handle_writable_def)
next
  case False
  from send_loop_delivers [OF ok(1) q(2), of 0 fd w] obtain j r w1 where
    sl: "send_loop os fd queue 0 w = (r, w1)" "j \<le> length queue" "r = Some j \<or> r = None"
      "delivered w1 = (delivered w)(fd := delivered w fd @ take j queue)" by auto
  show ?thesis
  proof (cases r)
    case None
    from refused_write [of delivered, OF ok(2) q(1) hw sl(1) [unfolded None] False] sl(2,4) show ?thesis by metis
  next
    case (Some k)
    with sl(3) have "r = Some j" by simp
    with hw q(1) False sl(1) have s': "w' = w1" "s' = (if j > 0 then s\<lparr>ts_outbound := set_queue fd (drop j queue) (ts_outbound s)\<rparr> else s)"
      by (simp_all add: handle_writable_def)
    then have "map_of (ts_outbound s') fd = Some (drop j queue)" "ts_pipeline s' = ts_pipeline s" using q(1) by (auto simp: map_of_set_queue)
    with s'(1) sl(2,4) show ?thesis by blast
  qed
qed

lemma pipe_rel_teardown: "pipe_rel cp p a \<Longrightarrow> pipe_rel cp (sp_teardown fd reason p) a"
  using teardown_inv [of "sp_registry p" fd reason] by (simp add: pipe_rel_def sp_teardown_def)

lemma readable_stream:
  assumes inv: "srv_inv cp opened maxfd s w" and os: "system_ok os opened bl maxfd"
    and ok: "sends_ok os delivered" "\<And>fd w. delivered (sys_close os fd w) = delivered w"
    and rel: "pipe_rel cp (ts_pipeline s) a" and t: "tail_of (sp_registry (ts_pipeline s)) fd = Some t"
    and q: "map_of (ts_outbound s) fd = Some queue" "length (queue @ concat (map frame_of es)) < 2 ^ 31"
    and rc: "sys_recv os fd kReadBufferSize w = (n, buffer, w1)" "0 < n" "delivered w1 = delivered w"
    and rd: "a_read cp (in_cap (ts_pipeline s)) (out_cap (ts_pipeline s)) (t @ take (nat n) buffer) a = (es, a', Some t')"
  shows "\<exists>s' w' j. handle_readable os fd s w = Some (s', w') \<and> pipe_rel cp (ts_pipeline s') a' \<and> j \<le> length (queue @ concat (map frame_of es))
    \<and> delivered w' = (delivered w)(fd := delivered w fd @ take j (queue @ concat (map frame_of es)))
    \<and> (map_of (ts_outbound s') fd = Some (drop j (queue @ concat (map frame_of es))) \<or> map_of (ts_outbound s') fd = None \<and> fd \<notin> tracked (ts_pipeline s'))"
proof -
  let ?all = "queue @ concat (map frame_of es)"
  have "reg_inv (sp_registry (ts_pipeline s))" using rel by (simp add: pipe_rel_def)
  with t have fd: "fd \<in> tracked (ts_pipeline s)" by (simp add: tracked_tail)
  have o1: "opened w1 = opened w" using os rc(1) unfolding system_ok_def by (metis snd_conv)
  from readable_bytes [OF inv os fd rel t o1 rd] obtain p q' s1 w2 where
    s1: "submit_client_bytes (\<lambda>out_fd frame q. Some (append_queue out_fd frame q)) fd (take (nat n) buffer) (ts_pipeline s) (ts_outbound s)
        = Some (FS_Ok, p, q')"
      "sync os p (s\<lparr>ts_outbound := q'\<rparr>) w1 = (s1, w2)" "pipe_rel cp p a'" "ts_pipeline s1 = p"
      "map_of q' = (map_of (ts_outbound s))(fd \<mapsto> the (map_of (ts_outbound s) fd) @ concat (map frame_of es))" "ts_outbound s1 = q'" by auto
  have q1: "map_of (ts_outbound s1) fd = Some ?all" using s1(5,6) q(1) by simp
  have d2: "delivered w2 = delivered w" using sync_delivered [OF ok(2) s1(2)] rc(3) by simp
  obtain s2 w3 where hw: "handle_writable os fd s1 w2 = (s2, w3)" by (cases "handle_writable os fd s1 w2")
  have hr: "handle_readable os fd s w = Some (if ?all \<noteq> [] then (s2, w3) else (s1, w2))"
    using rc s1(1,2) q1 hw by (auto simp: handle_readable_def)
  show ?thesis
  proof (cases "?all = []")
    case True
    with hr d2 q1 s1(3,4) show ?thesis by (intro exI [of _ s1] exI [of _ w2] exI [of _ 0]) auto
  next
    case False
    from writable_stream [OF ok q1 q(2) hw] obtain j where
      j: "j \<le> length ?all" "delivered w3 = (delivered w2)(fd := delivered w2 fd @ take j ?all)"
        "map_of (ts_outbound s2) fd = Some (drop j ?all) \<and> ts_pipeline s2 = ts_pipeline s1
        \<or> map_of (ts_outbound s2) fd = None \<and> ts_pipeline s2 = sp_teardown fd SocketError (ts_pipeline s1)" by blast
    with False hr d2 s1(3,4) pipe_rel_teardown [OF s1(3), of fd SocketError] torn_down_untracked [of fd SocketError p] show ?thesis
      by (intro exI [of _ s2] exI [of _ w3] exI [of _ j]) auto
  qed
qed

subsection \<open>A stop request that comes too early\<close>

text \<open>From the worlds \<open>I\<close> no stop signal arrives any more, whatever the server does; connections may come, send and go.\<close>

definition no_more_signals :: "'w system \<Rightarrow> 'w set \<Rightarrow> bool" where
  "no_more_signals os I \<longleftrightarrow> calls_keep os I \<and> accept_keeps os I \<and> (\<forall>fd. recv_keeps os I fd)
     \<and> (\<forall>w\<in>I. \<forall>n rs ws. snd (snd (snd (sys_select os n rs ws w))) \<in> I)
     \<and> (\<forall>w\<in>I. \<not> fst (sys_signalled os w) \<and> snd (sys_signalled os w) \<in> I)"

text \<open>\<open>k\<close> iterations of \<open>run\<close>, each of which has found the flag clear.\<close>

fun passes :: "'w system \<Rightarrow> nat \<Rightarrow> TcpServer \<Rightarrow> 'w \<Rightarrow> (TcpServer \<times> 'w) option" where
  "passes os 0 s w = Some (s, w)"
| "passes os (Suc k) s w = (case take_signal os s w of (s, w) \<Rightarrow>
     if ts_stop s then None else do { (s, w) \<leftarrow> run_once os s w; passes os k s w })"

lemma unsignalled_pass:
  assumes "srv_inv cp opened maxfd s w" "system_ok os opened bl maxfd" "limit_fits os maxfd" "no_more_signals os I" "w \<in> I"
  shows "\<exists>w1 s2 w2. take_signal os s w = (s, w1) \<and> run_once os s w1 = Some (s2, w2)
    \<and> w2 \<in> I \<and> ts_stop s2 = ts_stop s \<and> srv_inv cp opened maxfd s2 w2"
proof -
  note N = assms(4) [unfolded no_more_signals_def]
  let ?w = "snd (sys_signalled os w)"
  have T: "take_signal os s w = (s, ?w)" "?w \<in> I" using N assms(5) by (auto simp: take_signal_def split: prod.splits)
  from run_once_ok [OF take_signal_inv(1) [OF assms(2,1) T(1)] assms(2,3)] obtain s2 w2 where
    s2: "run_once os s ?w = Some (s2, w2)" "srv_inv cp opened maxfd s2 w2" by blast
  from s2(1) have "w2 \<in> I \<and> ts_stop s2 = ts_stop s"
  proof (cases rule: run_once_select)
    case (1 m rs0 ws0 ready rs ws w1)
    have "w1 \<in> I" using N T(2) 1(1) by (metis snd_conv)
    with 1(2) keep_serve_ready [of os I w1] N show ?thesis by auto
  qed
  with T s2 show ?thesis by blast
qed

lemma passes_unsignalled:
  assumes "srv_inv cp opened maxfd s w" "system_ok os opened bl maxfd" "limit_fits os maxfd" "no_more_signals os I" "w \<in> I" "\<not> ts_stop s"
  shows "\<exists>s' w'. passes os k s w = Some (s', w') \<and> w' \<in> I \<and> \<not> ts_stop s' \<and> srv_inv cp opened maxfd s' w'"
  using assms(1,5,6)
proof (induction k arbitrary: s w)
  case (Suc k)
  from unsignalled_pass [OF Suc.prems(1) assms(2-4) Suc.prems(2)] obtain w1 s2 w2 where
    "take_signal os s w = (s, w1)" "run_once os s w1 = Some (s2, w2)" "w2 \<in> I" "ts_stop s2 = ts_stop s" "srv_inv cp opened maxfd s2 w2" by blast
  with Suc.IH [of s2 w2] Suc.prems(3) show ?case by auto
qed auto

lemma run_loop_unsignalled:
  assumes "srv_inv cp opened maxfd s w" "system_ok os opened bl maxfd" "limit_fits os maxfd" "no_more_signals os I" "w \<in> I" "\<not> ts_stop s"
  shows "run_loop os s w = None"
proof (rule ccontr)
  assume "run_loop os s w \<noteq> None"
  then obtain r where r: "run_loop os s w = Some r" by blast
  have "os' = os \<longrightarrow> srv_inv cp opened maxfd s w \<longrightarrow> w \<in> I \<longrightarrow> ts_stop s" if "run_loop os' s w = Some r" for os' s w
  proof (rule run_loop.raw_induct [where P = "\<lambda>os' s w r. os' = os \<longrightarrow> srv_inv cp opened maxfd s w \<longrightarrow> w \<in> I \<longrightarrow> ts_stop s", OF _ that], intro impI)
    fix rl os' s w r
    assume IH: "\<And>os' s w r. rl os' s w = Some r \<Longrightarrow> os' = os \<longrightarrow> srv_inv cp opened maxfd s w \<longrightarrow> w \<in> I \<longrightarrow> ts_stop s"
      and step: "(case take_signal os' s w of (s, w) \<Rightarrow> if ts_stop s then Some (s, w) else run_once os' s w \<bind> (\<lambda>(x, y). rl os' x y)) = Some r"
      and os': "os' = os" and inv: "srv_inv cp opened maxfd s w" and w: "w \<in> I"
    from unsignalled_pass [OF inv assms(2-4) w] obtain w1 s2 w2 where
      "take_signal os s w = (s, w1)" "run_once os s w1 = Some (s2, w2)" "w2 \<in> I" "ts_stop s2 = ts_stop s" "srv_inv cp opened maxfd s2 w2" by blast
    with IH [of os s2 w2 r] step os' show "ts_stop s" by (auto split: if_splits)
  qed
  with r assms(1,5,6) show False by blast
qed

subsection \<open>What the server promises\<close>



text \<open>
  C22. A stop request that comes before \<open>run\<close> has cleared its flag is lost: whatever the flag was and
  whether or not a signal has already been handled, if no further signal arrives, \<open>run\<close> does not
  return, however many connections come, send and go: any number of iterations completes, none of
  them finds the flag set, and the server's invariant holds after each.
\<close>

theorem early_stop_is_lost:
  assumes "srv_inv cp opened maxfd s w" "system_ok os opened backlog maxfd" "limit_fits os maxfd"
    and "no_more_signals os I" "snd (sys_signalled os w) \<in> I"
  shows "run os s w = None
    \<and> (\<forall>k. \<exists>s' w'. passes os k (s\<lparr>ts_stop := False\<rparr>) (snd (sys_signalled os w)) = Some (s', w') \<and> \<not> ts_stop s' \<and> srv_inv cp opened maxfd s' w')"
proof -
  obtain s0 w0 where sig: "take_signal os s w = (s0, w0)" by (cases "take_signal os s w")
  then have s0: "s0\<lparr>ts_stop := False\<rparr> = s\<lparr>ts_stop := False\<rparr>" "w0 = snd (sys_signalled os w)"
    by (auto simp: take_signal_def stop_def split: prod.splits if_splits)
  have inv: "srv_inv cp opened maxfd (s\<lparr>ts_stop := False\<rparr>) w0" using take_signal_inv(2) [OF assms(2,1) sig, of False] s0(1) by simp
  have "run_loop os (s\<lparr>ts_stop := False\<rparr>) w0 = None"
    using run_loop_unsignalled [OF inv assms(2-4)] assms(5) s0(2) by simp
  moreover have "\<exists>s' w'. passes os k (s\<lparr>ts_stop := False\<rparr>) w0 = Some (s', w') \<and> \<not> ts_stop s' \<and> srv_inv cp opened maxfd s' w'" for k
    using passes_unsignalled [OF inv assms(2-4), of k] assms(5) s0(2) by auto
  ultimately show ?thesis using sig s0 by (simp add: run_def)
qed

theorem early_stop_is_lost_witness:
  "run demo_os (stop (demo_server 3 [])) (demo_world\<lparr>wo_open := {3, 5}, wo_clock := 0\<rparr>) = None"
proof -
  let ?w = "demo_world\<lparr>wo_open := {3, 5}, wo_clock := 0\<rparr>"
  have inv: "srv_inv (4, 3) wo_open 1024 (stop (demo_server 3 [])) ?w"
    unfolding stop_def by (intro inv_flag demo_server_inv) simp_all
  have none: "no_more_signals demo_os {w. wo_signals w = 0}"
    by (auto simp: no_more_signals_def calls_keep_def accept_keeps_def recv_keeps_def demo_os_def)
  have "snd (sys_signalled demo_os ?w) \<in> {w. wo_signals w = 0}" by (simp add: demo_os_def demo_world_def)
  from early_stop_is_lost [OF inv demo_os_ok(1,6) none this] show ?thesis by blast
qed

text \<open>
  C19. A write loses, repeats and reorders nothing, as long as the queue is shorter than \<open>2 ^ 31\<close> bytes:
  the socket receives a prefix of the connection's queue, and the rest stays queued, or the
  connection is torn down and its queue dropped.  The length passed to \<open>send\<close> is an \<open>int\<close>: a queue of
  \<open>2 ^ 31\<close> up to \<open>2 ^ 32\<close> bytes is offered with a negative length, and when \<open>send\<close> refuses it, the
  connection is torn down and the whole queue lost.
\<close>

theorem write_keeps_stream:
  assumes "sends_ok os delivered" "\<And>fd w. delivered (sys_close os fd w) = delivered w"
    and "map_of (ts_outbound s) fd = Some queue" "handle_writable os fd s w = (s', w')"
  shows "(length queue < 2 ^ 31 \<longrightarrow>
      (\<exists>j\<le>length queue. delivered w' = (delivered w)(fd := delivered w fd @ take j queue)
        \<and> (map_of (ts_outbound s') fd = Some (drop j queue) \<and> ts_pipeline s' = ts_pipeline s
           \<or> map_of (ts_outbound s') fd = None \<and> ts_pipeline s' = sp_teardown fd SocketError (ts_pipeline s))))
    \<and> (\<forall>n w1. 2 ^ 31 \<le> length queue \<and> length queue < 2 ^ 32 \<and> sys_send os fd queue (int (length queue) - 2 ^ 32) w = (n, w1)
        \<and> n < 0 \<and> \<not> would_block os (last_socket_error os w1) \<longrightarrow>
        delivered w' = delivered w1 \<and> map_of (ts_outbound s') fd = None \<and> ts_pipeline s' = sp_teardown fd SocketError (ts_pipeline s))"
proof (intro conjI impI allI)
  show "\<exists>j\<le>length queue. delivered w' = (delivered w)(fd := delivered w fd @ take j queue)
        \<and> (map_of (ts_outbound s') fd = Some (drop j queue) \<and> ts_pipeline s' = ts_pipeline s
           \<or> map_of (ts_outbound s') fd = None \<and> ts_pipeline s' = sp_teardown fd SocketError (ts_pipeline s))" if "length queue < 2 ^ 31"
    by (rule writable_stream [OF assms(1-3) that assms(4)])
  fix n w1
  assume long: "2 ^ 31 \<le> length queue \<and> length queue < 2 ^ 32 \<and> sys_send os fd queue (int (length queue) - 2 ^ 32) w = (n, w1)
    \<and> n < 0 \<and> \<not> would_block os (last_socket_error os w1)"
  then have "send_loop os fd queue 0 w = (None, w1)" by (subst send_loop.simps) (auto simp: to_int_long)
  moreover have "queue \<noteq> []" using long by auto
  ultimately show "delivered w' = delivered w1" "map_of (ts_outbound s') fd = None" "ts_pipeline s' = sp_teardown fd SocketError (ts_pipeline s)"
    using refused_write [OF assms(2-4)] by blast+
qed

theorem write_keeps_stream_witness:
  "\<exists>s' w'. handle_writable demo_os 5 (demo_server 3 [1, 2, 3]) demo_world = (s', w')
    \<and> (\<exists>j\<le>length [1, 2, 3 :: u8]. wo_sent w' = (wo_sent demo_world)(5 := wo_sent demo_world 5 @ take j [1, 2, 3])
      \<and> (map_of (ts_outbound s') 5 = Some (drop j [1, 2, 3]) \<and> ts_pipeline s' = demo_pipeline
         \<or> map_of (ts_outbound s') 5 = None \<and> ts_pipeline s' = sp_teardown 5 SocketError demo_pipeline))"
proof -
  let ?s = "demo_server 3 [1, 2, 3]"
  obtain s' w' where hw: "handle_writable demo_os 5 ?s demo_world = (s', w')" by (cases "handle_writable demo_os 5 ?s demo_world")
  have s: "map_of (ts_outbound ?s) 5 = Some [1, 2, 3]" "ts_pipeline ?s = demo_pipeline" by (simp_all add: demo_server_def)
  have "\<And>fd w. wo_sent (sys_close demo_os fd w) = wo_sent w" by (simp add: demo_os_def)
  from write_keeps_stream [OF demo_os_ok(2) this s(1) hw, THEN conjunct1] show ?thesis unfolding s(2) using hw by simp
qed

text \<open>
  A read is served end to end: when \<open>recv\<close> delivers bytes that leave the connection open, the
  engine behind the pipeline moves on as the reference execution of the decoded messages does, and
  the frames of its events go out behind what was queued: together, the bytes handed to the socket and
  those still queued are the earlier stream followed by exactly these frames (or the connection was
  torn down after a send error, its stream cut at a prefix).
\<close>

theorem read_keeps_stream:
  assumes "srv_inv cp opened maxfd s w" "system_ok os opened backlog maxfd" "sends_ok os delivered" "\<And>fd w. delivered (sys_close os fd w) = delivered w"
    and "pipe_rel cp (ts_pipeline s) a" "tail_of (sp_registry (ts_pipeline s)) fd = Some t"
    and "map_of (ts_outbound s) fd = Some queue" "length (queue @ concat (map frame_of es)) < 2 ^ 31"
    and "sys_recv os fd kReadBufferSize w = (n, buffer, w1)" "0 < n" "delivered w1 = delivered w"
    and "a_read cp (in_cap (ts_pipeline s)) (out_cap (ts_pipeline s)) (t @ take (nat n) buffer) a = (es, a', Some t')"
  shows "\<exists>s' w' j. handle_readable os fd s w = Some (s', w') \<and> pipe_rel cp (ts_pipeline s') a' \<and> j \<le> length (queue @ concat (map frame_of es))
    \<and> delivered w' = (delivered w)(fd := delivered w fd @ take j (queue @ concat (map frame_of es)))
    \<and> (map_of (ts_outbound s') fd = Some (drop j (queue @ concat (map frame_of es))) \<or> map_of (ts_outbound s') fd = None \<and> fd \<notin> tracked (ts_pipeline s'))"
  by (rule readable_stream [OF assms])

theorem read_keeps_stream_witness:
  "\<exists>s' w' j. handle_readable demo_os 5 (demo_server 3 [9]) (demo_world\<lparr>wo_open := {3, 5}, wo_inbox := [1, 7, 0, 0, 0, 0, 0, 0, 0]\<rparr>) = Some (s', w')
    \<and> wo_sent w' = (wo_sent demo_world)(5 := take j [9, 4, 7, 0, 0, 0, 0, 0, 0, 0, 2])
    \<and> (map_of (ts_outbound s') 5 = Some (drop j [9, 4, 7, 0, 0, 0, 0, 0, 0, 0, 2]) \<or> map_of (ts_outbound s') 5 = None)"
proof -
  let ?in = "[1, 7, 0, 0, 0, 0, 0, 0, 0] :: u8 list" let ?s = "demo_server 3 [9]"
  let ?w = "demo_world\<lparr>wo_open := {3, 5}, wo_inbox := ?in\<rparr>" let ?a = "\<lparr>ae_book = (\<lambda>_. []), ae_seq = 1, ae_hist = []\<rparr> :: AEngine"
  let ?es = "[BM_Reject \<lparr>rej_order_id = 7, rej_reason = OrderNotFound\<rparr>]"
  have s: "ts_pipeline ?s = demo_pipeline" "map_of (ts_outbound ?s) 5 = Some [9]" by (simp_all add: demo_server_def)
  have inv: "srv_inv (4, 3) wo_open 1024 ?s ?w" by (rule demo_server_inv) simp_all
  have rc: "sys_recv demo_os 5 kReadBufferSize ?w = (9, ?in, ?w\<lparr>wo_inbox := [], wo_received := (wo_received ?w)(5 := wo_received ?w 5 @ ?in)\<rparr>)"
    by (simp add: demo_os_def kReadBufferSize_def del: fun_upd_apply)
  have rd: "a_read (4, 3) (in_cap (ts_pipeline ?s)) (out_cap (ts_pipeline ?s)) ([] @ take (nat 9) ?in) ?a = (?es, ?a, Some [])"
    unfolding s(1) a_read_def demo_pipeline_rel(4,5) using demo_cancel(1,2) by simp
  have "map frame_of ?es = [[4, 7, 0, 0, 0, 0, 0, 0, 0, 2]]" using demo_cancel(3) by simp
  moreover have "wo_sent (sys_close demo_os fd w) = wo_sent w" for fd w by (simp add: demo_os_def)
  ultimately show ?thesis
    using read_keeps_stream [OF inv demo_os_ok(1,2) _ _ _ s(2) _ rc _ _ rd] demo_pipeline_rel(1,3)
    unfolding s(1) by (auto simp: demo_world_def)
qed

text \<open>
  C20. Start-up is all or nothing, and says why: either a call of opening the listening socket has
  failed, the first and only one to fail, or the host is not an address; then the error message
  names that call or that host, and no descriptor stays open.  Or no call has failed; then the
  listening socket is bound to the host and port asked for, listening and non-blocking, and the new
  server satisfies the invariant.
\<close>

theorem server_start_all_or_nothing:
  assumes "system_ok os opened backlog maxfd" "listen_calls_ok os opened maxfd" "start_calls_ok os so" "opened w = {}"
    and "pipe_rel cp p a" "sp_operational p" "cr_connections (sp_registry p) = []" "po_monitored po = []"
    and "tcp_server_new os host port p po w = (r, s, w')"
  shows "case r of Inl msg \<Rightarrow> opened w' = {} \<and> reports os so host port w w' msg
    | Inr u \<Rightarrow> srv_inv cp opened maxfd s w' \<and> so_faults so w' = so_faults so w \<and> valid_host os host \<and> serving so host port w' (ts_listen_fd s)"
  using server_new_ok [OF assms(1,2,4-9)] open_listen_reports [OF assms(3), of _ w r s w'] assms(9)
  by (fastforce simp: tcp_server_new_def split: sum.splits)

theorem server_start_all_or_nothing_witness:
  "case tcp_server_new demo_os ''0.0.0.0'' 9001 (pipeline_new 4 3 8 8 10) \<lparr>po_monitored = [], po_closed_count = 0\<rparr> demo_world of
     (r, s, w') \<Rightarrow> (case r of Inl msg \<Rightarrow> False
       | Inr u \<Rightarrow> srv_inv (4, 3) wo_open 1024 s w' \<and> wo_faults w' = [] \<and> serving demo_sockets ''0.0.0.0'' 9001 w' (ts_listen_fd s))"
proof -
  let ?p = "pipeline_new 4 3 8 8 10" let ?po = "\<lparr>po_monitored = [], po_closed_count = 0\<rparr> :: SelectReadinessPoller"
  obtain r s w' where new: "tcp_server_new demo_os ''0.0.0.0'' 9001 ?p ?po demo_world = (r, s, w')"
    by (cases "tcp_server_new demo_os ''0.0.0.0'' 9001 ?p ?po demo_world")
  have p: "pipe_rel (4, 3) ?p \<lparr>ae_book = (\<lambda>_. []), ae_seq = 1, ae_hist = []\<rparr>"
    using processor_new_rel [of 4 3 8 8] empty_inv registry_new_inv [of 10] by (simp add: pipe_rel_def pipeline_new_def kNullNode_def)
  have "sp_operational ?p" "cr_connections (sp_registry ?p) = []"
    by (simp_all add: pipeline_new_def sp_operational_def registry_new_def processor_new_def)
  note W = server_start_all_or_nothing [OF demo_os_ok(1,4) demo_sockets_ok _ p this _ new]
  have "\<exists>u. r = Inr u"
    using new by (auto simp: tcp_server_new_def open_listen_socket_def demo_os_def demo_world_def invalid_socket_def set_nonblocking_def Let_def)
  with W new show ?thesis by (auto simp: demo_world_def demo_sockets_def)
qed

end
