(* ===== verification/Pipeline_Trace.thy ===== *)
theory Pipeline_Trace
  imports Server_Pipeline Trace_Refinement
begin

text \<open>
  The in-process server as a whole, under any interleaving of connections: the events are those the
  network layer can cause on a \<open>ServerPipeline\<close> (a new connection, a read, a teardown), the
  specification is a server that keeps the unfinished bytes of each connection, one reference engine
  and the counters.
\<close>

datatype PipeEvent = Arrive SocketHandle | Leave SocketHandle TeardownReason | Bytes SocketHandle "u8 list"

datatype Reply = Admitted SocketHandle bool | Frame SocketHandle "u8 list" | Status SocketHandle FrameStatus

text \<open>The pipeline, one event at a time, with everything its caller can observe.\<close>

definition sp_step :: "PipeEvent \<Rightarrow> ServerPipeline \<Rightarrow> (Reply list \<times> ServerPipeline) option" where
  "sp_step ev p =
     (case ev of
        Arrive fd \<Rightarrow> (case sp_accept fd p of (result, p) \<Rightarrow> Some ([Admitted fd (result = Registered)], p))
      | Leave fd reason \<Rightarrow> Some ([], sp_teardown fd reason p)
      | Bytes fd bytes \<Rightarrow> do {
          (status, p, sent) \<leftarrow> submit_client_bytes keep fd bytes p [];
          Some (map (\<lambda>(to, frame). Frame to frame) sent @ [Status fd status], p)
        })"

subsection \<open>The specification\<close>

record AServer =
  as_engine :: AEngine
  as_tails :: "SocketHandle \<rightharpoonup> u8 list"
  as_counts :: Counts

text \<open>The sizes of a server: orders and levels, ingress and egress ring, connections.\<close>

record Sizes =
  sz_book :: "nat \<times> nat"
  sz_in :: nat
  sz_out :: nat
  sz_conns :: u32

definition a_messages :: "u8 list \<Rightarrow> BinaryMessage list" where
  "a_messages stream = fst (wire_split stream)"

definition as_step :: "Sizes \<Rightarrow> PipeEvent \<Rightarrow> AServer \<Rightarrow> Reply list \<times> AServer" where
  "as_step z ev S =
     (case ev of
        Arrive fd \<Rightarrow>
          if card (dom (as_tails S)) \<ge> unat (sz_conns z) then ([Admitted fd False], S)
          else ([Admitted fd True], S\<lparr>as_tails := (as_tails S)(fd \<mapsto> [])\<rparr>)
      | Leave fd reason \<Rightarrow> ([], S\<lparr>as_tails := (as_tails S)(fd := None)\<rparr>)
      | Bytes fd bytes \<Rightarrow>
          (case as_tails S fd of
             None \<Rightarrow> ([Status fd FS_Closed], S)
           | Some t \<Rightarrow>
               (case a_read (sz_book z) (sz_in z) (sz_out z) (t @ bytes) (as_engine S) of (es, a', t') \<Rightarrow>
                  (map (\<lambda>e. Frame fd (frame_of e)) es @ [Status fd (if t' = None then FS_Closed else FS_Ok)],
                   \<lparr>as_engine = a', as_tails = (as_tails S)(fd := t'),
                    as_counts = count_read (sz_in z) (sz_out z) (a_messages (t @ bytes))
                      (fst (a_run (sz_book z) (take (sz_in z) (a_messages (t @ bytes))) (as_engine S))) (as_counts S)\<rparr>))))"

text \<open>The operating system hands out a descriptor only while it is not open.\<close>

fun may_occur :: "PipeEvent \<Rightarrow> AServer \<Rightarrow> bool" where
  "may_occur (Arrive fd) S \<longleftrightarrow> as_tails S fd = None"
| "may_occur _ S \<longleftrightarrow> True"

definition server_rel :: "Sizes \<Rightarrow> ServerPipeline \<Rightarrow> AServer \<Rightarrow> bool" where
  "server_rel z p S \<longleftrightarrow> pipe_rel (sz_book z) p (as_engine S) \<and> sp_operational p
     \<and> tail_of (sp_registry p) = as_tails S \<and> counts p = as_counts S
     \<and> in_cap p = sz_in z \<and> out_cap p = sz_out z \<and> cr_max_connections (sp_registry p) = sz_conns z"

subsection \<open>One event\<close>

lemma connections_card:
  assumes "reg_inv r"
  shows "card (dom (tail_of r)) = length (cr_connections r)"
proof -
  have "dom (tail_of r) = set (map fst (cr_connections r))"
    using tracked_iff [OF assms] by (auto simp: is_registered_def map_of_no_key)
  moreover have "distinct (map fst (cr_connections r))" using assms by (simp add: reg_inv_def)
  ultimately show ?thesis by (metis distinct_card length_map)
qed

lemma accept_tail:
  assumes "reg_inv r" "tail_of r fd = None"
  shows "tail_of (snd (accept fd r)) = (if card (dom (tail_of r)) \<ge> unat (cr_max_connections r) then tail_of r else (tail_of r)(fd \<mapsto> []))"
    "fst (accept fd r) = Registered \<longleftrightarrow> card (dom (tail_of r)) < unat (cr_max_connections r)"
proof -
  have "map_of (cr_connections r) fd = None" using tracked_iff [OF assms(1), of fd] assms(2) by (simp add: is_registered_def)
  then show "tail_of (snd (accept fd r)) = (if card (dom (tail_of r)) \<ge> unat (cr_max_connections r) then tail_of r else (tail_of r)(fd \<mapsto> []))"
    unfolding connections_card [OF assms(1)]
    by (auto simp: accept_def tail_of_def poller_call_def try_emplace_def fun_eq_iff fb_new_inv)
  show "fst (accept fd r) = Registered \<longleftrightarrow> card (dom (tail_of r)) < unat (cr_max_connections r)"
    unfolding connections_card [OF assms(1)] by (simp add: accept_def)
qed

lemma counts_registry [simp]: "counts (p\<lparr>sp_registry := r\<rparr>) = counts p"
  by (simp add: counts_def ingress_backpressure_count_def responses_emitted_def)

lemma caps_registry [simp]: "in_cap (p\<lparr>sp_registry := r\<rparr>) = in_cap p" "out_cap (p\<lparr>sp_registry := r\<rparr>) = out_cap p"
  "sp_operational (p\<lparr>sp_registry := r\<rparr>) = sp_operational p"
  by (simp_all add: in_cap_def out_cap_def sp_operational_def)

lemma arrive_ok:
  assumes "server_rel z p S" "as_tails S fd = None"
  shows "\<exists>p'. sp_step (Arrive fd) p = Some (fst (as_step z (Arrive fd) S), p') \<and> server_rel z p' (snd (as_step z (Arrive fd) S))"
proof -
  let ?r = "sp_registry p"
  from assms have r: "reg_inv ?r" "tail_of ?r fd = None" "tail_of ?r = as_tails S" "cr_max_connections ?r = sz_conns z"
    by (auto simp: server_rel_def pipe_rel_def)
  note T = accept_tail [OF r(1,2), unfolded r(3,4)]
  have p: "sp_step (Arrive fd) p = Some ([Admitted fd (fst (accept fd ?r) = Registered)], p\<lparr>sp_registry := snd (accept fd ?r)\<rparr>)"
    by (simp add: sp_step_def sp_accept_def split: prod.splits)
  have "reg_inv (snd (accept fd ?r))" using accept_inv [OF r(1)] r(2) tracked_iff [OF r(1)] by blast
  then have "server_rel z (p\<lparr>sp_registry := snd (accept fd ?r)\<rparr>) (snd (as_step z (Arrive fd) S))"
    using assms(1) T(1) by (auto simp: server_rel_def pipe_rel_def as_step_def)
  with p T(2) show ?thesis by (auto simp: as_step_def not_le)
qed

lemma leave_ok:
  assumes "server_rel z p S"
  shows "\<exists>p'. sp_step (Leave fd reason) p = Some (fst (as_step z (Leave fd reason) S), p') \<and> server_rel z p' (snd (as_step z (Leave fd reason) S))"
  using assms teardown_inv [of "sp_registry p" fd reason]
  by (auto simp: sp_step_def as_step_def server_rel_def pipe_rel_def sp_teardown_def teardown_tail)

text \<open>A read on an open connection, for every sink.\<close>

lemma bytes_known:
  assumes rel: "server_rel z p S" and t: "as_tails S fd = Some t"
    and rd: "a_read (sz_book z) (sz_in z) (sz_out z) (t @ bytes) (as_engine S) = (es, a', t')"
  shows "\<exists>p'. (\<forall>st. submit_client_bytes out fd bytes p st
        = map_option (\<lambda>st'. (if t' = None then FS_Closed else FS_Ok, p', st')) (for_each (\<lambda>e. out fd (frame_of e)) es st))
    \<and> server_rel z p' (snd (as_step z (Bytes fd bytes) S)) \<and> reg_after fd t' (sp_registry p) (sp_registry p')"
proof -
  from rel have r: "pipe_rel (sz_book z) p (as_engine S)" "sp_operational p" "tail_of (sp_registry p) = as_tails S" "counts p = as_counts S"
    "in_cap p = sz_in z" "out_cap p = sz_out z" "cr_max_connections (sp_registry p) = sz_conns z" by (auto simp: server_rel_def)
  have t': "tail_of (sp_registry p) fd = Some t" using t r(3) by simp
  from read_ok [OF r(1,2) t' rd [folded r(5,6)], of out] obtain p' where
    p': "\<forall>st. submit_client_bytes out fd bytes p st
        = map_option (\<lambda>st'. (if t' = None then FS_Closed else FS_Ok, p', st')) (for_each (\<lambda>e. out fd (frame_of e)) es st)"
      "pipe_rel (sz_book z) p' a'" "sp_operational p'" "tail_of (sp_registry p') = (as_tails S)(fd := t')" "in_cap p' = sz_in z" "out_cap p' = sz_out z"
      "reg_after fd t' (sp_registry p) (sp_registry p')"
      "counts p' = count_read (sz_in z) (sz_out z) (a_messages (t @ bytes))
        (fst (a_run (sz_book z) (take (sz_in z) (a_messages (t @ bytes))) (as_engine S))) (as_counts S)"
    using r by (auto simp: a_messages_def)
  moreover have "cr_max_connections (sp_registry p') = sz_conns z" using p'(7) r(7) by (simp add: reg_after_def)
  ultimately have "server_rel z p' (snd (as_step z (Bytes fd bytes) S))" using t rd by (simp add: as_step_def server_rel_def)
  with p'(1,7) show ?thesis by blast
qed

lemma bytes_ok:
  assumes "server_rel z p S"
  shows "\<exists>p'. sp_step (Bytes fd bytes) p = Some (fst (as_step z (Bytes fd bytes) S), p') \<and> server_rel z p' (snd (as_step z (Bytes fd bytes) S))"
proof (cases "as_tails S fd")
  case None
  from assms have r: "pipe_rel (sz_book z) p (as_engine S)" "sp_operational p" "tail_of (sp_registry p) = as_tails S" "counts p = as_counts S"
    "in_cap p = sz_in z" "out_cap p = sz_out z" "cr_max_connections (sp_registry p) = sz_conns z" by (auto simp: server_rel_def)
  from None r(3) have "tail_of (sp_registry p) fd = None" by simp
  from read_unknown [OF r(1,2) this, of keep bytes] obtain p' where
    p': "submit_client_bytes keep fd bytes p [] = Some (FS_Closed, p', [])" "pipe_rel (sz_book z) p' (as_engine S)" "sp_operational p'"
      "sp_registry p' = sp_registry p" "in_cap p' = in_cap p" "out_cap p' = out_cap p" "counts p' = counts p" by auto
  with None r show ?thesis by (auto simp: sp_step_def as_step_def server_rel_def)
next
  case (Some t)
  obtain es a' t' where rd: "a_read (sz_book z) (sz_in z) (sz_out z) (t @ bytes) (as_engine S) = (es, a', t')"
    by (cases "a_read (sz_book z) (sz_in z) (sz_out z) (t @ bytes) (as_engine S)") auto
  from bytes_known [OF assms Some rd, of keep] obtain p' where
    p': "submit_client_bytes keep fd bytes p [] = Some (if t' = None then FS_Closed else FS_Ok, p', map (\<lambda>e. (fd, frame_of e)) es)"
      "server_rel z p' (snd (as_step z (Bytes fd bytes) S))" by (auto simp: for_each_keep)
  from p'(1) Some rd have "sp_step (Bytes fd bytes) p = Some (fst (as_step z (Bytes fd bytes) S), p')"
    by (simp add: sp_step_def as_step_def comp_def)
  with p'(2) show ?thesis by blast
qed

interpretation pipe: forward_simulation "server_rel z" sp_step may_occur "as_step z" for z
proof
  fix p S e
  assume "server_rel z p S" "may_occur e S"
  then show "\<exists>p'. sp_step e p = Some (fst (as_step z e S), p') \<and> server_rel z p' (snd (as_step z e S))"
    by (cases e) (auto intro: arrive_ok leave_ok bytes_ok)
qed

subsection \<open>Starting\<close>

definition a_start :: AEngine where
  "a_start = \<lparr>ae_book = (\<lambda>_. []), ae_seq = 1, ae_hist = []\<rparr>"

definition server_start :: AServer where
  "server_start = \<lparr>as_engine = a_start, as_tails = Map.empty,
     as_counts = \<lparr>ct_processed = 0, ct_errors = 0, ct_overflowed = 0, ct_refused = 0, ct_emitted = 0\<rparr>\<rparr>"

definition sizes_of :: "nat \<Rightarrow> nat \<Rightarrow> nat \<Rightarrow> nat \<Rightarrow> u32 \<Rightarrow> Sizes" where
  "sizes_of n m i g k = \<lparr>sz_book = (n, m), sz_in = i, sz_out = g, sz_conns = k\<rparr>"

lemma server_start_rel:
  assumes "0 < n" "n \<le> kNullNode" "0 < m" "m \<le> kNullNode" "0 < i" "0 < g"
  shows "server_rel (sizes_of n m i g k) (pipeline_new n m i g k) server_start"
proof -
  have "pipe_rel (n, m) (pipeline_new n m i g k) a_start"
    using processor_new_rel [OF assms] empty_inv registry_new_inv [of k] by (simp add: pipe_rel_def pipeline_new_def a_start_def)
  then show ?thesis
    by (simp add: server_rel_def sizes_of_def server_start_def pipeline_new_def processor_new_def registry_new_def
        sp_operational_def counts_def processed_count_def error_event_count_def egress_overflow_count_def
        ingress_backpressure_count_def responses_emitted_def in_cap_def out_cap_def ingress_cap_def egress_cap_def
        rb_new_def rb_capacity_def tail_of_def fun_eq_iff)
qed

subsection \<open>Demultiplexing and answering\<close>

text \<open>
  The framing alone: the reads of a trace, each with its connection and the messages it completes,
  and the unfinished bytes left.  And the engine alone: running it over the reads, with the first
  \<open>sz_in\<close> messages of a read processed and the first \<open>sz_out\<close> of their events encoded and addressed
  to the connection they came from.
\<close>

type_synonym Reads = "(SocketHandle \<times> BinaryMessage list) list"

definition demux_step :: "u32 \<Rightarrow> PipeEvent \<Rightarrow> (SocketHandle \<rightharpoonup> u8 list) \<Rightarrow> Reads \<times> (SocketHandle \<rightharpoonup> u8 list)" where
  "demux_step k ev T =
     (case ev of
        Arrive fd \<Rightarrow> ([], if card (dom T) \<ge> unat k then T else T(fd \<mapsto> []))
      | Leave fd reason \<Rightarrow> ([], T(fd := None))
      | Bytes fd bytes \<Rightarrow> (case T fd of None \<Rightarrow> ([], T)
          | Some t \<Rightarrow> ([(fd, a_messages (t @ bytes))], T(fd := snd (wire_split (t @ bytes))))))"

fun answer_reads :: "Sizes \<Rightarrow> Reads \<Rightarrow> AEngine \<Rightarrow> (SocketHandle \<times> u8 list) list \<times> AEngine" where
  "answer_reads z [] a = ([], a)"
| "answer_reads z ((fd, ms) # rs) a = (case a_run (sz_book z) (take (sz_in z) ms) a of (es, a') \<Rightarrow>
     (map (\<lambda>e. (fd, frame_of e)) (take (sz_out z) es) @ fst (answer_reads z rs a'), snd (answer_reads z rs a')))"

text \<open>The engine over one sequence of messages, each with its sender, without any bound.\<close>

fun answers :: "nat \<times> nat \<Rightarrow> (SocketHandle \<times> BinaryMessage) list \<Rightarrow> AEngine \<Rightarrow> (SocketHandle \<times> u8 list) list \<times> AEngine" where
  "answers cp [] a = ([], a)"
| "answers cp ((fd, m) # ms) a =
     (map (\<lambda>e. (fd, frame_of e)) (fst (a_dispatch cp m a)) @ fst (answers cp ms (snd (a_dispatch cp m a))),
      snd (answers cp ms (snd (a_dispatch cp m a))))"

definition messages_of :: "Reads \<Rightarrow> (SocketHandle \<times> BinaryMessage) list" where
  "messages_of rs = concat (map (\<lambda>(fd, ms). map (Pair fd) ms) rs)"

text \<open>No read overflows a ring.\<close>

fun reads_fit :: "Sizes \<Rightarrow> Reads \<Rightarrow> AEngine \<Rightarrow> bool" where
  "reads_fit z [] a \<longleftrightarrow> True"
| "reads_fit z ((fd, ms) # rs) a \<longleftrightarrow> length ms \<le> sz_in z \<and> length (fst (a_run (sz_book z) ms a)) \<le> sz_out z
     \<and> reads_fit z rs (snd (a_run (sz_book z) ms a))"

definition frames :: "Reply list \<Rightarrow> (SocketHandle \<times> u8 list) list" where
  "frames rs = concat (map (\<lambda>r. case r of Frame fd f \<Rightarrow> [(fd, f)] | _ \<Rightarrow> []) rs)"

lemma frames_simps [simp]:
  "frames [] = []" "frames (rs @ rs') = frames rs @ frames rs'"
  "frames (Admitted fd b # rs) = frames rs" "frames (Status fd s # rs) = frames rs"
  "frames (map (\<lambda>e. Frame fd (f e)) es) = map (\<lambda>e. (fd, f e)) es"
  by (simp_all add: frames_def comp_def)

lemma answers_append:
  "answers cp (xs @ ys) a = (fst (answers cp xs a) @ fst (answers cp ys (snd (answers cp xs a))), snd (answers cp ys (snd (answers cp xs a))))"
  by (induction cp xs a rule: answers.induct) simp_all

lemma answers_one_sender:
  "answers cp (map (Pair fd) ms) a = (map (\<lambda>e. (fd, frame_of e)) (fst (a_run cp ms a)), snd (a_run cp ms a))"
  by (induction ms arbitrary: a) (simp_all split: prod.splits)

lemma answer_reads_append:
  "answer_reads z (xs @ ys) a = (fst (answer_reads z xs a) @ fst (answer_reads z ys (snd (answer_reads z xs a))),
     snd (answer_reads z ys (snd (answer_reads z xs a))))"
  by (induction z xs a rule: answer_reads.induct) (simp_all split: prod.splits)

lemma answer_reads_fitting:
  "reads_fit z rs a \<Longrightarrow> answer_reads z rs a = answers (sz_book z) (messages_of rs) a"
  by (induction z rs a rule: answer_reads.induct)
    (auto simp: messages_of_def answers_append answers_one_sender split: prod.splits)

lemma step_demuxed:
  "frames (fst (as_step z e S)) = fst (answer_reads z (fst (demux_step (sz_conns z) e (as_tails S))) (as_engine S))
    \<and> as_engine (snd (as_step z e S)) = snd (answer_reads z (fst (demux_step (sz_conns z) e (as_tails S))) (as_engine S))
    \<and> as_tails (snd (as_step z e S)) = snd (demux_step (sz_conns z) e (as_tails S))"
proof (cases e)
  case (Bytes fd bytes)
  show ?thesis
  proof (cases "as_tails S fd")
    case (Some t)
    obtain ms t' where w: "wire_split (t @ bytes) = (ms, t')" by (cases "wire_split (t @ bytes)")
    obtain fs a' where r: "a_run (sz_book z) (take (sz_in z) ms) (as_engine S) = (fs, a')" by (cases "a_run (sz_book z) (take (sz_in z) ms) (as_engine S)")
    with Bytes Some w show ?thesis by (simp add: as_step_def demux_step_def a_messages_def a_read_def)
  qed (simp add: Bytes as_step_def demux_step_def)
qed (auto simp: as_step_def demux_step_def)

lemma trace_demuxed:
  "frames (fst (spec_trace (as_step z) evs S)) = fst (answer_reads z (fst (spec_trace (demux_step (sz_conns z)) evs (as_tails S))) (as_engine S))
    \<and> as_engine (snd (spec_trace (as_step z) evs S)) = snd (answer_reads z (fst (spec_trace (demux_step (sz_conns z)) evs (as_tails S))) (as_engine S))
    \<and> as_tails (snd (spec_trace (as_step z) evs S)) = snd (spec_trace (demux_step (sz_conns z)) evs (as_tails S))"
proof (induction evs arbitrary: S)
  case (Cons e evs)
  show ?case using step_demuxed [of z e S] Cons.IH [of "snd (as_step z e S)"] by (simp add: answer_reads_append)
qed simp

subsection \<open>Each connection's messages are those of its own bytes\<close>

fun own_bytes :: "SocketHandle \<Rightarrow> PipeEvent list \<Rightarrow> u8 list" where
  "own_bytes fd [] = []"
| "own_bytes fd (Bytes k bs # evs) = (if k = fd then bs @ own_bytes fd evs else own_bytes fd evs)"
| "own_bytes fd (_ # evs) = own_bytes fd evs"

fun stays :: "SocketHandle \<Rightarrow> PipeEvent \<Rightarrow> bool" where
  "stays fd (Arrive k) \<longleftrightarrow> k \<noteq> fd"
| "stays fd (Leave k reason) \<longleftrightarrow> k \<noteq> fd"
| "stays fd (Bytes k bs) \<longleftrightarrow> True"

definition sent_by :: "SocketHandle \<Rightarrow> Reads \<Rightarrow> BinaryMessage list" where
  "sent_by fd rs = concat (map snd (filter (\<lambda>r. fst r = fd) rs))"

lemma sent_by_simps [simp]:
  "sent_by fd [] = []" "sent_by fd (xs @ ys) = sent_by fd xs @ sent_by fd ys" "sent_by fd ((k, ms) # rs) = (if k = fd then ms @ sent_by fd rs else sent_by fd rs)"
  by (simp_all add: sent_by_def)

lemma demux_closed:
  assumes "T fd = None" "\<forall>e\<in>set evs. stays fd e"
  shows "sent_by fd (fst (spec_trace (demux_step k) evs T)) = [] \<and> snd (spec_trace (demux_step k) evs T) fd = None"
  using assms
proof (induction evs arbitrary: T)
  case (Cons e evs)
  have "sent_by fd (fst (demux_step k e T)) = [] \<and> snd (demux_step k e T) fd = None"
    using Cons.prems by (cases e) (auto simp: demux_step_def split: option.splits)
  with Cons.IH [of "snd (demux_step k e T)"] Cons.prems(2) show ?case by simp
qed simp

lemma demux_own_bytes:
  assumes "T fd = Some t" "wire_split t = ([], Some t)" "\<forall>e\<in>set evs. stays fd e"
  shows "sent_by fd (fst (spec_trace (demux_step k) evs T)) = a_messages (t @ own_bytes fd evs)
    \<and> snd (spec_trace (demux_step k) evs T) fd = snd (wire_split (t @ own_bytes fd evs))"
  using assms
proof (induction evs arbitrary: T t)
  case (Cons e evs)
  show ?case
  proof (cases "\<exists>bs. e = Bytes fd bs")
    case False
    then have "sent_by fd (fst (demux_step k e T)) = [] \<and> snd (demux_step k e T) fd = Some t"
      using Cons.prems by (cases e) (auto simp: demux_step_def split: option.splits)
    moreover have "own_bytes fd (e # evs) = own_bytes fd evs" using False by (cases e) auto
    ultimately show ?thesis using Cons.IH [of "snd (demux_step k e T)" t] Cons.prems(2,3) by simp
  next
    case True
    then obtain bs where e: "e = Bytes fd bs" by blast
    obtain ms t' where w: "wire_split (t @ bs) = (ms, t')" by (cases "wire_split (t @ bs)")
    have d: "demux_step k e T = ([(fd, ms)], T(fd := t'))" using e Cons.prems(1) w by (simp add: demux_step_def a_messages_def)
    show ?thesis
    proof (cases t')
      case None
      with wire.split_closed [of "t @ bs" ms "own_bytes fd evs"] w have "wire_split (t @ bs @ own_bytes fd evs) = (ms, None)" by simp
      with demux_closed [of "T(fd := t')" fd evs k] d e None Cons.prems(3) show ?thesis by (simp add: a_messages_def)
    next
      case (Some t1)
      obtain ms2 t2 where w2: "wire_split (t1 @ own_bytes fd evs) = (ms2, t2)" by (cases "wire_split (t1 @ own_bytes fd evs)")
      have "wire_split (t @ bs @ own_bytes fd evs) = (ms @ ms2, t2)"
        using wire.split_resume [of "t @ bs" ms t1 "own_bytes fd evs"] w w2 Some by simp
      moreover have "wire_split t1 = ([], Some t1)" using wire.split_exact [of "t @ bs" ms t1] w Some by simp
      then have "sent_by fd (fst (spec_trace (demux_step k) evs (T(fd := t')))) = a_messages (t1 @ own_bytes fd evs)
          \<and> snd (spec_trace (demux_step k) evs (T(fd := t'))) fd = snd (wire_split (t1 @ own_bytes fd evs))"
        using Some Cons.prems(3) by (intro Cons.IH) simp_all
      ultimately show ?thesis using d e w2 by (simp add: a_messages_def del: fun_upd_apply)
    qed
  qed
qed (simp add: a_messages_def)

subsection \<open>What the trace log adds up to\<close>

text \<open>The messages an event completes and the events the engine produces for those that are queued.\<close>

definition read_log :: "Sizes \<Rightarrow> PipeEvent \<Rightarrow> AServer \<Rightarrow> BinaryMessage list \<times> BinaryMessage list" where
  "read_log z ev S =
     (case ev of
        Bytes fd bytes \<Rightarrow> (case as_tails S fd of None \<Rightarrow> ([], [])
          | Some t \<Rightarrow> (a_messages (t @ bytes), fst (a_run (sz_book z) (take (sz_in z) (a_messages (t @ bytes))) (as_engine S))))
      | _ \<Rightarrow> ([], []))"

fun trace_log :: "Sizes \<Rightarrow> PipeEvent list \<Rightarrow> AServer \<Rightarrow> BinaryMessage list \<times> BinaryMessage list" where
  "trace_log z [] S = ([], [])"
| "trace_log z (e # es) S = (fst (read_log z e S) @ fst (trace_log z es (snd (as_step z e S))),
     snd (read_log z e S) @ snd (trace_log z es (snd (as_step z e S))))"

lemma take_plus_rest: "(of_nat (length (take n xs)) :: u64) + of_nat (length xs - n) = of_nat (length xs)"
proof -
  have "length (take n xs) + (length xs - n) = length xs" by simp
  then show ?thesis by (metis of_nat_add)
qed

text \<open>Every step keeps the three balances.\<close>

lemma step_balances:
  "ct_processed (as_counts (snd (as_step z e S))) + ct_refused (as_counts (snd (as_step z e S)))
     = ct_processed (as_counts S) + ct_refused (as_counts S) + of_nat (length (fst (read_log z e S)))"
  "ct_emitted (as_counts (snd (as_step z e S))) + ct_overflowed (as_counts (snd (as_step z e S)))
     = ct_emitted (as_counts S) + ct_overflowed (as_counts S) + of_nat (length (snd (read_log z e S)))"
  "ct_emitted (as_counts (snd (as_step z e S))) = ct_emitted (as_counts S) + of_nat (length (frames (fst (as_step z e S))))"
proof -
  let ?S = "snd (as_step z e S)"
  have "ct_processed (as_counts ?S) + ct_refused (as_counts ?S) = ct_processed (as_counts S) + ct_refused (as_counts S) + of_nat (length (fst (read_log z e S)))
    \<and> ct_emitted (as_counts ?S) + ct_overflowed (as_counts ?S) = ct_emitted (as_counts S) + ct_overflowed (as_counts S) + of_nat (length (snd (read_log z e S)))
    \<and> ct_emitted (as_counts ?S) = ct_emitted (as_counts S) + of_nat (length (frames (fst (as_step z e S))))"
  proof (cases "\<exists>fd bytes t. e = Bytes fd bytes \<and> as_tails S fd = Some t")
    case False
    then have "as_counts ?S = as_counts S" "read_log z e S = ([], [])" "frames (fst (as_step z e S)) = []"
      by (cases e; auto simp: as_step_def read_log_def split: option.splits)+
    then show ?thesis by simp
  next
    case True
    then obtain fd bytes t where read: "e = Bytes fd bytes" "as_tails S fd = Some t" by blast
    let ?ms = "a_messages (t @ bytes)"
    let ?fs = "fst (a_run (sz_book z) (take (sz_in z) ?ms) (as_engine S))"
    have c: "as_counts ?S = count_read (sz_in z) (sz_out z) ?ms ?fs (as_counts S)"
      and l: "read_log z e S = (?ms, ?fs)" and f: "length (frames (fst (as_step z e S))) = length (take (sz_out z) ?fs)"
      using read by (simp_all add: as_step_def read_log_def a_read_def a_messages_def split: prod.splits)
    show ?thesis unfolding c l f fst_conv snd_conv count_read_def Counts.select_convs
      using take_plus_rest [of "sz_in z" ?ms] take_plus_rest [of "sz_out z" ?fs] by (metis (no_types, lifting) add.assoc add.left_commute)
  qed
  then show "ct_processed (as_counts ?S) + ct_refused (as_counts ?S) = ct_processed (as_counts S) + ct_refused (as_counts S) + of_nat (length (fst (read_log z e S)))"
    "ct_emitted (as_counts ?S) + ct_overflowed (as_counts ?S) = ct_emitted (as_counts S) + ct_overflowed (as_counts S) + of_nat (length (snd (read_log z e S)))"
    "ct_emitted (as_counts ?S) = ct_emitted (as_counts S) + of_nat (length (frames (fst (as_step z e S))))"
    by blast+
qed

lemma processed_balance:
  "ct_processed (as_counts (snd (spec_trace (as_step z) evs S))) + ct_refused (as_counts (snd (spec_trace (as_step z) evs S)))
     = ct_processed (as_counts S) + ct_refused (as_counts S) + of_nat (length (fst (trace_log z evs S)))"
proof (induction evs arbitrary: S)
  case (Cons e evs)
  from Cons [of "snd (as_step z e S)"] show ?case by (simp add: step_balances(1) add.assoc)
qed simp

lemma emitted_balance:
  "ct_emitted (as_counts (snd (spec_trace (as_step z) evs S))) + ct_overflowed (as_counts (snd (spec_trace (as_step z) evs S)))
     = ct_emitted (as_counts S) + ct_overflowed (as_counts S) + of_nat (length (snd (trace_log z evs S)))"
proof (induction evs arbitrary: S)
  case (Cons e evs)
  from Cons [of "snd (as_step z e S)"] show ?case by (simp add: step_balances(2) add.assoc)
qed simp

lemma emitted_frames:
  "ct_emitted (as_counts (snd (spec_trace (as_step z) evs S)))
     = ct_emitted (as_counts S) + of_nat (length (frames (fst (spec_trace (as_step z) evs S))))"
proof (induction evs arbitrary: S)
  case (Cons e evs)
  from Cons [of "snd (as_step z e S)"] show ?case by (simp add: step_balances(3) add.assoc)
qed simp

subsection \<open>What the pipeline promises\<close>

text \<open>
  C7. The whole in-process server refines its specification: from a fresh pipeline, whatever
  connections arrive, send and leave, in whatever order and with whatever bytes, every event is
  handled, and what the callers observe (who was admitted, every response frame and its addressee,
  every status) is exactly what the abstract server shows; its engine, its connections, their
  unfinished bytes and its counters remain those of the abstract server.
\<close>

theorem pipeline_refines_server:
  assumes "0 < n" "n \<le> kNullNode" "0 < m" "m \<le> kNullNode" "0 < i" "0 < g"
    and "may_trace may_occur (as_step (sizes_of n m i g k)) evs server_start"
  shows "\<exists>p'. run_trace sp_step evs (pipeline_new n m i g k) = Some (fst (spec_trace (as_step (sizes_of n m i g k)) evs server_start), p')
    \<and> server_rel (sizes_of n m i g k) p' (snd (spec_trace (as_step (sizes_of n m i g k)) evs server_start))"
  by (rule pipe.simulates_trace [OF server_start_rel [OF assms(1-6)] assms(7)])

text \<open>
  C8. The server is a demultiplexer in front of the matching engine.  From any state of the pipeline,
  over any interleaving of connections, the response frames are those of the reference engine run
  over the sequence of reads, each event addressed to the sender of the read that caused it; of a
  read, the first messages are processed, as many as the ingress ring holds, and the first events
  sent, as many as the egress ring holds, and where no read overflows a ring this is the engine run
  over all messages one by one.  During any stretch of the events in which a connection is open and
  neither arrives nor leaves, the messages in its reads are exactly those in its own bytes, following
  what it had left unfinished, however the bytes were cut into reads and whatever the other
  connections sent meanwhile.
\<close>

theorem server_is_demux_then_engine:
  assumes "server_rel z p S" "may_trace may_occur (as_step z) evs S"
    and "reads = fst (spec_trace (demux_step (sz_conns z)) evs (as_tails S))"
  shows "(\<exists>p' rs. run_trace sp_step evs p = Some (rs, p') \<and> frames rs = fst (answer_reads z reads (as_engine S))
      \<and> pipe_rel (sz_book z) p' (snd (answer_reads z reads (as_engine S)))
      \<and> tail_of (sp_registry p') = snd (spec_trace (demux_step (sz_conns z)) evs (as_tails S)))
    \<and> (reads_fit z reads (as_engine S) \<longrightarrow> answer_reads z reads (as_engine S) = answers (sz_book z) (messages_of reads) (as_engine S))
    \<and> (\<forall>pre post T fd t. evs = pre @ post \<and> T = snd (spec_trace (demux_step (sz_conns z)) pre (as_tails S))
         \<and> T fd = Some t \<and> (\<forall>e\<in>set post. stays fd e) \<longrightarrow>
         sent_by fd (fst (spec_trace (demux_step (sz_conns z)) post T)) = a_messages (t @ own_bytes fd post)
         \<and> snd (spec_trace (demux_step (sz_conns z)) post T) fd = snd (wire_split (t @ own_bytes fd post)))"
proof (intro conjI allI impI)
  from pipe.simulates_trace [OF assms(1,2)] trace_demuxed [of z evs S, folded assms(3)]
  show "\<exists>p' rs. run_trace sp_step evs p = Some (rs, p') \<and> frames rs = fst (answer_reads z reads (as_engine S))
      \<and> pipe_rel (sz_book z) p' (snd (answer_reads z reads (as_engine S)))
      \<and> tail_of (sp_registry p') = snd (spec_trace (demux_step (sz_conns z)) evs (as_tails S))" by (auto simp: server_rel_def)
  show "answer_reads z reads (as_engine S) = answers (sz_book z) (messages_of reads) (as_engine S)" if "reads_fit z reads (as_engine S)"
    by (rule answer_reads_fitting [OF that])
  fix pre post T fd t
  assume h: "evs = pre @ post \<and> T = snd (spec_trace (demux_step (sz_conns z)) pre (as_tails S)) \<and> T fd = Some t \<and> (\<forall>e\<in>set post. stays fd e)"
  then have "may_trace may_occur (as_step z) pre S" using assms(2) by (simp add: may_trace_append)
  from pipe.simulates_trace [OF assms(1) this] trace_demuxed [of z pre S] h obtain p1 where "pipe_rel (sz_book z) p1 (as_engine (snd (spec_trace (as_step z) pre S)))"
    "tail_of (sp_registry p1) fd = Some t" by (auto simp: server_rel_def)
  then have "wire_split t = ([], Some t)" by (auto simp: pipe_rel_def intro: tail_unfinished)
  from demux_own_bytes [OF _ this] h show
    "sent_by fd (fst (spec_trace (demux_step (sz_conns z)) post T)) = a_messages (t @ own_bytes fd post)"
    "snd (spec_trace (demux_step (sz_conns z)) post T) fd = snd (wire_split (t @ own_bytes fd post))" by blast+
qed

text \<open>
  C9. Nothing goes unaccounted: after any sequence of events, every message cut out of the streams was
  either processed or counted as refused by the full ingress ring, every event the engine produced
  was either sent or counted as dropped by the full egress ring, and the responses counted are
  exactly the frames handed to the sink (all counts modulo \<open>2 ^ 64\<close>, the width of the counters).
\<close>

theorem pipeline_accounts_for_everything:
  assumes "0 < n" "n \<le> kNullNode" "0 < m" "m \<le> kNullNode" "0 < i" "0 < g"
    and "may_trace may_occur (as_step (sizes_of n m i g k)) evs server_start"
  shows "\<exists>rs p'. run_trace sp_step evs (pipeline_new n m i g k) = Some (rs, p')
    \<and> processed_count (sp_processor p') + ingress_backpressure_count p' = of_nat (length (fst (trace_log (sizes_of n m i g k) evs server_start)))
    \<and> responses_emitted p' + egress_overflow_count (sp_processor p') = of_nat (length (snd (trace_log (sizes_of n m i g k) evs server_start)))
    \<and> responses_emitted p' = of_nat (length (frames rs))"
proof -
  let ?z = "sizes_of n m i g k"
  from pipe.simulates_trace [OF server_start_rel [OF assms(1-6)] assms(7)] obtain p' where
    p': "run_trace sp_step evs (pipeline_new n m i g k) = Some (fst (spec_trace (as_step ?z) evs server_start), p')"
      "counts p' = as_counts (snd (spec_trace (as_step ?z) evs server_start))" unfolding server_rel_def by blast
  have "processed_count (sp_processor p') = ct_processed (counts p')" "ingress_backpressure_count p' = ct_refused (counts p')"
    "responses_emitted p' = ct_emitted (counts p')" "egress_overflow_count (sp_processor p') = ct_overflowed (counts p')"
    by (simp_all add: counts_def)
  with p' show ?thesis
    using processed_balance [of ?z evs server_start] emitted_balance [of ?z evs server_start] emitted_frames [of ?z evs server_start]
    by (auto simp: server_start_def)
qed

subsection \<open>Concrete traces\<close>

definition demo_sizes :: Sizes where
  "demo_sizes = sizes_of 4 3 8 8 10"

text \<open>Two clients cancel unknown orders; the first client's frame arrives in two parts around the second's.\<close>

definition demo_trace :: "PipeEvent list" where
  "demo_trace = [Bytes 5 [1, 7, 0, 0], Arrive 6, Bytes 6 [1, 7, 0, 0, 0, 0, 0, 0, 0], Bytes 5 [0, 0, 0, 0, 0]]"

lemma demo_part: "wire_split [1, 7, 0, 0] = ([], Some [1, 7, 0, 0])"
proof -
  have "wire_size 1 = Some 9" by code_simp
  then show ?thesis using split_short [of wire_size 1 9 "[7, 0, 0]" wire_decode] by simp
qed

lemma demo_steps:
  "as_step demo_sizes (Arrive 5) server_start = ([Admitted 5 True], server_start\<lparr>as_tails := [5 \<mapsto> []]\<rparr>)"
  by (simp add: as_step_def demo_sizes_def sizes_of_def server_start_def)

lemma demo_reject:
  "a_run (4, 3) [BM_CancelOrder \<lparr>co_order_id = 7\<rparr>] a_start = ([BM_Reject \<lparr>rej_order_id = 7, rej_reason = OrderNotFound\<rparr>], a_start)"
  using demo_cancel(2) by (simp add: a_start_def)

lemma demo_may:
  "may_trace may_occur (as_step demo_sizes) demo_trace (server_start\<lparr>as_tails := [5 \<mapsto> []]\<rparr>)"
  "may_trace may_occur (as_step demo_sizes) (Arrive 5 # demo_trace) server_start"
proof -
  show r: "may_trace may_occur (as_step demo_sizes) demo_trace (server_start\<lparr>as_tails := [5 \<mapsto> []]\<rparr>)"
    using demo_part demo_cancel(1) demo_reject
    by (simp add: demo_trace_def as_step_def demo_sizes_def sizes_of_def server_start_def a_messages_def a_read_def)
  with demo_steps show "may_trace may_occur (as_step demo_sizes) (Arrive 5 # demo_trace) server_start" by (simp add: server_start_def)
qed

lemma demo_server_rel: "server_rel demo_sizes demo_pipeline (server_start\<lparr>as_tails := [5 \<mapsto> []]\<rparr>)"
proof -
  have "server_rel demo_sizes (pipeline_new 4 3 8 8 10) server_start"
    unfolding demo_sizes_def by (rule server_start_rel) (simp_all add: kNullNode_def)
  from arrive_ok [OF this, of 5] demo_steps show ?thesis
    by (auto simp: server_start_def sp_step_def demo_pipeline_def split: prod.splits)
qed

theorem pipeline_refines_server_witness:
  "\<exists>p'. run_trace sp_step (Arrive 5 # demo_trace) (pipeline_new 4 3 8 8 10)
    = Some (fst (spec_trace (as_step (sizes_of 4 3 8 8 10)) (Arrive 5 # demo_trace) server_start), p')"
  using pipeline_refines_server [OF _ _ _ _ _ _ demo_may(2) [unfolded demo_sizes_def]] by (auto simp: kNullNode_def)

theorem server_is_demux_then_engine_witness:
  "(\<exists>p' rs. run_trace sp_step demo_trace demo_pipeline = Some (rs, p')
     \<and> frames rs = [(6, [4, 7, 0, 0, 0, 0, 0, 0, 0, 2]), (5, [4, 7, 0, 0, 0, 0, 0, 0, 0, 2])])
   \<and> sent_by 5 (fst (spec_trace (demux_step 10) demo_trace [5 \<mapsto> []])) = a_messages [1, 7, 0, 0, 0, 0, 0, 0, 0]"
proof -
  let ?S = "server_start\<lparr>as_tails := [5 \<mapsto> []]\<rparr>" let ?c = "BM_CancelOrder \<lparr>co_order_id = 7\<rparr>"
  let ?rs = "fst (spec_trace (demux_step (sz_conns demo_sizes)) demo_trace (as_tails ?S))"
  have d: "?rs = [(5, []), (6, [?c]), (5, [?c])]"
    using demo_part demo_cancel(1) by (simp add: demo_trace_def demux_step_def demo_sizes_def sizes_of_def a_messages_def)
  have a: "fst (answer_reads demo_sizes ?rs (as_engine ?S)) = [(6, [4, 7, 0, 0, 0, 0, 0, 0, 0, 2]), (5, [4, 7, 0, 0, 0, 0, 0, 0, 0, 2])]"
    unfolding d using demo_cancel(3) demo_reject by (simp add: demo_sizes_def sizes_of_def server_start_def del: a_run.simps(2))
  have o: "own_bytes 5 demo_trace = [1, 7, 0, 0, 0, 0, 0, 0, 0]" "\<forall>e\<in>set demo_trace. stays 5 e" by (simp_all add: demo_trace_def)
  note W = server_is_demux_then_engine [OF demo_server_rel demo_may(1) refl]
  from conjunct1 [OF W] a have "\<exists>p' rs. run_trace sp_step demo_trace demo_pipeline = Some (rs, p')
     \<and> frames rs = [(6, [4, 7, 0, 0, 0, 0, 0, 0, 0, 2]), (5, [4, 7, 0, 0, 0, 0, 0, 0, 0, 2])]" by auto
  moreover from W [THEN conjunct2, THEN conjunct2, rule_format, of "[]" demo_trace "[5 \<mapsto> []]" 5 "[]"] o
  have "sent_by 5 (fst (spec_trace (demux_step 10) demo_trace [5 \<mapsto> []])) = a_messages [1, 7, 0, 0, 0, 0, 0, 0, 0]"
    by (simp add: demo_sizes_def sizes_of_def del: spec_trace.simps(2))
  ultimately show ?thesis by blast
qed

theorem pipeline_accounts_for_everything_witness:
  "\<exists>rs p'. run_trace sp_step (Arrive 5 # demo_trace) (pipeline_new 4 3 8 8 10) = Some (rs, p') \<and> responses_emitted p' = of_nat (length (frames rs))"
  using pipeline_accounts_for_everything [OF _ _ _ _ _ _ demo_may(2) [unfolded demo_sizes_def]] by (auto simp: kNullNode_def)

end
