(* ===== verification/Server_Trace.thy ===== *)
theory Server_Trace
  imports Tcp_Server_Properties Pipeline_Trace
begin

text \<open>
  The event loop over the operating system, seen as a schedule of pipeline events.  Whatever the
  system calls return, the iterations of \<open>TcpServer::run\<close> amount to a sequence of connections, reads and
  teardowns of the abstract server, and the two byte streams of every live connection are those of
  that sequence: what was received is what the server was fed, and what was sent, followed by what is
  still queued, is what the server owes.
\<close>

text \<open>
  What is observed of the operating system: the open descriptors, the pending connections, the
  descriptor limit, and the bytes received from and delivered to the peer of each open socket.
\<close>

record 'w observers =
  ob_open :: "'w \<Rightarrow> int set"
  ob_backlog :: "'w \<Rightarrow> nat"
  ob_limit :: int
  ob_received :: "'w \<Rightarrow> int \<Rightarrow> u8 list"
  ob_delivered :: "'w \<Rightarrow> int \<Rightarrow> u8 list"

definition quiet :: "'w observers \<Rightarrow> 'w \<Rightarrow> 'w \<Rightarrow> bool" where
  "quiet ob w w' \<longleftrightarrow> ob_received ob w' = ob_received ob w \<and> ob_delivered ob w' = ob_delivered ob w"

text \<open>
  A new connection starts with empty streams, \<open>recv\<close> and \<open>send\<close> extend the stream of their socket by
  what they report, and no other call touches a stream.
\<close>

definition streams_ok :: "'w system \<Rightarrow> 'w observers \<Rightarrow> bool" where
  "streams_ok os ob \<longleftrightarrow> sends_ok os (ob_delivered ob)
     \<and> (\<forall>fd bs n w. ob_received ob (snd (sys_send os fd bs n w)) = ob_received ob w)
     \<and> (\<forall>l w c w'. sys_accept os l w = (c, w') \<longrightarrow>
          (if invalid_socket os c then quiet ob w w'
           else ob_received ob w' = (ob_received ob w)(c := []) \<and> ob_delivered ob w' = (ob_delivered ob w)(c := [])))
     \<and> (\<forall>fd m w n bs w'. sys_recv os fd m w = (n, bs, w') \<longrightarrow> ob_delivered ob w' = ob_delivered ob w
          \<and> ob_received ob w' = (if n > 0 then (ob_received ob w)(fd := ob_received ob w fd @ take (nat n) bs) else ob_received ob w))
     \<and> (\<forall>fd w. quiet ob w (snd (sys_getfl os fd w)) \<and> quiet ob w (snd (sys_ioctl_fionbio os fd w)) \<and> quiet ob w (sys_close os fd w))
     \<and> (\<forall>fd f w. quiet ob w (snd (sys_setfl_nonblock os fd f w)))
     \<and> (\<forall>n rs ws w. quiet ob w (snd (snd (snd (sys_select os n rs ws w)))))
     \<and> (\<forall>w. quiet ob w (snd (sys_signalled os w)) \<and> quiet ob w (sys_wsacleanup os w))"

definition environment_ok :: "'w system \<Rightarrow> 'w observers \<Rightarrow> bool" where
  "environment_ok os ob \<longleftrightarrow> system_ok os (ob_open ob) (ob_backlog ob) (ob_limit ob) \<and> limit_fits os (ob_limit ob) \<and> streams_ok os ob"

subsection \<open>What the abstract server owes and was fed\<close>

text \<open>Both are counted from the moment the connection was last admitted.\<close>

fun owe :: "SocketHandle \<Rightarrow> Reply \<Rightarrow> u8 list \<Rightarrow> u8 list" where
  "owe fd (Admitted k ok) bs = (if k = fd \<and> ok then [] else bs)"
| "owe fd (Frame k frame) bs = (if k = fd then bs @ frame else bs)"
| "owe fd (Status k st) bs = bs"

definition owed :: "SocketHandle \<Rightarrow> Reply list \<Rightarrow> u8 list" where
  "owed fd rs = fold (owe fd) rs []"

fun feed :: "SocketHandle \<Rightarrow> PipeEvent \<Rightarrow> u8 list \<Rightarrow> u8 list" where
  "feed fd (Arrive k) bs = (if k = fd then [] else bs)"
| "feed fd (Bytes k new) bs = (if k = fd then bs @ new else bs)"
| "feed fd (Leave k reason) bs = bs"

definition fed :: "SocketHandle \<Rightarrow> PipeEvent list \<Rightarrow> u8 list" where
  "fed fd evs = fold (feed fd) evs []"

text \<open>How many connections the server has admitted, and how many it has turned away.\<close>

fun admits :: "bool \<Rightarrow> Reply \<Rightarrow> bool" where
  "admits b (Admitted fd ok) \<longleftrightarrow> ok = b"
| "admits b _ \<longleftrightarrow> False"

definition admissions :: "bool \<Rightarrow> Reply list \<Rightarrow> nat" where
  "admissions b rs = length (filter (admits b) rs)"

lemma admissions_simps [simp]:
  "admissions b [] = 0" "admissions b (x # rs) = (if admits b x then 1 else 0) + admissions b rs"
  "admissions b (rs @ rs') = admissions b rs + admissions b rs'" "admissions b (map (\<lambda>e. Frame fd (f e)) es) = 0"
  by (simp_all add: admissions_def)

lemma step_admissions: "(\<And>fd. e \<noteq> Arrive fd) \<Longrightarrow> admissions b (fst (as_step z e S)) = 0"
  by (cases e) (auto simp: as_step_def split: option.splits prod.splits)

text \<open>One read makes the server owe at most an egress ring of the longest frames.\<close>

definition burst :: "Sizes \<Rightarrow> nat" where
  "burst z = sz_out z * kMaxMessageLen"

lemma frame_length_max: "length (frame_of e) \<le> kMaxMessageLen"
  by (cases e) (simp_all add: length_frame_of encoded_len_of_def wire_lengths kMaxMessageLen_def)

lemma owe_frames: "fold (owe fd) (map (\<lambda>e. Frame k (f e)) es) bs = (if k = fd then bs @ concat (map f es) else bs)"
  by (induction es arbitrary: bs) simp_all

lemma concat_frames_length: "length (concat (map frame_of es)) \<le> length es * kMaxMessageLen"
  using frame_length_max by (induction es) (auto intro: add_mono)

lemma read_burst:
  assumes "a_read cp i (sz_out z) t a = (es, a', t')"
  shows "length (concat (map frame_of es)) \<le> burst z"
proof -
  have "length es \<le> sz_out z" using assms by (auto simp: a_read_def split: prod.splits)
  then have "length es * kMaxMessageLen \<le> burst z" unfolding burst_def by (rule mult_right_mono) simp
  with concat_frames_length [of es] show ?thesis by linarith
qed

text \<open>The bytes queued for a connection.\<close>

definition queued_bytes :: "TcpServer \<Rightarrow> SocketHandle \<Rightarrow> nat" where
  "queued_bytes s fd = (case map_of (ts_outbound s) fd of None \<Rightarrow> 0 | Some q \<Rightarrow> length q)"

lemma queued_bytes_same: "map_of (ts_outbound s') k = map_of (ts_outbound s) k \<Longrightarrow> queued_bytes s' k = queued_bytes s k"
  by (simp add: queued_bytes_def)

lemma queued_bytes_Some: "map_of (ts_outbound s) fd = Some q \<Longrightarrow> queued_bytes s fd = length q"
  by (simp add: queued_bytes_def)

lemma queued_bytes_drop: "queued_bytes (drop_connection fd s) k \<le> queued_bytes s k"
  by (auto simp: queued_bytes_def drop_connection_def map_of_filter_key)

subsection \<open>The loop's state and a schedule of pipeline events\<close>

definition net_rel :: "Sizes \<Rightarrow> 'w observers \<Rightarrow> AServer \<Rightarrow> PipeEvent list \<Rightarrow> TcpServer \<Rightarrow> 'w \<Rightarrow> bool" where
  "net_rel z ob S evs s w \<longleftrightarrow> srv_inv (sz_book z) (ob_open ob) (ob_limit ob) s w
     \<and> may_trace may_occur (as_step z) evs S
     \<and> server_rel z (ts_pipeline s) (snd (spec_trace (as_step z) evs S))
     \<and> ts_accepted s = of_nat (admissions True (fst (spec_trace (as_step z) evs S)))
     \<and> ts_rejected s = of_nat (admissions False (fst (spec_trace (as_step z) evs S)))
     \<and> (\<forall>fd q. map_of (ts_outbound s) fd = Some q \<longrightarrow>
          ob_delivered ob w fd @ q = owed fd (fst (spec_trace (as_step z) evs S)) \<and> ob_received ob w fd = fed fd evs)"

lemma quiet_refl: "quiet ob w w"
  by (simp add: quiet_def)

lemma quiet_trans: "quiet ob w w1 \<Longrightarrow> quiet ob w1 w2 \<Longrightarrow> quiet ob w w2"
  by (simp add: quiet_def)

lemma net_rel_quiet:
  assumes "net_rel z ob S evs s w" "\<And>fd. fd \<in> keys (ts_outbound s) \<Longrightarrow> ob_received ob w' fd = ob_received ob w fd \<and> ob_delivered ob w' fd = ob_delivered ob w fd"
    and "srv_inv (sz_book z) (ob_open ob) (ob_limit ob) s' w'"
    and "ts_pipeline s' = ts_pipeline s" "ts_outbound s' = ts_outbound s" "ts_accepted s' = ts_accepted s" "ts_rejected s' = ts_rejected s"
  shows "net_rel z ob S evs s' w'"
proof -
  have "fd \<in> keys (ts_outbound s)" if "map_of (ts_outbound s) fd = Some q" for fd q
    using map_of_key [OF that] by (simp add: keys_def)
  with assms show ?thesis by (simp add: net_rel_def)
qed

lemma net_rel_world:
  assumes "net_rel z ob S evs s w" "quiet ob w w'" "ob_open ob w' = ob_open ob w"
  shows "net_rel z ob S evs s w'"
proof (rule net_rel_quiet [OF assms(1)])
  have "srv_inv (sz_book z) (ob_open ob) (ob_limit ob) s w" using assms(1) by (simp add: net_rel_def)
  then show "srv_inv (sz_book z) (ob_open ob) (ob_limit ob) s w'" using assms(3) by (simp add: srv_inv_def)
qed (use assms(2) in \<open>simp_all add: quiet_def\<close>)

text \<open>One more event.\<close>

lemma net_rel_event:
  assumes "net_rel z ob S evs s w" "T = snd (spec_trace (as_step z) evs S)" "may_occur e T"
    and "srv_inv (sz_book z) (ob_open ob) (ob_limit ob) s' w'" "server_rel z (ts_pipeline s') (snd (as_step z e T))"
    and "ts_accepted s' = ts_accepted s + of_nat (admissions True (fst (as_step z e T)))"
    and "ts_rejected s' = ts_rejected s + of_nat (admissions False (fst (as_step z e T)))"
    and "\<And>fd q. map_of (ts_outbound s') fd = Some q \<Longrightarrow>
      ob_delivered ob w' fd @ q = fold (owe fd) (fst (as_step z e T)) (owed fd (fst (spec_trace (as_step z) evs S)))
      \<and> ob_received ob w' fd = feed fd e (fed fd evs)"
  shows "net_rel z ob S (evs @ [e]) s' w'"
  using assms unfolding net_rel_def by (auto simp: spec_trace_append may_trace_append owed_def fed_def)

lemma environment_parts:
  assumes "environment_ok os ob"
  shows "system_ok os (ob_open ob) (ob_backlog ob) (ob_limit ob)" "limit_fits os (ob_limit ob)" "streams_ok os ob"
    "sends_ok os (ob_delivered ob)" "quiet ob w (sys_close os fd w)"
  using assms by (simp_all add: environment_ok_def streams_ok_def)

lemma sync_quiet:
  assumes "environment_ok os ob" "sync os p s w = (s', w')"
  shows "quiet ob w w'"
proof -
  have "ob_delivered ob (sys_close os fd w) = ob_delivered ob w" "ob_received ob (sys_close os fd w) = ob_received ob w" for fd w
    using environment_parts(5) [OF assms(1), of w fd] by (simp_all add: quiet_def)
  from sync_delivered [of "ob_delivered ob", OF this(1) assms(2)] sync_delivered [of "ob_received ob", OF this(2) assms(2)]
  show ?thesis by (simp add: quiet_def)
qed

lemma sync_parts:
  "sync os p s w = (s', w') \<Longrightarrow> ts_pipeline s' = p \<and> ts_outbound s' = ts_outbound s
     \<and> ts_accepted s' = ts_accepted s \<and> ts_rejected s' = ts_rejected s"
  by (auto simp: sync_def split: prod.splits)

subsection \<open>Writing\<close>

lemma send_loop_received:
  assumes "environment_ok os ob"
  shows "ob_received ob (snd (send_loop os fd queue k w)) = ob_received ob w"
proof (induction "length queue - k" arbitrary: k w rule: less_induct)
  case less
  obtain n w1 where sd: "sys_send os fd (drop k queue) (to_int (length queue - k)) w = (n, w1)"
    by (cases "sys_send os fd (drop k queue) (to_int (length queue - k)) w")
  have "ob_received ob w1 = ob_received ob w" using environment_parts(3) [OF assms] sd unfolding streams_ok_def by (metis snd_conv)
  moreover have "ob_received ob (snd (send_loop os fd queue (k + nat n) w1)) = ob_received ob w1" if "n > 0" "k < length queue"
    using that by (intro less.hyps) simp
  ultimately show ?case using sd by (subst send_loop.simps) simp
qed

lemma writable_elsewhere:
  assumes "environment_ok os ob" "handle_writable os fd s w = (s', w')"
  shows "ob_received ob w' = ob_received ob w" "k \<noteq> fd \<Longrightarrow> map_of (ts_outbound s') k = map_of (ts_outbound s) k"
    "ts_accepted s' = ts_accepted s" "ts_rejected s' = ts_rejected s"
proof -
  have sl: "ob_received ob w1 = ob_received ob w" if "send_loop os fd queue 0 w = (r, w1)" for queue r w1
    using send_loop_received [OF assms(1), of fd queue 0 w] that by simp
  have sy: "ob_received ob w2 = ob_received ob w1" if "sync os p s w1 = (s1, w2)" for p w1 s1 w2
    using sync_quiet [OF assms(1) that] by (simp add: quiet_def)
  show "ob_received ob w' = ob_received ob w"
    using assms(2) by (auto simp: handle_writable_def split: option.splits prod.splits if_splits dest!: sl sy)
  show "ts_accepted s' = ts_accepted s" "ts_rejected s' = ts_rejected s"
    using assms(2) by (auto simp: handle_writable_def drop_connection_def split: option.splits prod.splits if_splits dest!: sync_parts)
  show "map_of (ts_outbound s') k = map_of (ts_outbound s) k" if "k \<noteq> fd"
    using assms(2) that
    by (auto simp: handle_writable_def drop_connection_def map_of_set_queue map_of_filter_key split: option.splits prod.splits if_splits dest!: sync_parts)
qed

lemma writable_event:
  assumes env: "environment_ok os ob" and rel: "net_rel z ob S evs s w"
    and short: "queued_bytes s fd < 2 ^ 31" and hw: "handle_writable os fd s w = (s', w')"
  shows "(\<exists>es. net_rel z ob S (evs @ es) s' w') \<and> (\<forall>k. queued_bytes s' k \<le> queued_bytes s k)"
proof (cases "map_of (ts_outbound s) fd")
  case None
  with hw rel show ?thesis by (auto simp: handle_writable_def intro: exI [of _ "[]"])
next
  case (Some queue)
  note E = environment_parts [OF env]
  let ?T = "snd (spec_trace (as_step z) evs S)"
  from rel have inv: "srv_inv (sz_book z) (ob_open ob) (ob_limit ob) s w" and sr: "server_rel z (ts_pipeline s) ?T"
    and st: "\<And>fd q. map_of (ts_outbound s) fd = Some q \<Longrightarrow>
      ob_delivered ob w fd @ q = owed fd (fst (spec_trace (as_step z) evs S)) \<and> ob_received ob w fd = fed fd evs"
    by (auto simp: net_rel_def)
  from writable_keeps_inv [OF inv E(1), of fd] hw have inv': "srv_inv (sz_book z) (ob_open ob) (ob_limit ob) s' w'" by auto
  have cl: "\<And>fd w. ob_delivered ob (sys_close os fd w) = ob_delivered ob w" using E(5) by (simp add: quiet_def)
  from writable_stream [OF E(4) cl Some short [unfolded queued_bytes_Some [OF Some]] hw] obtain j where
    j: "ob_delivered ob w' = (ob_delivered ob w)(fd := ob_delivered ob w fd @ take j queue)"
      "map_of (ts_outbound s') fd = Some (drop j queue) \<and> ts_pipeline s' = ts_pipeline s
       \<or> map_of (ts_outbound s') fd = None \<and> ts_pipeline s' = sp_teardown fd SocketError (ts_pipeline s)" by blast
  note W = writable_elsewhere [OF env hw]
  have st': "ob_delivered ob w' k @ q = owed k (fst (spec_trace (as_step z) evs S)) \<and> ob_received ob w' k = fed k evs"
    if "map_of (ts_outbound s') k = Some q" for k q
    using that j W(1) W(2) [of k] st [of k] st [OF Some] by (cases "k = fd") auto
  have "queued_bytes s' k \<le> queued_bytes s k" for k
    using j(2) W(2) [of k] Some by (cases "k = fd") (auto simp: queued_bytes_def)
  moreover from j(2) have "\<exists>es. net_rel z ob S (evs @ es) s' w'"
  proof
    assume "map_of (ts_outbound s') fd = Some (drop j queue) \<and> ts_pipeline s' = ts_pipeline s"
    then have "net_rel z ob S evs s' w'" using rel inv' st' W(3,4) by (simp add: net_rel_def)
    then show ?thesis by (intro exI [of _ "[]"]) simp
  next
    assume d: "map_of (ts_outbound s') fd = None \<and> ts_pipeline s' = sp_teardown fd SocketError (ts_pipeline s)"
    from leave_ok [OF sr, of fd SocketError] d have "server_rel z (ts_pipeline s') (snd (as_step z (Leave fd SocketError) ?T))"
      by (simp add: sp_step_def)
    from net_rel_event [OF rel refl _ inv' this] st' W(3,4) have "net_rel z ob S (evs @ [Leave fd SocketError]) s' w'" by (simp add: as_step_def)
    then show ?thesis by blast
  qed
  ultimately show ?thesis by blast
qed

subsection \<open>Reading\<close>

lemma leave_event:
  assumes env: "environment_ok os ob" and rel: "net_rel z ob S evs s w" and q: "quiet ob w w1"
    and sy: "sync os (sp_teardown fd reason (ts_pipeline s)) s w1 = (s1, w2)"
    and inv: "srv_inv (sz_book z) (ob_open ob) (ob_limit ob) (drop_connection fd s1) w2"
  shows "net_rel z ob S (evs @ [Leave fd reason]) (drop_connection fd s1) w2" "queued_bytes (drop_connection fd s1) k \<le> queued_bytes s k"
proof -
  let ?T = "snd (spec_trace (as_step z) evs S)"
  from rel have sr: "server_rel z (ts_pipeline s) ?T" by (simp add: net_rel_def)
  note P = sync_parts [OF sy]
  have w2: "quiet ob w w2" by (rule quiet_trans [OF q sync_quiet [OF env sy]])
  have "server_rel z (ts_pipeline (drop_connection fd s1)) (snd (as_step z (Leave fd reason) ?T))"
    using leave_ok [OF sr, of fd reason] P by (simp add: sp_step_def drop_connection_def)
  note N = net_rel_event [OF rel refl _ inv this]
  show "queued_bytes (drop_connection fd s1) k \<le> queued_bytes s k"
    using queued_bytes_drop [of fd s1 k] queued_bytes_same [of s1 k s] P by simp
  show "net_rel z ob S (evs @ [Leave fd reason]) (drop_connection fd s1) w2"
    by (rule N) (use rel P w2 in \<open>auto simp: as_step_def drop_connection_def map_of_filter_key net_rel_def quiet_def split: if_splits\<close>)
qed

lemma bytes_event:
  assumes env: "environment_ok os ob" and rel: "net_rel z ob S evs s w" and fd: "fd \<in> tracked (ts_pipeline s)"
    and w1: "ob_open ob w1 = ob_open ob w" "ob_delivered ob w1 = ob_delivered ob w" "ob_received ob w1 = (ob_received ob w)(fd := ob_received ob w fd @ bytes)"
    and sub: "submit_client_bytes (\<lambda>out_fd frame q. Some (append_queue out_fd frame q)) fd bytes (ts_pipeline s) (ts_outbound s) = Some (status, p, q)"
    and sy: "sync os p (s\<lparr>ts_outbound := q\<rparr>) w1 = (s1, w2)"
  shows "net_rel z ob S (evs @ [Bytes fd bytes]) (if status = FS_Closed then drop_connection fd s1 else s1) w2"
    "queued_bytes (if status = FS_Closed then drop_connection fd s1 else s1) k \<le> queued_bytes s k + (if k = fd then burst z else 0)"
proof -
  let ?T = "snd (spec_trace (as_step z) evs S)"
  note E = environment_parts [OF env]
  from rel have inv: "srv_inv (sz_book z) (ob_open ob) (ob_limit ob) s w" and sr: "server_rel z (ts_pipeline s) ?T"
    and st: "\<And>fd q. map_of (ts_outbound s) fd = Some q \<Longrightarrow>
      ob_delivered ob w fd @ q = owed fd (fst (spec_trace (as_step z) evs S)) \<and> ob_received ob w fd = fed fd evs"
    by (auto simp: net_rel_def)
  from sr have pr: "pipe_rel (sz_book z) (ts_pipeline s) (as_engine ?T)" "tail_of (sp_registry (ts_pipeline s)) = as_tails ?T"
    "in_cap (ts_pipeline s) = sz_in z" "out_cap (ts_pipeline s) = sz_out z" by (auto simp: server_rel_def)
  from fd tracked_tail [of "ts_pipeline s" fd] pr obtain t where t: "as_tails ?T fd = Some t" by (auto simp: pipe_rel_def)
  obtain es a' t' where rd: "a_read (sz_book z) (sz_in z) (sz_out z) (t @ bytes) (as_engine ?T) = (es, a', t')"
    by (cases "a_read (sz_book z) (sz_in z) (sz_out z) (t @ bytes) (as_engine ?T)") auto
  have step: "fst (as_step z (Bytes fd bytes) ?T) = map (\<lambda>e. Frame fd (frame_of e)) es @ [Status fd (if t' = None then FS_Closed else FS_Ok)]"
    using t rd by (simp add: as_step_def)
  from readable_bytes [OF inv E(1) fd pr(1) t [folded pr(2)] w1(1) rd [folded pr(3,4)]] sub sy have
    R: "status = (if t' = None then FS_Closed else FS_Ok)"
      "map_of q = (map_of (ts_outbound s))(fd \<mapsto> the (map_of (ts_outbound s) fd) @ concat (map frame_of es))"
      "srv_inv (sz_book z) (ob_open ob) (ob_limit ob) (if status = FS_Closed then drop_connection fd s1 else s1) w2"
    by (auto split: if_splits)
  from bytes_known [OF sr t rd, of "\<lambda>out_fd frame q. Some (append_queue out_fd frame q)"] sub
  have srv: "server_rel z p (snd (as_step z (Bytes fd bytes) ?T))"
    by (cases "for_each (\<lambda>e q. Some (append_queue fd (frame_of e) q)) es (ts_outbound s)") auto
  note P = sync_parts [OF sy] and Q = sync_quiet [OF env sy]
  have adm: "admissions b (fst (as_step z (Bytes fd bytes) ?T)) = 0" for b by (rule step_admissions) simp
  have "fd \<in> fst ` set (ts_outbound s)" using inv fd by (simp add: srv_inv_def keys_def)
  then obtain v where v: "map_of (ts_outbound s) fd = Some v" by (metis map_of_no_key option.exhaust)
  have "queued_bytes s1 k \<le> queued_bytes s k + (if k = fd then burst z else 0)"
    using read_burst [OF rd] R(2) v P by (auto simp: queued_bytes_def)
  then show "queued_bytes (if status = FS_Closed then drop_connection fd s1 else s1) k \<le> queued_bytes s k + (if k = fd then burst z else 0)"
    using queued_bytes_drop [of fd s1 k] by auto
  show "net_rel z ob S (evs @ [Bytes fd bytes]) (if status = FS_Closed then drop_connection fd s1 else s1) w2"
  proof (rule net_rel_event [OF rel refl _ R(3)])
    show "server_rel z (ts_pipeline (if status = FS_Closed then drop_connection fd s1 else s1)) (snd (as_step z (Bytes fd bytes) ?T))"
      using srv P by (simp add: drop_connection_def)
    show "ts_accepted (if status = FS_Closed then drop_connection fd s1 else s1) = ts_accepted s + of_nat (admissions True (fst (as_step z (Bytes fd bytes) ?T)))"
      "ts_rejected (if status = FS_Closed then drop_connection fd s1 else s1) = ts_rejected s + of_nat (admissions False (fst (as_step z (Bytes fd bytes) ?T)))"
      unfolding adm using P by (simp_all add: drop_connection_def)
    fix k x
    assume "map_of (ts_outbound (if status = FS_Closed then drop_connection fd s1 else s1)) k = Some x"
    then have x: "map_of q k = Some x" using P by (auto simp: drop_connection_def map_of_filter_key split: if_splits)
    show "ob_delivered ob w2 k @ x = fold (owe k) (fst (as_step z (Bytes fd bytes) ?T)) (owed k (fst (spec_trace (as_step z) evs S)))
        \<and> ob_received ob w2 k = feed k (Bytes fd bytes) (fed k evs)"
      using x R(2) v st [OF v] st [of k] w1(2,3) Q unfolding step by (cases "k = fd") (auto simp: quiet_def owe_frames)
  qed simp
qed

lemma received_event:
  assumes env: "environment_ok os ob" and rel: "net_rel z ob S evs s w" and fd: "fd \<in> tracked (ts_pipeline s)"
    and short: "queued_bytes s fd + burst z < 2 ^ 31" and rc: "sys_recv os fd kReadBufferSize w = (n, buffer, w1)" "n > 0"
    and hr: "handle_readable os fd s w = Some (s', w')"
  shows "(\<exists>es. net_rel z ob S (evs @ es) s' w') \<and> (\<forall>k. queued_bytes s' k \<le> queued_bytes s k + (if k = fd then burst z else 0))"
proof -
  let ?e = "Bytes fd (take (nat n) buffer)"
  note E = environment_parts [OF env]
  have o1: "ob_open ob w1 = ob_open ob w" using E(1) rc(1) unfolding system_ok_def by (metis snd_conv)
  have i1: "ob_delivered ob w1 = ob_delivered ob w" "ob_received ob w1 = (ob_received ob w)(fd := ob_received ob w fd @ take (nat n) buffer)"
    using E(3) rc unfolding streams_ok_def by metis+
  from hr rc obtain status p q where sub: "submit_client_bytes (\<lambda>out_fd frame q. Some (append_queue out_fd frame q)) fd (take (nat n) buffer)
      (ts_pipeline s) (ts_outbound s) = Some (status, p, q)" by (auto simp: handle_readable_def bind_eq_Some_conv)
  obtain s1 w2 where sy: "sync os p (s\<lparr>ts_outbound := q\<rparr>) w1 = (s1, w2)" by (cases "sync os p (s\<lparr>ts_outbound := q\<rparr>) w1")
  note 1 = bytes_event [OF env rel fd o1 i1 sub sy]
  show ?thesis
  proof (cases "status \<noteq> FS_Closed \<and> (\<exists>b qs. map_of (ts_outbound s1) fd = Some (b # qs))")
    case False
    then have "s' = (if status = FS_Closed then drop_connection fd s1 else s1)" "w' = w2"
      using hr rc sub sy by (auto simp: handle_readable_def neq_Nil_conv split: option.splits if_splits)
    with 1 show ?thesis by blast
  next
    case True
    then have hw: "handle_writable os fd s1 w2 = (s', w')"
      using hr rc sub sy by (auto simp: handle_readable_def split: option.splits if_splits)
    from 1 True have 2: "net_rel z ob S (evs @ [?e]) s1 w2" "\<And>k. queued_bytes s1 k \<le> queued_bytes s k + (if k = fd then burst z else 0)" by simp_all
    have "queued_bytes s1 fd < 2 ^ 31" using 2(2) [of fd] short by simp
    from writable_event [OF env 2(1) this hw] obtain es where
      "net_rel z ob S (evs @ [?e] @ es) s' w'" "\<And>k. queued_bytes s' k \<le> queued_bytes s1 k" by auto
    with 2(2) show ?thesis by (blast intro: order_trans)
  qed
qed

lemma readable_event:
  assumes env: "environment_ok os ob" and rel: "net_rel z ob S evs s w" and fd: "fd \<in> tracked (ts_pipeline s)"
    and short: "queued_bytes s fd + burst z < 2 ^ 31" and hr: "handle_readable os fd s w = Some (s', w')"
  shows "(\<exists>es. net_rel z ob S (evs @ es) s' w') \<and> (\<forall>k. queued_bytes s' k \<le> queued_bytes s k + (if k = fd then burst z else 0))"
proof -
  note E = environment_parts [OF env]
  from rel have inv: "srv_inv (sz_book z) (ob_open ob) (ob_limit ob) s w" by (simp add: net_rel_def)
  obtain n buffer w1 where rc: "sys_recv os fd kReadBufferSize w = (n, buffer, w1)" by (cases "sys_recv os fd kReadBufferSize w") auto
  have o1: "ob_open ob w1 = ob_open ob w" using E(1) rc unfolding system_ok_def by (metis snd_conv)
  have i1: "ob_delivered ob w1 = ob_delivered ob w"
    "ob_received ob w1 = (if n > 0 then (ob_received ob w)(fd := ob_received ob w fd @ take (nat n) buffer) else ob_received ob w)"
    using E(3) rc unfolding streams_ok_def by blast+
  from readable_keeps_inv [OF inv E(1) fd] hr have inv': "srv_inv (sz_book z) (ob_open ob) (ob_limit ob) s' w'" by auto
  have gone: ?thesis if q: "n \<le> 0" and sy: "sync os (sp_teardown fd reason (ts_pipeline s)) s w1 = (s1, w2)"
      and r: "s' = drop_connection fd s1" "w' = w2" for reason s1 w2
  proof -
    have 1: "quiet ob w w1" using i1 q by (simp add: quiet_def)
    note L = leave_event [OF env rel 1 sy]
    have "net_rel z ob S (evs @ [Leave fd reason]) s' w'" "\<And>k. queued_bytes s' k \<le> queued_bytes s k" using L inv' r by simp_all
    then show ?thesis by (blast intro: trans_le_add1)
  qed
  consider (closed) "n = 0" | (failed) "n < 0" | (bytes) "n > 0" by linarith
  then show ?thesis
  proof cases
    case closed
    obtain s1 w2 where sy: "sync os (sp_teardown fd PeerClosed (ts_pipeline s)) s w1 = (s1, w2)"
      by (cases "sync os (sp_teardown fd PeerClosed (ts_pipeline s)) s w1")
    show ?thesis by (rule gone [OF _ sy]) (use hr rc closed sy in \<open>auto simp: handle_readable_def\<close>)
  next
    case failed
    obtain s1 w2 where sy: "sync os (sp_teardown fd SocketError (ts_pipeline s)) s w1 = (s1, w2)"
      by (cases "sync os (sp_teardown fd SocketError (ts_pipeline s)) s w1")
    show ?thesis
    proof (cases "would_block os (last_socket_error os w1)")
      case True
      with hr rc failed have "s' = s" "w' = w1" by (auto simp: handle_readable_def)
      then have "net_rel z ob S (evs @ []) s' w'" using net_rel_quiet [OF rel _ inv'] i1 failed by (simp add: quiet_def)
      with \<open>s' = s\<close> show ?thesis by (blast intro: trans_le_add1)
    next
      case False
      show ?thesis by (rule gone [OF _ sy]) (use hr rc failed sy False in \<open>auto simp: handle_readable_def\<close>)
    qed
  next
    case bytes
    with received_event [OF env rel fd short rc _ hr] show ?thesis by blast
  qed
qed

subsection \<open>Accepting\<close>

lemma nonblocking_quiet:
  assumes "environment_ok os ob" "set_nonblocking os fd w = (ok, w')"
  shows "quiet ob w w'"
proof -
  note S = environment_parts(3) [OF assms(1)]
  obtain f w1 where 1: "sys_getfl os fd w = (f, w1)" by (cases "sys_getfl os fd w")
  obtain rc w2 where 2: "sys_setfl_nonblock os fd f w1 = (rc, w2)" by (cases "sys_setfl_nonblock os fd f w1")
  obtain rc' w3 where 3: "sys_ioctl_fionbio os fd w = (rc', w3)" by (cases "sys_ioctl_fionbio os fd w")
  have "quiet ob w w1" using S 1 unfolding streams_ok_def by (metis snd_conv)
  moreover have "quiet ob w1 w2" using S 2 unfolding streams_ok_def by (metis snd_conv)
  moreover have "quiet ob w w3" using S 3 unfolding streams_ok_def by (metis snd_conv)
  moreover have "w' = w1 \<or> w' = w2 \<or> w' = w3" using assms(2) 1 2 3 by (auto simp: set_nonblocking_def split: if_splits Platform.splits)
  ultimately show ?thesis using quiet_trans [of ob w w1 w2] by auto
qed

lemma arrive_event:
  assumes env: "environment_ok os ob" and rel: "net_rel z ob S evs s w"
    and fd: "fd \<notin> ob_open ob w" "ob_open ob w2 = insert fd (ob_open ob w)" "0 \<le> fd" "fd < ob_limit ob"
    and io: "ob_received ob w2 = (ob_received ob w)(fd := [])" "ob_delivered ob w2 = (ob_delivered ob w)(fd := [])"
    and acc: "sp_accept fd (ts_pipeline s) = (res, p)" and sy: "sync os p s w2 = (s1, w3)"
  shows "net_rel z ob S (evs @ [Arrive fd])
    (if res = Registered then s1\<lparr>ts_accepted := ts_accepted s1 + 1, ts_outbound := emplace_queue fd (ts_outbound s1)\<rparr>
     else s1\<lparr>ts_rejected := ts_rejected s1 + 1\<rparr>) w3"
    (is "net_rel _ _ _ _ ?s _")
proof -
  let ?T = "snd (spec_trace (as_step z) evs S)"
  note E = environment_parts [OF env]
  from rel have inv: "srv_inv (sz_book z) (ob_open ob) (ob_limit ob) s w" and sr: "server_rel z (ts_pipeline s) ?T"
    and st: "\<And>fd q. map_of (ts_outbound s) fd = Some q \<Longrightarrow>
      ob_delivered ob w fd @ q = owed fd (fst (spec_trace (as_step z) evs S)) \<and> ob_received ob w fd = fed fd evs"
    by (auto simp: net_rel_def)
  have inv': "srv_inv (sz_book z) (ob_open ob) (ob_limit ob) ?s w3"
    using accept_keeps_inv [OF inv E(1) fd acc sy] by auto
  have new: "fd \<notin> tracked (ts_pipeline s)" using inv fd(1) by (auto simp: srv_inv_def)
  then have qn: "map_of (ts_outbound s) fd = None" using inv by (simp add: map_of_no_key srv_inv_def keys_def)
  have tn: "as_tails ?T fd = None" using new sr tracked_tail [of "ts_pipeline s" fd] by (auto simp: server_rel_def pipe_rel_def)
  from arrive_ok [OF sr tn] acc have A: "fst (as_step z (Arrive fd) ?T) = [Admitted fd (res = Registered)]"
    "server_rel z p (snd (as_step z (Arrive fd) ?T))" by (auto simp: sp_step_def)
  note P = sync_parts [OF sy] and Q = sync_quiet [OF env sy]
  show ?thesis
  proof (rule net_rel_event [OF rel refl _ inv'])
    show "server_rel z (ts_pipeline ?s) (snd (as_step z (Arrive fd) ?T))" using A(2) P by simp
    show "ts_accepted ?s = ts_accepted s + of_nat (admissions True (fst (as_step z (Arrive fd) ?T)))"
      "ts_rejected ?s = ts_rejected s + of_nat (admissions False (fst (as_step z (Arrive fd) ?T)))" unfolding A(1) using P by auto
    show "may_occur (Arrive fd) ?T" using tn by simp
    fix k x
    assume "map_of (ts_outbound ?s) k = Some x"
    then show "ob_delivered ob w3 k @ x = fold (owe k) (fst (as_step z (Arrive fd) ?T)) (owed k (fst (spec_trace (as_step z) evs S)))
        \<and> ob_received ob w3 k = feed k (Arrive fd) (fed k evs)"
      unfolding A(1) using P Q io qn st [of k x] by (auto simp: quiet_def emplace_queue_def split: if_splits)
  qed
qed

lemma accepted_socket:
  assumes env: "environment_ok os ob" and acc: "sys_accept os l w = (fd, w1)" "\<not> invalid_socket os fd" and nb: "set_nonblocking os fd w1 = (ok, w2)"
  shows "fd \<notin> ob_open ob w" "ob_open ob w2 = insert fd (ob_open ob w)" "0 \<le> fd" "fd < ob_limit ob"
    "ob_received ob w2 = (ob_received ob w)(fd := [])" "ob_delivered ob w2 = (ob_delivered ob w)(fd := [])"
    "ob_backlog ob w2 < ob_backlog ob w" "ob_backlog ob (sys_close os fd w2) < ob_backlog ob w"
proof -
  note E = environment_parts [OF env]
  have o1: "fd \<notin> ob_open ob w" "ob_open ob w1 = insert fd (ob_open ob w)" "ob_backlog ob w1 < ob_backlog ob w" "fd < ob_limit ob" "0 \<le> fd"
    using acc E(1) unfolding system_ok_def by (metis (no_types, lifting))+
  have io1: "ob_received ob w1 = (ob_received ob w)(fd := [])" "ob_delivered ob w1 = (ob_delivered ob w)(fd := [])"
    using acc E(3) unfolding streams_ok_def by metis+
  note o2 = nonblocking_opened [OF E(1) nb] and q2 = nonblocking_quiet [OF env nb]
  have cl: "ob_backlog ob (sys_close os fd w2) \<le> ob_backlog ob w2" using E(1) by (simp add: system_ok_def)
  show "fd \<notin> ob_open ob w" "0 \<le> fd" "fd < ob_limit ob" using o1 by simp_all
  show "ob_open ob w2 = insert fd (ob_open ob w)" using o1(2) o2(1) by simp
  show "ob_received ob w2 = (ob_received ob w)(fd := [])" "ob_delivered ob w2 = (ob_delivered ob w)(fd := [])"
    using io1 q2 by (simp_all add: quiet_def)
  show "ob_backlog ob w2 < ob_backlog ob w" "ob_backlog ob (sys_close os fd w2) < ob_backlog ob w" using cl o1(3) o2(2) by simp_all
qed

lemma accept_events:
  assumes env: "environment_ok os ob" and "net_rel z ob S evs s w" "drain_accept os s w = Some (s', w')"
  shows "(\<exists>es. net_rel z ob S (evs @ es) s' w') \<and> (\<forall>k. queued_bytes s' k \<le> queued_bytes s k)"
  using assms(2,3)
proof (induction "ob_backlog ob w" arbitrary: evs s w rule: less_induct)
  case less
  note E = environment_parts [OF env]
  from less.prems(1) have inv: "srv_inv (sz_book z) (ob_open ob) (ob_limit ob) s w" by (simp add: net_rel_def)
  obtain fd w1 where acc: "sys_accept os (ts_listen_fd s) w = (fd, w1)" by (cases "sys_accept os (ts_listen_fd s) w")
  obtain ok w2 where nb: "set_nonblocking os fd w1 = (ok, w2)" by (cases "set_nonblocking os fd w1")
  consider (none) "invalid_socket os fd" | (refused) "\<not> invalid_socket os fd" "\<not> ok" | (new) "\<not> invalid_socket os fd" "ok" by blast
  then show ?case
  proof cases
    case none
    with less.prems(2) acc have r: "s' = s" "w' = w1" by (simp_all add: drain_accept.simps)
    have "quiet ob w w1" "ob_open ob w1 = ob_open ob w" using E(1,3) acc none unfolding streams_ok_def system_ok_def by meson+
    from net_rel_world [OF less.prems(1) this] r show ?thesis by (auto intro: exI [of _ "[]"])
  next
    case refused
    note A = accepted_socket [OF env acc refused(1) nb]
    let ?w = "close_native os fd w2"
    have "srv_inv (sz_book z) (ob_open ob) (ob_limit ob) s ?w"
      using inv A(1,2) close_opened [OF E(1), of fd w2] by (auto simp: srv_inv_def close_native_def)
    moreover have "fd \<notin> keys (ts_outbound s)" using inv A(1) by (auto simp: srv_inv_def)
    ultimately have "net_rel z ob S evs s ?w"
      by (intro net_rel_quiet [OF less.prems(1), of ?w s]) (use A(5,6) E(5) [of w2 fd] in \<open>auto simp: quiet_def close_native_def\<close>)
    moreover have "ob_backlog ob ?w < ob_backlog ob w" using A(8) by (simp add: close_native_def)
    moreover have "drain_accept os s ?w = Some (s', w')" using less.prems(2) acc nb refused by (simp add: drain_accept.simps [of os s w])
    ultimately show ?thesis using less.hyps by blast
  next
    case new
    note A = accepted_socket [OF env acc new(1) nb]
    obtain res p where a: "sp_accept fd (ts_pipeline s) = (res, p)" by (cases "sp_accept fd (ts_pipeline s)")
    obtain s1 w3 where sy: "sync os p s w2 = (s1, w3)" by (cases "sync os p s w2")
    note N = arrive_event [OF env less.prems(1) A(1-6) a sy]
    let ?s = "if res = Registered then s1\<lparr>ts_accepted := ts_accepted s1 + 1, ts_outbound := emplace_queue fd (ts_outbound s1)\<rparr>
      else s1\<lparr>ts_rejected := ts_rejected s1 + 1\<rparr>"
    have "w3 = w2 \<or> w3 = sys_close os fd w2" using accept_keeps_inv [OF inv E(1) A(1-4) a sy] by (auto split: if_splits)
    then have "ob_backlog ob w3 < ob_backlog ob w" using A(7,8) by auto
    moreover have "drain_accept os ?s w3 = Some (s', w')"
      using less.prems(2) acc nb a sy new by (simp add: drain_accept.simps [of os s w] split: if_splits)
    ultimately obtain es where es: "net_rel z ob S (evs @ [Arrive fd] @ es) s' w'" "\<And>k. queued_bytes s' k \<le> queued_bytes ?s k"
      using less.hyps [OF _ N] by auto
    have "queued_bytes ?s k \<le> queued_bytes s k" for k
      using sync_parts [OF sy] by (auto simp: queued_bytes_def emplace_queue_def split: option.splits if_splits)
    with es show ?thesis by (blast intro: order_trans)
  qed
qed

subsection \<open>Iterations\<close>

lemma write_events:
  assumes env: "environment_ok os ob" and "net_rel z ob S evs s w"
    and "for_each (\<lambda>fd (s, w). Some (handle_writable os fd s w)) fds (s, w) = Some (s', w')"
    and "\<And>fd. queued_bytes s fd < 2 ^ 31"
  shows "(\<exists>es. net_rel z ob S (evs @ es) s' w') \<and> (\<forall>k. queued_bytes s' k \<le> queued_bytes s k)"
  using assms(2-4)
proof (induction fds arbitrary: evs s w)
  case Nil
  then show ?case by (auto intro: exI [of _ "[]"])
next
  case (Cons fd fds)
  obtain s1 w1 where hw: "handle_writable os fd s w = (s1, w1)" by (cases "handle_writable os fd s w")
  from writable_event [OF env Cons.prems(1,3) hw] obtain es where
    es: "net_rel z ob S (evs @ es) s1 w1" "\<And>k. queued_bytes s1 k \<le> queued_bytes s k" by blast
  have "queued_bytes s1 k < 2 ^ 31" for k using es(2) [of k] Cons.prems(3) [of k] by (rule le_less_trans)
  from Cons.IH [OF es(1) _ this] Cons.prems(2) hw es(2) show ?case by (auto intro: order_trans)
qed

lemma read_events:
  assumes env: "environment_ok os ob" and "net_rel z ob S evs s w" "distinct fds" "set fds \<subseteq> tracked (ts_pipeline s)"
    and "for_each (\<lambda>fd (s, w). do { readable \<leftarrow> sys_FD_ISSET os fd rs; if readable then handle_readable os fd s w else Some (s, w) }) fds (s, w) = Some (s', w')"
    and "\<And>fd. fd \<in> set fds \<Longrightarrow> queued_bytes s fd + burst z < 2 ^ 31"
  shows "(\<exists>es. net_rel z ob S (evs @ es) s' w') \<and> (\<forall>k. queued_bytes s' k \<le> queued_bytes s k + (if k \<in> set fds then burst z else 0))"
  using assms(2-6)
proof (induction fds arbitrary: evs s w)
  case Nil
  then show ?case by (auto intro: exI [of _ "[]"])
next
  case (Cons fd fds)
  note E = environment_parts [OF env]
  from Cons.prems(1) have inv: "srv_inv (sz_book z) (ob_open ob) (ob_limit ob) s w" by (simp add: net_rel_def)
  from Cons.prems(3) have fd: "fd \<in> tracked (ts_pipeline s)" by simp
  from Cons.prems(4) obtain b s1 w1 where h: "(if b then handle_readable os fd s w else Some (s, w)) = Some (s1, w1)"
    "for_each (\<lambda>fd (s, w). do { readable \<leftarrow> sys_FD_ISSET os fd rs; if readable then handle_readable os fd s w else Some (s, w) }) fds (s1, w1) = Some (s', w')"
    by (auto simp: bind_eq_Some_conv)
  have "(\<exists>es. net_rel z ob S (evs @ es) s1 w1) \<and> (\<forall>k. queued_bytes s1 k \<le> queued_bytes s k + (if k = fd then burst z else 0))"
  proof (cases b)
    case True
    with h(1) readable_event [OF env Cons.prems(1) fd Cons.prems(5) [of fd]] show ?thesis by simp
  next
    case False
    with h(1) Cons.prems(1) show ?thesis by (auto intro: exI [of _ "[]"])
  qed
  then obtain es where es: "net_rel z ob S (evs @ es) s1 w1" "\<And>k. queued_bytes s1 k \<le> queued_bytes s k + (if k = fd then burst z else 0)" by blast
  have "tracked (ts_pipeline s) - {fd} \<subseteq> tracked (ts_pipeline s1)"
    using h(1) readable_keeps_inv [OF inv E(1) fd] by (cases b) auto
  then have tr: "set fds \<subseteq> tracked (ts_pipeline s1)" using Cons.prems(2,3) by auto
  have room: "queued_bytes s1 k + burst z < 2 ^ 31" if "k \<in> set fds" for k
  proof -
    have "k \<noteq> fd" using that Cons.prems(2) by auto
    then have "queued_bytes s1 k \<le> queued_bytes s k" using es(2) [of k] by simp
    with Cons.prems(5) [of k] that show ?thesis by simp
  qed
  have "distinct fds" using Cons.prems(2) by simp
  from Cons.IH [OF es(1) this tr h(2) room] obtain es' where
    es': "net_rel z ob S ((evs @ es) @ es') s' w'" "\<And>k. queued_bytes s' k \<le> queued_bytes s1 k + (if k \<in> set fds then burst z else 0)" by blast
  have "queued_bytes s' k \<le> queued_bytes s k + (if k \<in> set (fd # fds) then burst z else 0)" for k
    using es(2) [of k] es'(2) [of k] Cons.prems(2) by (auto split: if_splits)
  with es'(1) show ?case by (metis append_assoc)
qed

lemma run_once_events:
  assumes env: "environment_ok os ob" and rel: "net_rel z ob S evs s w" and ro: "run_once os s w = Some (s', w')"
    and room: "\<And>fd. queued_bytes s fd + burst z < 2 ^ 31"
  shows "(\<exists>es. net_rel z ob S (evs @ es) s' w') \<and> (\<forall>k. queued_bytes s' k \<le> queued_bytes s k + burst z)"
  using ro
proof (cases rule: run_once_select)
  case (1 m rs0 ws0 ready rs ws w1)
  note E = environment_parts [OF env]
  have "quiet ob w w1" using E(3) 1(1) unfolding streams_ok_def by (metis snd_conv)
  moreover have "ob_open ob w1 = ob_open ob w" using E(1) 1(1) unfolding system_ok_def by (metis snd_conv)
  ultimately have rel1: "net_rel z ob S evs s w1" by (rule net_rel_world [OF rel])
  from 1(2) show ?thesis
  proof
    assume "s' = s \<and> w' = w1"
    with rel1 show ?thesis by (auto intro: exI [of _ "[]"])
  next
    assume "serve_ready os rs ws s w1 = Some (s', w')"
    then show ?thesis
    proof (cases rule: serve_ready_phases)
      case (1 b s2 w2 s3 w3 l)
      obtain as where as: "net_rel z ob S (evs @ as) s2 w2" "\<And>k. queued_bytes s2 k \<le> queued_bytes s k"
      proof (cases b)
        case True
        with 1(1) accept_events [OF env rel1] that show ?thesis by auto
      next
        case False
        with 1(1) rel1 that [of "[]"] show ?thesis by simp
      qed
      then have inv2: "srv_inv (sz_book z) (ob_open ob) (ob_limit ob) s2 w2" by (simp add: net_rel_def)
      note R = inv_ranges [OF inv2 E(1,2)]
      have r2: "queued_bytes s2 k + burst z < 2 ^ 31" for k using as(2) [of k] room [of k] by simp
      from read_events [OF env as(1) R(4) _ 1(2) r2] R(5) obtain bs where
        bs: "net_rel z ob S ((evs @ as) @ bs) s3 w3" "\<And>k. queued_bytes s3 k \<le> queued_bytes s2 k + (if k \<in> tracked (ts_pipeline s2) then burst z else 0)" by auto
      have r3: "queued_bytes s3 k \<le> queued_bytes s2 k + burst z" for k using bs(2) [of k] by (auto split: if_splits)
      have "queued_bytes s3 k < 2 ^ 31" for k using r3 [of k] r2 [of k] by simp
      from write_events [OF env bs(1) 1(3) this] obtain cs where
        cs: "net_rel z ob S (((evs @ as) @ bs) @ cs) s' w'" "\<And>k. queued_bytes s' k \<le> queued_bytes s3 k" by blast
      have "queued_bytes s' k \<le> queued_bytes s k + burst z" for k using cs(2) [of k] r3 [of k] as(2) [of k] by simp
      with cs(1) show ?thesis by (metis append_assoc)
    qed
  qed
qed

lemma signal_event:
  assumes env: "environment_ok os ob" and rel: "net_rel z ob S evs s w" and sig: "take_signal os s w = (s', w')"
  shows "net_rel z ob S evs s' w'" "net_rel z ob S evs (s'\<lparr>ts_stop := b\<rparr>) w'"
proof -
  note E = environment_parts [OF env]
  have s': "w' = snd (sys_signalled os w)" "ts_pipeline s' = ts_pipeline s" "ts_outbound s' = ts_outbound s"
    "ts_accepted s' = ts_accepted s" "ts_rejected s' = ts_rejected s"
    using sig by (auto simp: take_signal_def stop_def split: prod.splits if_splits)
  moreover have "quiet ob w (snd (sys_signalled os w))" using E(3) by (simp add: streams_ok_def)
  moreover have "srv_inv (sz_book z) (ob_open ob) (ob_limit ob) s w" using rel by (simp add: net_rel_def)
  note take_signal_inv [OF E(1) this sig]
  ultimately show "net_rel z ob S evs s' w'" "net_rel z ob S evs (s'\<lparr>ts_stop := b\<rparr>) w'"
    by (intro net_rel_quiet [OF rel]; simp add: quiet_def)+
qed

text \<open>
  The queues are drained: whenever one of the first \<open>n\<close> iterations starts, every queue has still room
  for \<open>b\<close> bytes below \<open>2 ^ 31\<close>, the range of the length that \<open>send\<close> is given.
\<close>

definition drained :: "'w system \<Rightarrow> nat \<Rightarrow> nat \<Rightarrow> TcpServer \<Rightarrow> 'w \<Rightarrow> bool" where
  "drained os b n s w \<longleftrightarrow> (\<forall>j<n. \<forall>s' w'. passes os j s w = Some (s', w') \<longrightarrow> (\<forall>fd. queued_bytes s' fd + b < 2 ^ 31))"

lemma drained_step:
  assumes "drained os b (Suc n) s w" "take_signal os s w = (s0, w0)" "\<not> ts_stop s0" "run_once os s0 w0 = Some (s1, w1)"
  shows "drained os b n s1 w1" "queued_bytes s0 fd + b < 2 ^ 31"
proof -
  have "passes os (Suc j) s w = passes os j s1 w1" for j using assms(2-4) by simp
  with assms(1) show "drained os b n s1 w1" unfolding drained_def by (metis Suc_mono)
  have "queued_bytes s fd + b < 2 ^ 31" using assms(1) by (auto simp: drained_def dest: spec [of _ 0])
  moreover have "ts_outbound s0 = ts_outbound s" using assms(2) by (auto simp: take_signal_def stop_def split: prod.splits if_splits)
  ultimately show "queued_bytes s0 fd + b < 2 ^ 31" by (simp add: queued_bytes_def)
qed

lemma passes_events:
  assumes env: "environment_ok os ob" and "net_rel z ob S evs s w" "passes os k s w = Some (s', w')" "drained os (burst z) k s w"
  shows "\<exists>es. net_rel z ob S (evs @ es) s' w'"
  using assms(2-4)
proof (induction k arbitrary: evs s w)
  case 0
  then show ?case by (intro exI [of _ "[]"]) simp
next
  case (Suc k)
  obtain s0 w0 where sig: "take_signal os s w = (s0, w0)" by (cases "take_signal os s w")
  with Suc.prems(2) obtain s1 w1 where p: "\<not> ts_stop s0" "run_once os s0 w0 = Some (s1, w1)" "passes os k s1 w1 = Some (s', w')"
    by (auto simp: bind_eq_Some_conv split: if_splits)
  have rel0: "net_rel z ob S evs s0 w0" by (rule signal_event [OF env Suc.prems(1) sig])
  note D = drained_step [OF Suc.prems(3) sig p(1,2)]
  from run_once_events [OF env rel0 p(2) D(2)] obtain es where es: "net_rel z ob S (evs @ es) s1 w1" by blast
  from Suc.IH [OF es p(3) D(1)] obtain es' where "net_rel z ob S ((evs @ es) @ es') s' w'" by blast
  then show ?case by (intro exI [of _ "es @ es'"]) simp
qed

text \<open>Few iterations cannot queue that much: each adds at most a burst to a queue.\<close>

lemma few_passes_drained:
  assumes "environment_ok os ob" "net_rel z ob S evs s w" "\<And>fd. queued_bytes s fd + n * burst z < 2 ^ 31"
  shows "drained os (burst z) n s w"
proof -
  have "queued_bytes s' fd + burst z < 2 ^ 31" if "j < n" "passes os j s w = Some (s', w')" for j s' w' fd
    using assms(2,3) that
  proof (induction n arbitrary: evs s w j)
    case (Suc n)
    show ?case
    proof (cases j)
      case 0
      with Suc.prems(2) [of fd] Suc.prems(4) show ?thesis by simp
    next
      case (Suc i)
      obtain s0 w0 where sig: "take_signal os s w = (s0, w0)" by (cases "take_signal os s w")
      with Suc.prems(4) Suc obtain s1 w1 where p: "run_once os s0 w0 = Some (s1, w1)" "passes os i s1 w1 = Some (s', w')"
        by (auto simp: bind_eq_Some_conv split: if_splits)
      have rel0: "net_rel z ob S evs s0 w0" by (rule signal_event [OF assms(1) Suc.prems(1) sig])
      have "ts_outbound s0 = ts_outbound s" using sig by (auto simp: take_signal_def stop_def split: prod.splits if_splits)
      then have q0: "queued_bytes s0 k = queued_bytes s k" for k by (simp add: queued_bytes_def)
      have "queued_bytes s0 k + burst z < 2 ^ 31" for k using Suc.prems(2) [of k] q0 [of k] by simp
      from run_once_events [OF assms(1) rel0 p(1) this] obtain es where
        es: "net_rel z ob S (evs @ es) s1 w1" "\<And>k. queued_bytes s1 k \<le> queued_bytes s0 k + burst z" by blast
      have "queued_bytes s1 k + n * burst z < 2 ^ 31" for k using es(2) [of k] Suc.prems(2) [of k] q0 [of k] by simp
      from Suc.IH [OF es(1) this _ p(2)] Suc.prems(3) Suc show ?thesis by simp
    qed
  qed simp
  then show ?thesis by (simp add: drained_def)
qed

lemma passes_within:
  assumes "clock_ok os clock" "passes os k s w = Some (s', w')" "clock w \<le> enat n"
  shows "k \<le> n"
  using assms(2,3)
proof (induction k arbitrary: n s w)
  case (Suc k)
  obtain s0 w0 where sig: "take_signal os s w = (s0, w0)" by (cases "take_signal os s w")
  with Suc.prems(1) obtain s1 w1 where p: "\<not> ts_stop s0" "run_once os s0 w0 = Some (s1, w1)" "passes os k s1 w1 = Some (s', w')"
    by (auto simp: bind_eq_Some_conv split: if_splits)
  then have "\<not> fst (sys_signalled os w)" "w0 = snd (sys_signalled os w)"
    using sig by (auto simp: take_signal_def stop_def split: prod.splits if_splits)
  then have c: "0 < clock w0" "clock w0 \<le> enat n" using assms(1) Suc.prems(2) by (auto simp: clock_ok_def intro: order_trans)
  then obtain m where m: "clock w0 = enat m" "m \<le> n" by (cases "clock w0") auto
  then have "clock w1 < enat m" using run_once_ticks [OF assms(1) p(2) c(1)] by simp
  then obtain i where "clock w1 = enat i" "i < m" by (cases "clock w1") auto
  with Suc.IH [OF p(3), of i] m(2) show ?case by simp
qed simp

lemma drained_until_stop:
  assumes "environment_ok os ob" "net_rel z ob S evs s w" "clock_ok os clock" "clock w \<le> enat n" "\<And>fd. queued_bytes s fd + Suc n * burst z < 2 ^ 31"
  shows "drained os (burst z) m s w"
  using few_passes_drained [OF assms(1,2,5)] passes_within [OF assms(3) _ assms(4)] unfolding drained_def less_Suc_eq_le by blast

text \<open>With a stop signal due after at most \<open>n\<close> waits, the loop makes at most \<open>n\<close> iterations.\<close>

lemma run_loop_within:
  assumes "system_ok os opened bl maxfd" "limit_fits os maxfd" "clock_ok os clock" "srv_inv cp opened maxfd s w" "clock w \<le> enat n"
  shows "\<exists>k s1 w1 s' w'. k \<le> n \<and> passes os k s w = Some (s1, w1) \<and> take_signal os s1 w1 = (s', w') \<and> ts_stop s'
    \<and> run_loop os s w = Some (s', w')"
  using assms(4,5)
proof (induction n arbitrary: s w)
  case base: 0
  then have "clock w = 0" by (cases "clock w") (simp_all add: zero_enat_def)
  then have "fst (sys_signalled os w)" using assms(3) unfolding clock_ok_def by (metis less_irrefl)
  then show ?case by (subst run_loop.simps) (auto simp: take_signal_def stop_def split: prod.splits)
next
  case (Suc n)
  obtain s0 w0 where sig: "take_signal os s w = (s0, w0)" by (cases "take_signal os s w")
  note inv = take_signal_inv(1) [OF assms(1) Suc.prems(1) sig]
  show ?case
  proof (cases "ts_stop s0")
    case True
    with sig show ?thesis by (subst run_loop.simps) (intro exI [of _ 0], auto)
  next
    case False
    then have "\<not> fst (sys_signalled os w)" "w0 = snd (sys_signalled os w)"
      using sig by (auto simp: take_signal_def stop_def split: prod.splits if_splits)
    then have c: "0 < clock w0" "clock w0 \<le> enat (Suc n)" using assms(3) Suc.prems(2) by (auto simp: clock_ok_def intro: order_trans)
    from run_once_ok [OF inv assms(1,2)] obtain s1 w1 where s1: "run_once os s0 w0 = Some (s1, w1)" "srv_inv cp opened maxfd s1 w1" by blast
    have "clock w0 < \<infinity>" using c(2) by (cases "clock w0") auto
    from run_once_ticks [OF assms(3) s1(1) c(1) this] c(2) have "clock w1 \<le> enat n" by (cases "clock w1"; cases "clock w0") auto
    from Suc.IH [OF s1(2) this] obtain k s2 w2 s' w' where
      k: "k \<le> n" "passes os k s1 w1 = Some (s2, w2)" "take_signal os s2 w2 = (s', w')" "ts_stop s'" "run_loop os s1 w1 = Some (s', w')" by blast
    moreover have "run_loop os s w = run_loop os s1 w1" using False s1(1) sig by (subst run_loop.simps) simp
    moreover have "passes os (Suc k) s w = Some (s2, w2)" using False s1(1) sig k(2) by simp
    ultimately show ?thesis by (metis Suc_le_mono)
  qed
qed

lemma run_events:
  assumes env: "environment_ok os ob" and rel: "net_rel z ob S [] s w" and ck: "clock_ok os clock" "stop_due os clock w"
    and dr: "\<And>n. drained os (burst z) n (s\<lparr>ts_stop := False\<rparr>) (snd (sys_signalled os w))"
  shows "\<exists>s' w' evs. run os s w = Some (s', w') \<and> ts_stop s' \<and> net_rel z ob S evs s' w'"
proof -
  note E = environment_parts [OF env]
  obtain s0 w0 where sig: "take_signal os s w = (s0, w0)" by (cases "take_signal os s w")
  then have s0: "s0\<lparr>ts_stop := False\<rparr> = s\<lparr>ts_stop := False\<rparr>" "w0 = snd (sys_signalled os w)"
    by (auto simp: take_signal_def stop_def split: prod.splits if_splits)
  let ?s = "s\<lparr>ts_stop := False\<rparr>"
  have rel0: "net_rel z ob S [] ?s w0" using signal_event(2) [OF env rel sig, of False] s0(1) by simp
  then have inv: "srv_inv (sz_book z) (ob_open ob) (ob_limit ob) ?s w0" by (simp add: net_rel_def)
  from ck(2) s0(2) obtain n where "clock w0 \<le> enat n" by (cases "clock w0") (auto simp: stop_due_def due_def)
  from run_loop_within [OF E(1,2) ck(1) inv this] obtain k s1 w1 s' w' where
    k: "passes os k ?s w0 = Some (s1, w1)" "take_signal os s1 w1 = (s', w')" "ts_stop s'" "run_loop os ?s w0 = Some (s', w')" by blast
  from passes_events [OF env rel0 k(1) dr [folded s0(2)]] obtain evs where "net_rel z ob S evs s1 w1" by auto
  from signal_event(1) [OF env this k(2)] k(3,4) sig s0(1) show ?thesis by (auto simp: run_def)
qed

lemma net_rel_live:
  assumes "net_rel z ob S evs s w"
  shows "dom (map_of (ts_outbound s)) = dom (as_tails (snd (spec_trace (as_step z) evs S)))"
    "tracked (ts_pipeline s) = dom (as_tails (snd (spec_trace (as_step z) evs S)))"
proof -
  have "dom (map_of (ts_outbound s)) = tracked (ts_pipeline s)"
    using assms by (simp add: net_rel_def srv_inv_def keys_def dom_map_of_conv_image_fst)
  moreover show "tracked (ts_pipeline s) = dom (as_tails (snd (spec_trace (as_step z) evs S)))"
    using assms tracked_tail [of "ts_pipeline s"] by (auto simp: net_rel_def server_rel_def pipe_rel_def)
  ultimately show "dom (map_of (ts_outbound s)) = dom (as_tails (snd (spec_trace (as_step z) evs S)))" by simp
qed

subsection \<open>What the server promises\<close>

text \<open>
  C6. The TCP server refines the abstract server: started without connections, after any number \<open>k\<close> of
  iterations of its loop, and whatever the system calls returned, there is a sequence of connections,
  reads and teardowns such that the pipeline is where the abstract server is after them, the live
  connections are the abstract server's, what was received on each of them is what the abstract
  server was fed, and what was sent to it, followed by what is still queued, is exactly what the
  abstract server owes it: no byte is lost, repeated, reordered or sent to the wrong peer.  Its
  counters of accepted and rejected connections are the abstract server's admissions.  The condition
  is that the queues are drained: when one of these iterations starts, no connection has so many
  unsent bytes that the answers to one more read would bring its queue to \<open>2 ^ 31\<close> bytes, where the
  length passed to \<open>send\<close> leaves the range of an \<open>int\<close>.
\<close>

theorem tcp_server_refines_server:
  assumes "environment_ok os ob" "srv_inv (sz_book z) (ob_open ob) (ob_limit ob) s w" "server_rel z (ts_pipeline s) S" "ts_outbound s = []"
    and "accepted_count s = 0" "rejected_count s = 0" "passes os k s w = Some (s', w')" "drained os (sz_out z * kMaxMessageLen) k s w"
  shows "\<exists>evs. may_trace may_occur (as_step z) evs S \<and> server_rel z (ts_pipeline s') (snd (spec_trace (as_step z) evs S))
    \<and> dom (map_of (ts_outbound s')) = dom (as_tails (snd (spec_trace (as_step z) evs S)))
    \<and> (\<forall>fd q. map_of (ts_outbound s') fd = Some q \<longrightarrow>
         ob_delivered ob w' fd @ q = owed fd (fst (spec_trace (as_step z) evs S)) \<and> ob_received ob w' fd = fed fd evs)
    \<and> accepted_count s' = of_nat (admissions True (fst (spec_trace (as_step z) evs S)))
    \<and> rejected_count s' = of_nat (admissions False (fst (spec_trace (as_step z) evs S)))"
proof -
  have "net_rel z ob S [] s w" using assms(2-6) by (simp add: net_rel_def accepted_count_def rejected_count_def)
  from passes_events [OF assms(1) this assms(7)] assms(8) obtain evs where
    n: "net_rel z ob S evs s' w'" by (auto simp: burst_def)
  with net_rel_live(1) [OF n] show ?thesis by (auto simp: net_rel_def accepted_count_def rejected_count_def)
qed

definition demo_observers :: "World observers" where
  "demo_observers = \<lparr>ob_open = wo_open, ob_backlog = wo_backlog, ob_limit = 1024, ob_received = wo_received, ob_delivered = wo_sent\<rparr>"

definition demo_fresh :: TcpServer where
  "demo_fresh = \<lparr>ts_pipeline = pipeline_new 4 3 8 8 2, ts_poller = \<lparr>po_monitored = [], po_closed_count = 0\<rparr>, ts_host = [], ts_port = 0,
     ts_listen_fd = 3, ts_stop = False, ts_outbound = [], ts_accepted = 0, ts_rejected = 0, ts_closed = 0\<rparr>"

lemma demo_environment: "environment_ok demo_os demo_observers"
proof -
  have "take (min (length bs) n) bs = take n bs" for n and bs :: "u8 list" by (simp add: min_def)
  then have "streams_ok demo_os demo_observers"
    using demo_os_ok(2) by (auto simp: streams_ok_def demo_observers_def demo_os_def quiet_def invalid_socket_def Let_def)
  with demo_os_ok(1,6) show ?thesis by (simp add: environment_ok_def demo_observers_def)
qed

theorem tcp_server_refines_server_witness:
  "\<exists>s' w' evs. passes demo_os 1 demo_fresh (demo_world\<lparr>wo_open := {3}\<rparr>) = Some (s', w')
    \<and> server_rel (sizes_of 4 3 8 8 2) (ts_pipeline s') (snd (spec_trace (as_step (sizes_of 4 3 8 8 2)) evs server_start))
    \<and> (\<forall>fd q. map_of (ts_outbound s') fd = Some q \<longrightarrow>
         wo_sent w' fd @ q = owed fd (fst (spec_trace (as_step (sizes_of 4 3 8 8 2)) evs server_start)) \<and> wo_received w' fd = fed fd evs)"
proof -
  let ?z = "sizes_of 4 3 8 8 2" let ?w = "demo_world\<lparr>wo_open := {3}\<rparr>"
  have sr: "server_rel ?z (ts_pipeline demo_fresh) server_start"
    using server_start_rel [of 4 3 8 8 2] by (simp add: demo_fresh_def kNullNode_def)
  then have inv: "srv_inv (sz_book ?z) wo_open 1024 demo_fresh ?w"
    by (auto simp: server_rel_def srv_inv_def demo_fresh_def tracked_def keys_def pipeline_new_def registry_new_def)
  have "take_signal demo_os demo_fresh ?w = (demo_fresh, ?w)" by (simp add: take_signal_def demo_os_def demo_world_def)
  moreover from run_once_ok [OF inv demo_os_ok(1,6)] obtain s' w' where "run_once demo_os demo_fresh ?w = Some (s', w')" by blast
  ultimately have p: "passes demo_os 1 demo_fresh ?w = Some (s', w')" by (simp add: demo_fresh_def)
  have "srv_inv (sz_book ?z) (ob_open demo_observers) (ob_limit demo_observers) demo_fresh ?w" "ts_outbound demo_fresh = []"
    "accepted_count demo_fresh = 0" "rejected_count demo_fresh = 0" "drained demo_os (sz_out ?z * kMaxMessageLen) 1 demo_fresh ?w"
    using inv by (simp_all add: demo_observers_def demo_fresh_def sizes_of_def accepted_count_def rejected_count_def kMaxMessageLen_def wire_lengths
        drained_def queued_bytes_def)
  from tcp_server_refines_server [OF demo_environment this(1) sr this(2-4) p this(5)] p show ?thesis by (auto simp: demo_observers_def)
qed

end
