(* ===== verification/Select_Limit.thy ===== *)
theory Select_Limit
  imports Server_Trace
begin

text \<open>
  What the limit of \<open>select\<close> means for a server whose registry knows no such limit: on POSIX the server
  admits a connection whose descriptor it cannot watch, and on Windows an iteration reads from fewer
  connections than it may have.
\<close>

text \<open>
  What the manuals say.  POSIX: \<open>FD_SET\<close> and \<open>FD_ISSET\<close> are undefined on a descriptor outside the range
  of an \<open>fd_set\<close>.  Windows: an \<open>fd_set\<close> takes \<open>FD_SETSIZE\<close> members, and \<open>FD_SET\<close> on a full one has no
  effect.  Both: a set that \<open>select\<close> returns holds members of the one it was given.
\<close>

definition select_documented :: "'w system \<Rightarrow> bool" where
  "select_documented os \<longleftrightarrow>
     (\<forall>fd S. case platform os of
        Posix \<Rightarrow> (if 0 \<le> fd \<and> fd < fd_setsize os
           then (\<exists>S'. sys_FD_SET os fd S = Some S' \<and> set S' = insert fd (set S)) \<and> sys_FD_ISSET os fd S = Some (fd \<in> set S)
           else sys_FD_SET os fd S = None \<and> sys_FD_ISSET os fd S = None)
      | Windows \<Rightarrow> (\<exists>S'. sys_FD_SET os fd S = Some S' \<and> set S' = (if int (card (set S)) < fd_setsize os then insert fd (set S) else set S))
           \<and> sys_FD_ISSET os fd S = Some (fd \<in> set S))
     \<and> (\<forall>m rs ws w ready rs' ws' w'. sys_select os m rs ws w = (ready, rs', ws', w') \<and> 0 < ready \<longrightarrow> set rs' \<subseteq> set rs)"

text \<open>
  A connection is waiting: \<open>select\<close> will report the listening socket, \<open>accept\<close> will then return the
  descriptor \<open>fd\<close>, and making it non-blocking will succeed.
\<close>

definition waiting :: "'w system \<Rightarrow> TcpServer \<Rightarrow> 'w \<Rightarrow> int \<Rightarrow> bool" where
  "waiting os s w fd \<longleftrightarrow> \<not> invalid_socket os fd \<and> (\<forall>m rs ws. ts_listen_fd s \<in> set rs \<longrightarrow>
     (case sys_select os m rs ws w of (ready, rs', ws', w') \<Rightarrow> 0 < ready \<and> ts_listen_fd s \<in> set rs'
        \<and> (case sys_accept os (ts_listen_fd s) w' of (c, w') \<Rightarrow> c = fd \<and> fst (set_nonblocking os fd w'))))"

lemma select_subset:
  "select_documented os \<Longrightarrow> sys_select os m rs ws w = (ready, rs', ws', w') \<Longrightarrow> 0 < ready \<Longrightarrow> set rs' \<subseteq> set rs"
  unfolding select_documented_def by blast

lemma posix_law:
  assumes "platform os = Posix" "select_documented os"
  shows "sys_FD_SET os fd S = Some S' \<Longrightarrow> set S' = insert fd (set S)" "fd_setsize os \<le> fd \<Longrightarrow> sys_FD_ISSET os fd S = None"
    "fd \<in> set S \<Longrightarrow> sys_FD_ISSET os fd S = Some True \<or> sys_FD_ISSET os fd S = None"
proof -
  have law: "if 0 \<le> fd \<and> fd < fd_setsize os
           then (\<exists>S'. sys_FD_SET os fd S = Some S' \<and> set S' = insert fd (set S)) \<and> sys_FD_ISSET os fd S = Some (fd \<in> set S)
           else sys_FD_SET os fd S = None \<and> sys_FD_ISSET os fd S = None"
    using assms(2) [unfolded select_documented_def, THEN conjunct1, rule_format, of fd S] assms(1) by simp
  then show "sys_FD_SET os fd S = Some S' \<Longrightarrow> set S' = insert fd (set S)" "fd_setsize os \<le> fd \<Longrightarrow> sys_FD_ISSET os fd S = None"
    "fd \<in> set S \<Longrightarrow> sys_FD_ISSET os fd S = Some True \<or> sys_FD_ISSET os fd S = None" by (auto split: if_splits)
qed

lemma windows_law:
  assumes "platform os = Windows" "select_documented os"
  shows "\<exists>S'. sys_FD_SET os fd S = Some S' \<and> set S' = (if int (card (set S)) < fd_setsize os then insert fd (set S) else set S)"
    "sys_FD_ISSET os fd S = Some (fd \<in> set S)"
  using assms(2) [unfolded select_documented_def, THEN conjunct1, rule_format, of fd S] assms(1) by simp_all

lemma watch_Cons:
  "for_each (watch os) (fd # fds) (S, m) = do { S1 \<leftarrow> sys_FD_SET os fd S; for_each (watch os) fds (S1, if fd > m then fd else m) }"
  by (cases "sys_FD_SET os fd S") (simp_all add: watch_def)

subsection \<open>POSIX\<close>

lemma for_each_None: "x \<in> set xs \<Longrightarrow> (\<And>a. f x a = None) \<Longrightarrow> for_each f xs a = None"
proof (induction xs arbitrary: a)
  case (Cons y ys)
  then show ?case by (cases "f y a") auto
qed simp

lemma watch_keeps_members:
  assumes "platform os = Posix" "select_documented os" "for_each (watch os) fds (S, m) = Some (S', m')"
  shows "set S \<subseteq> set S'"
  using assms(3)
proof (induction fds arbitrary: S m)
  case (Cons fd fds)
  from Cons.prems obtain S1 where S1: "sys_FD_SET os fd S = Some S1" "for_each (watch os) fds (S1, if fd > m then fd else m) = Some (S', m')"
    unfolding watch_Cons by (auto simp: bind_eq_Some_conv)
  have "set S \<subseteq> set S1" using posix_law(1) [OF assms(1,2) S1(1)] by auto
  with Cons.IH [OF S1(2)] show ?case by blast
qed simp

text \<open>The server admits the waiting connection, whatever its descriptor.\<close>

lemma admits_waiting:
  assumes inv: "srv_inv cp opened maxfd s w" and os: "system_ok os opened bl maxfd"
    and acc: "sys_accept os (ts_listen_fd s) w = (fd, w1)" "\<not> invalid_socket os fd" "set_nonblocking os fd w1 = (True, w2)"
    and room: "length (cr_connections (sp_registry (ts_pipeline s))) < unat (cr_max_connections (sp_registry (ts_pipeline s)))"
  shows "\<exists>s' w'. drain_accept os s w = Some (s', w') \<and> srv_inv cp opened maxfd s' w' \<and> fd \<in> tracked (ts_pipeline s')"
proof -
  from acc(1,2) os have o1: "fd \<notin> opened w" "opened w1 = insert fd (opened w)" "fd < maxfd" "0 \<le> fd"
    unfolding system_ok_def by (metis (no_types, lifting))+
  have w2: "opened w2 = insert fd (opened w)" using o1(2) nonblocking_opened(1) [OF os acc(3)] by simp
  obtain res p where a: "sp_accept fd (ts_pipeline s) = (res, p)" by (cases "sp_accept fd (ts_pipeline s)")
  with room have res: "res = Registered" by (auto simp: sp_accept_def accept_def)
  obtain s1 w3 where sy: "sync os p s w2 = (s1, w3)" by (cases "sync os p s w2")
  let ?s = "s1\<lparr>ts_accepted := ts_accepted s1 + 1, ts_outbound := emplace_queue fd (ts_outbound s1)\<rparr>"
  from accept_keeps_inv [OF inv os o1(1) w2 o1(4,3) a sy] res have
    K: "srv_inv cp opened maxfd ?s w3" "fd \<in> tracked (ts_pipeline ?s)" by auto
  from drain_accept_ok [OF os K(1)] obtain s' w' where
    d: "drain_accept os ?s w3 = Some (s', w')" "srv_inv cp opened maxfd s' w'" "tracked (ts_pipeline ?s) \<subseteq> tracked (ts_pipeline s')" by blast
  have "drain_accept os s w = drain_accept os ?s w3" using acc a sy res by (subst drain_accept.simps) simp
  with d K(2) show ?thesis by auto
qed

lemma posix_undefined:
  assumes inv: "srv_inv cp opened maxfd s w" and os: "system_ok os opened bl maxfd" and px: "platform os = Posix" and doc: "select_documented os"
    and wt: "waiting os s w fd" and big: "fd_setsize os \<le> fd"
    and room: "length (cr_connections (sp_registry (ts_pipeline s))) < unat (cr_max_connections (sp_registry (ts_pipeline s)))"
  shows "run_once os s w = None"
proof (rule ccontr)
  assume "run_once os s w \<noteq> None"
  then obtain r where "run_once os s w = Some r" by blast
  then obtain rs0 rs m ws m' where r: "sys_FD_SET os (ts_listen_fd s) [] = Some rs0"
    "for_each (watch os) (iter_order os (po_monitored (ts_poller s))) (rs0, ts_listen_fd s) = Some (rs, m)"
    "(case sys_select os (m' + 1) rs ws w of (ready, rs, ws, w1) \<Rightarrow>
      if ready < 0 then Some (s, w1) else if ready = 0 then Some (s, w1) else serve_ready os rs ws s w1) = Some r"
    unfolding run_once_def bind_pair_Some Let_def px by (auto simp only: bind_eq_Some_conv bind_pair_Some Platform.case)
  have "ts_listen_fd s \<in> set rs0" using posix_law(1) [OF px doc r(1)] by simp
  with watch_keeps_members [OF px doc r(2)] have l: "ts_listen_fd s \<in> set rs" by blast
  obtain ready rs' ws' w1 where sel: "sys_select os (m' + 1) rs ws w = (ready, rs', ws', w1)" by (cases "sys_select os (m' + 1) rs ws w")
  obtain c w2 where acc: "sys_accept os (ts_listen_fd s) w1 = (c, w2)" by (cases "sys_accept os (ts_listen_fd s) w1")
  from wt have "\<not> invalid_socket os fd" and
    "case sys_select os (m' + 1) rs ws w of (ready, rs', ws', w') \<Rightarrow> 0 < ready \<and> ts_listen_fd s \<in> set rs'
        \<and> (case sys_accept os (ts_listen_fd s) w' of (c, w') \<Rightarrow> c = fd \<and> fst (set_nonblocking os fd w'))"
    using wt [unfolded waiting_def, THEN conjunct2, rule_format, OF l, of "m' + 1" ws] by (simp_all add: waiting_def)
  then have W: "\<not> invalid_socket os fd" "0 < ready" "ts_listen_fd s \<in> set rs'" "c = fd" "fst (set_nonblocking os fd w2)"
    unfolding sel acc prod.case by simp_all
  obtain w3 where nb: "set_nonblocking os fd w2 = (True, w3)" using W(5) by (cases "set_nonblocking os fd w2") auto
  from r(3) sel W(2) have sr: "serve_ready os rs' ws' s w1 = Some r" by simp
  have "opened w1 = opened w" using os sel unfolding system_ok_def by (metis snd_conv)
  then have inv1: "srv_inv cp opened maxfd s w1" using inv by (simp add: srv_inv_def)
  from admits_waiting [OF inv1 os acc [unfolded W(4)] W(1) nb room] obtain s2 w4 where
    s2: "drain_accept os s w1 = Some (s2, w4)" "srv_inv cp opened maxfd s2 w4" "fd \<in> tracked (ts_pipeline s2)" by blast
  have "fd \<in> set (iter_order os (po_monitored (ts_poller s2)))" using s2(2,3) os by (simp add: srv_inv_def system_ok_def)
  moreover have "sys_FD_ISSET os fd rs' = None" by (rule posix_law(2) [OF px doc big])
  ultimately have "for_each (\<lambda>fd (s, w). do { readable \<leftarrow> sys_FD_ISSET os fd rs'; if readable then handle_readable os fd s w else Some (s, w) })
      (iter_order os (po_monitored (ts_poller s2))) (s2, w4) = None" by (intro for_each_None) auto
  moreover have "sys_FD_ISSET os (ts_listen_fd s) rs' = Some True \<or> sys_FD_ISSET os (ts_listen_fd s) rs' = None"
    by (rule posix_law(3) [OF px doc W(3)])
  ultimately show False using sr s2(1) unfolding serve_ready_def by auto
qed

subsection \<open>Windows\<close>

lemma windows_environment:
  assumes "platform os = Windows" "select_documented os" "system_ok os (ob_open ob) (ob_backlog ob) (ob_limit ob)" "streams_ok os ob"
  shows "environment_ok os ob"
  using assms(3,4) windows_law [OF assms(1,2)] assms(1) by (auto simp: environment_ok_def limit_fits_def) blast

lemma watch_windows:
  assumes "platform os = Windows" "select_documented os" "int (card (set S)) \<le> fd_setsize os" "for_each (watch os) fds (S, m) = Some (S', m')"
  shows "int (card (set S')) \<le> fd_setsize os \<and> set S \<subseteq> set S'"
  using assms(3,4)
proof (induction fds arbitrary: S m)
  case (Cons fd fds)
  from windows_law(1) [OF assms(1,2), of fd S] obtain S1 where
    S1: "sys_FD_SET os fd S = Some S1" "set S1 = (if int (card (set S)) < fd_setsize os then insert fd (set S) else set S)" by blast
  have "card (insert fd (set S)) \<le> Suc (card (set S))" by (rule card_insert_le_m1) simp_all
  then have "int (card (set S1)) \<le> fd_setsize os" using S1(2) Cons.prems(1) by auto
  from Cons.IH [OF this] Cons.prems(2) S1 show ?case unfolding watch_Cons by (auto split: if_splits)
qed simp

text \<open>Accepting reads nothing from a connection that is already there.\<close>

lemma accept_reads_nothing:
  assumes env: "environment_ok os ob"
    and "srv_inv cp (ob_open ob) (ob_limit ob) s w" "k \<in> tracked (ts_pipeline s)" "drain_accept os s w = Some (s', w')"
  shows "ob_received ob w' k = ob_received ob w k"
  using assms(2-4)
proof (induction "ob_backlog ob w" arbitrary: s w rule: less_induct)
  case less
  note E = environment_parts [OF env]
  obtain fd w1 where acc: "sys_accept os (ts_listen_fd s) w = (fd, w1)" by (cases "sys_accept os (ts_listen_fd s) w")
  obtain ok w2 where nb: "set_nonblocking os fd w1 = (ok, w2)" by (cases "set_nonblocking os fd w1")
  consider (none) "invalid_socket os fd" | (refused) "\<not> invalid_socket os fd" "\<not> ok" | (new) "\<not> invalid_socket os fd" "ok" by blast
  then show ?case
  proof cases
    case none
    with less.prems(3) acc have "w' = w1" by (simp add: drain_accept.simps)
    moreover have "quiet ob w w1" using E(3) acc none unfolding streams_ok_def by meson
    ultimately show ?thesis by (simp add: quiet_def)
  next
    case refused
    note A = accepted_socket [OF env acc refused(1) nb]
    let ?w = "close_native os fd w2"
    have "srv_inv cp (ob_open ob) (ob_limit ob) s ?w"
      using less.prems(1) A(1,2) close_opened [OF E(1), of fd w2] by (auto simp: srv_inv_def close_native_def)
    moreover have "ob_backlog ob ?w < ob_backlog ob w" using A(8) by (simp add: close_native_def)
    moreover have "drain_accept os s ?w = Some (s', w')" using less.prems(3) acc nb refused by (simp add: drain_accept.simps [of os s w])
    ultimately have "ob_received ob w' k = ob_received ob ?w k" using less.hyps less.prems(2) by blast
    moreover have "fd \<noteq> k" using less.prems(1,2) A(1) by (auto simp: srv_inv_def)
    ultimately show ?thesis using A(5) E(5) [of w2 fd] by (simp add: quiet_def close_native_def)
  next
    case new
    note A = accepted_socket [OF env acc new(1) nb]
    obtain res p where a: "sp_accept fd (ts_pipeline s) = (res, p)" by (cases "sp_accept fd (ts_pipeline s)")
    obtain s1 w3 where sy: "sync os p s w2 = (s1, w3)" by (cases "sync os p s w2")
    note K = accept_keeps_inv [OF less.prems(1) E(1) A(1-4) a sy]
    let ?s = "if res = Registered then s1\<lparr>ts_accepted := ts_accepted s1 + 1, ts_outbound := emplace_queue fd (ts_outbound s1)\<rparr>
      else s1\<lparr>ts_rejected := ts_rejected s1 + 1\<rparr>"
    have "w3 = w2 \<or> w3 = sys_close os fd w2" using K by (auto split: if_splits)
    then have "ob_backlog ob w3 < ob_backlog ob w" "quiet ob w2 w3" using A(7,8) E(5) [of w2 fd] quiet_refl by auto
    moreover have "srv_inv cp (ob_open ob) (ob_limit ob) ?s w3" "k \<in> tracked (ts_pipeline ?s)" using K less.prems(2) by (auto split: if_splits)
    moreover have "drain_accept os ?s w3 = Some (s', w')"
      using less.prems(3) acc nb a sy new by (simp add: drain_accept.simps [of os s w] split: if_splits)
    ultimately have "ob_received ob w' k = ob_received ob w2 k" by (simp add: less.hyps quiet_def)
    moreover have "fd \<noteq> k" using less.prems(1,2) A(1) by (auto simp: srv_inv_def)
    ultimately show ?thesis using A(5) by simp
  qed
qed

lemma unreported_unread:
  assumes env: "environment_ok os ob" and win: "platform os = Windows" "select_documented os"
    and inv: "srv_inv cp (ob_open ob) (ob_limit ob) s w" "fd \<in> tracked (ts_pipeline s)" "fd \<notin> set rs"
    and sr: "serve_ready os rs ws s w = Some (s', w')"
  shows "ob_received ob w' fd = ob_received ob w fd"
  using sr
proof (cases rule: serve_ready_phases)
  case (1 b s2 w2 s3 w3 l)
  let ?I = "{v. ob_received ob v fd = ob_received ob w fd}"
  note E = environment_parts [OF env]
  have keep: "calls_keep os ?I" using E(3) by (auto simp: calls_keep_def streams_ok_def quiet_def)
  have recv: "recv_keeps os ?I k" if "k \<noteq> fd" for k
  proof -
    have "ob_received ob (snd (snd (sys_recv os k n v))) fd = ob_received ob v fd" for n v
    proof -
      obtain m bs v' where r: "sys_recv os k n v = (m, bs, v')" by (cases "sys_recv os k n v")
      then have "ob_received ob v' = (if m > 0 then (ob_received ob v)(k := ob_received ob v k @ take (nat m) bs) else ob_received ob v)"
        using E(3) unfolding streams_ok_def by blast
      with r that show ?thesis by simp
    qed
    then show ?thesis by (simp add: recv_keeps_def)
  qed
  have w2: "w2 \<in> ?I" using 1(1) accept_reads_nothing [OF env inv(1,2)] by (cases b) auto
  have "w3 \<in> ?I"
    using keep_reads [OF keep w2 _ 1(2)] recv windows_law(2) [OF win] inv(3) by (metis (mono_tags, lifting))
  with keep_writes [OF keep _ 1(3)] show ?thesis by blast
qed

lemma windows_reads_few:
  assumes win: "platform os = Windows" "select_documented os" and os: "system_ok os (ob_open ob) (ob_backlog ob) (ob_limit ob)" "streams_ok os ob"
    and inv: "srv_inv cp (ob_open ob) (ob_limit ob) s w" and size: "0 < fd_setsize os" and run: "run_once os s w = Some (s', w')"
  shows "int (card {fd \<in> tracked (ts_pipeline s). ob_received ob w' fd \<noteq> ob_received ob w fd}) < fd_setsize os"
proof -
  note env = windows_environment [OF win os]
  let ?read = "{fd \<in> tracked (ts_pipeline s). ob_received ob w' fd \<noteq> ob_received ob w fd}"
  from run obtain rs0 rs m ws m' where r: "sys_FD_SET os (ts_listen_fd s) [] = Some rs0"
    "for_each (watch os) (iter_order os (po_monitored (ts_poller s))) (rs0, ts_listen_fd s) = Some (rs, m)"
    "(case sys_select os 0 rs ws w of (ready, rs, ws, w1) \<Rightarrow>
      if ready < 0 then Some (s, w1) else if ready = 0 then Some (s, w1) else serve_ready os rs ws s w1) = Some (s', w')"
    unfolding run_once_def bind_pair_Some Let_def win(1) by (auto simp only: bind_eq_Some_conv bind_pair_Some Platform.case)
  have rs0: "set rs0 = {ts_listen_fd s}" using windows_law(1) [OF win, of "ts_listen_fd s" "[]"] r(1) size by simp
  with watch_windows [OF win _ r(2)] size have rs: "int (card (set rs)) \<le> fd_setsize os" "ts_listen_fd s \<in> set rs" by auto
  obtain ready rs' ws' w1 where sel: "sys_select os 0 rs ws w = (ready, rs', ws', w1)" by (cases "sys_select os 0 rs ws w")
  have q: "quiet ob w w1" using os(2) sel unfolding streams_ok_def by (metis snd_conv)
  have "ob_open ob w1 = ob_open ob w" using os(1) sel unfolding system_ok_def by (metis snd_conv)
  then have inv1: "srv_inv cp (ob_open ob) (ob_limit ob) s w1" using inv by (simp add: srv_inv_def)
  have "ts_listen_fd s \<notin> tracked (ts_pipeline s)" using inv by (simp add: srv_inv_def)
  have "?read \<subseteq> set rs - {ts_listen_fd s}"
  proof (cases "0 < ready")
    case False
    with r(3) sel have "w' = w1" by (auto split: if_splits)
    with q show ?thesis by (auto simp: quiet_def)
  next
    case True
    with r(3) sel have sr: "serve_ready os rs' ws' s w1 = Some (s', w')" by simp
    have "fd \<in> set rs'" if "fd \<in> ?read" for fd
      using that unreported_unread [OF env win inv1 _ _ sr, of fd] q by (auto simp: quiet_def)
    with select_subset [OF win(2) sel True] \<open>ts_listen_fd s \<notin> tracked (ts_pipeline s)\<close> show ?thesis by auto
  qed
  then have "card ?read \<le> card (set rs - {ts_listen_fd s})" by (intro card_mono) simp_all
  also have "\<dots> < card (set rs)" using rs(2) by (intro card_Diff1_less) simp_all
  finally show ?thesis using rs(1) by simp
qed

subsection \<open>The limit\<close>

text \<open>
  C21. The limit of \<open>select\<close> is real.  On POSIX the server admits a connection without looking at its
  descriptor: if one waits, is given a descriptor of \<open>FD_SETSIZE\<close> or more and made non-blocking, and the
  registry is below its cap, then the iteration that accepts it addresses memory outside an \<open>fd_set\<close>.
  On Windows every iteration returns, but however many connections there are and however much they
  have sent, it reads from fewer than \<open>FD_SETSIZE\<close> of them.  The macros and \<open>select\<close> are those of the
  manuals.
\<close>

theorem select_limit_is_real:
  assumes "system_ok os (ob_open ob) (ob_backlog ob) (ob_limit ob)" "streams_ok os ob" "select_documented os" "0 < fd_setsize os"
    and "srv_inv cp (ob_open ob) (ob_limit ob) s w"
  shows "case platform os of
      Posix \<Rightarrow> \<forall>fd. waiting os s w fd \<and> fd_setsize os \<le> fd
          \<and> length (cr_connections (sp_registry (ts_pipeline s))) < unat (cr_max_connections (sp_registry (ts_pipeline s)))
        \<longrightarrow> run_once os s w = None
    | Windows \<Rightarrow> \<exists>s' w'. run_once os s w = Some (s', w')
        \<and> int (card {fd \<in> tracked (ts_pipeline s). ob_received ob w' fd \<noteq> ob_received ob w fd}) < fd_setsize os"
proof (cases "platform os")
  case Posix
  with posix_undefined [OF assms(5,1) Posix assms(3)] show ?thesis by (simp only: Platform.case) blast
next
  case Windows
  note env = windows_environment [OF Windows assms(3,1,2)]
  from run_once_ok [OF assms(5,1) environment_parts(2) [OF env]] obtain s' w' where r: "run_once os s w = Some (s', w')" by blast
  with windows_reads_few [OF Windows assms(3,1,2,5,4) r] Windows show ?thesis by auto
qed

text \<open>
  The small operating system with room for descriptors below 6, and as a Windows with sets of one
  socket, which the listening socket fills.
\<close>

definition small_posix :: "World system" where
  "small_posix = demo_os\<lparr>fd_setsize := 6, sys_FD_SET := (\<lambda>fd S. if 0 \<le> fd \<and> fd < 6 then Some (fd # S) else None),
     sys_FD_ISSET := (\<lambda>fd S. if 0 \<le> fd \<and> fd < 6 then Some (fd \<in> set S) else None)\<rparr>"

definition small_windows :: "World system" where
  "small_windows = demo_os\<lparr>platform := Windows, fd_setsize := 1, sys_FD_SET := (\<lambda>fd S. Some (if card (set S) < 1 then fd # S else S)),
     sys_FD_ISSET := (\<lambda>fd S. Some (fd \<in> set S))\<rparr>"

lemma small_ok:
  assumes "os = small_posix \<or> os = small_windows"
  shows "system_ok os (ob_open demo_observers) (ob_backlog demo_observers) (ob_limit demo_observers)" "streams_ok os demo_observers"
    "select_documented os" "0 < fd_setsize os"
proof -
  show "system_ok os (ob_open demo_observers) (ob_backlog demo_observers) (ob_limit demo_observers)"
    using assms by (elim disjE) (auto simp: system_ok_def small_posix_def small_windows_def demo_observers_def demo_os_def invalid_socket_def)
  have same: "sys_send os = sys_send demo_os" "sys_recv os = sys_recv demo_os" "sys_accept os = sys_accept demo_os" "sys_getfl os = sys_getfl demo_os"
    "sys_ioctl_fionbio os = sys_ioctl_fionbio demo_os" "sys_close os = sys_close demo_os" "sys_setfl_nonblock os = sys_setfl_nonblock demo_os"
    "sys_select os = sys_select demo_os" "sys_signalled os = sys_signalled demo_os" "sys_wsacleanup os = sys_wsacleanup demo_os"
    using assms by (auto simp: small_posix_def small_windows_def)
  have "invalid_socket os c = invalid_socket demo_os c" if "sys_accept demo_os l w = (c, w')" for c l w w'
    using assms that by (auto simp: small_posix_def small_windows_def demo_os_def invalid_socket_def split: if_splits)
  moreover have "sends_ok os delivered = sends_ok demo_os delivered" for delivered by (simp only: sends_ok_def same)
  ultimately show "streams_ok os demo_observers"
    using environment_parts(3) [OF demo_environment] unfolding streams_ok_def same by (elim conjE, intro conjI; simp)
  show "select_documented os" "0 < fd_setsize os" using assms by (auto simp: select_documented_def small_posix_def small_windows_def demo_os_def)
qed

theorem select_limit_is_real_witness:
  "run_once small_posix (demo_server 3 []) (demo_world\<lparr>wo_open := {3, 5}\<rparr>) = None
   \<and> (\<exists>s' w'. run_once small_windows (demo_server 3 []) (demo_world\<lparr>wo_open := {3, 5}, wo_inbox := [1, 2, 3]\<rparr>) = Some (s', w')
       \<and> wo_received w' 5 = wo_received demo_world 5)"
proof
  let ?s = "demo_server 3 []"
  have tr: "tracked (ts_pipeline ?s) = {5}" using arg_cong [OF demo_connections, of set] by (simp add: tracked_def demo_server_def)
  show "run_once small_posix ?s (demo_world\<lparr>wo_open := {3, 5}\<rparr>) = None"
  proof -
    let ?w = "demo_world\<lparr>wo_open := {3, 5}\<rparr>"
    note small_ok [of small_posix]
    moreover have "srv_inv (4, 3) (ob_open demo_observers) (ob_limit demo_observers) ?s ?w" using demo_server_inv [of ?w 3 "[]"] by (simp add: demo_observers_def)
    moreover have "waiting small_posix ?s ?w 7"
      by (simp add: waiting_def small_posix_def demo_os_def demo_world_def demo_server_def invalid_socket_def set_nonblocking_def)
    moreover have "length (cr_connections (sp_registry (ts_pipeline ?s))) < unat (cr_max_connections (sp_registry (ts_pipeline ?s)))"
      using arg_cong [OF demo_connections, of length]
      by (simp add: demo_server_def demo_pipeline_def sp_accept_sel pipeline_new_def accept_def registry_new_def try_emplace_def poller_call_def)
    moreover have "platform small_posix = Posix" "fd_setsize small_posix \<le> 7" by (simp_all add: small_posix_def demo_os_def)
    ultimately show ?thesis using select_limit_is_real [of small_posix demo_observers "(4, 3)" ?s ?w] by auto
  qed
  show "\<exists>s' w'. run_once small_windows ?s (demo_world\<lparr>wo_open := {3, 5}, wo_inbox := [1, 2, 3]\<rparr>) = Some (s', w')
       \<and> wo_received w' 5 = wo_received demo_world 5"
  proof -
    let ?w = "demo_world\<lparr>wo_open := {3, 5}, wo_inbox := [1, 2, 3]\<rparr>"
    note small_ok [of small_windows]
    moreover have "srv_inv (4, 3) (ob_open demo_observers) (ob_limit demo_observers) ?s ?w" using demo_server_inv [of ?w 3 "[]"] by (simp add: demo_observers_def)
    moreover have "platform small_windows = Windows" "fd_setsize small_windows = 1" by (simp_all add: small_windows_def demo_os_def)
    ultimately obtain s' w' where r: "run_once small_windows ?s ?w = Some (s', w')"
        "card {fd \<in> {5}. wo_received w' fd \<noteq> wo_received ?w fd} = 0"
      using select_limit_is_real [of small_windows demo_observers "(4, 3)" ?s ?w] tr by (auto simp: demo_observers_def)
    then have "{fd \<in> {5}. wo_received w' fd \<noteq> wo_received ?w fd} = {}" by simp
    then have "wo_received w' 5 = wo_received ?w 5" by blast
    with r(1) show ?thesis by auto
  qed
qed

end
