(* ===== verification/Server_Main.thy ===== *)
theory Server_Main
  imports Server_Trace
begin

unbundle bit_operations_syntax

text \<open>
  \<open>main.cpp\<close> of the engine server: the command line, and the program from start-up to clean
  shutdown.  The arguments are those after the program name; what the program prints is a list of
  lines; the operating system is the parameter of \<open>Tcp_Server\<close>.
\<close>

datatype Output = Stdout string | Stderr string

record Options =
  opt_host :: string
  opt_port :: "16 word"
  opt_max_connections :: u32

definition default_options :: Options where
  "default_options = \<lparr>opt_host = ''0.0.0.0'', opt_port = 9001, opt_max_connections = kMaxConnections\<rparr>"

text \<open>
  \<open>std::strtoul\<close> in base 10: leading white space, an optional sign, digits; \<open>ULONG_MAX\<close> when out of
  range.  An \<open>unsigned long\<close> has 64 bits on POSIX and 32 bits on Windows; the value is returned in 64.
\<close>

definition is_space :: "char \<Rightarrow> bool" where
  "is_space c \<longleftrightarrow> of_char c \<in> {32, 9, 10, 11, 12, 13 :: nat}"

definition is_digit :: "char \<Rightarrow> bool" where
  "is_digit c \<longleftrightarrow> 48 \<le> (of_char c :: nat) \<and> (of_char c :: nat) \<le> 57"

definition digits_value :: "string \<Rightarrow> nat" where
  "digits_value s = foldl (\<lambda>v c. 10 * v + (of_char c - 48)) 0 (takeWhile is_digit s)"

definition ulong_max :: "Platform \<Rightarrow> u64" where
  "ulong_max pf = (case pf of Posix \<Rightarrow> - 1 | Windows \<Rightarrow> 0xFFFFFFFF)"

definition strtoul :: "Platform \<Rightarrow> string \<Rightarrow> u64" where
  "strtoul pf s =
     (let s = dropWhile is_space s;
          negative = (s \<noteq> [] \<and> hd s = CHR ''-'');
          s = (if s \<noteq> [] \<and> (hd s = CHR ''-'' \<or> hd s = CHR ''+'') then tl s else s);
          v = digits_value s
      in if v > unat (ulong_max pf) then ulong_max pf else if negative then (- of_nat v) AND ulong_max pf else of_nat v)"

fun parse_args :: "Platform \<Rightarrow> string list \<Rightarrow> Options \<Rightarrow> bool \<times> Options \<times> Output list" where
  "parse_args pf [] out = (True, out, [])"
| "parse_args pf (arg # rest) out =
     (if arg = ''--host'' then
        (case rest of [] \<Rightarrow> (False, out, [Stderr ''missing value for --host''])
         | v # rest' \<Rightarrow> parse_args pf rest' (out\<lparr>opt_host := v\<rparr>))
      else if arg = ''--port'' then
        (case rest of [] \<Rightarrow> (False, out, [Stderr ''missing value for --port''])
         | v # rest' \<Rightarrow> parse_args pf rest' (out\<lparr>opt_port := ucast (strtoul pf v)\<rparr>))
      else if arg = ''--max-connections'' then
        (case rest of [] \<Rightarrow> (False, out, [Stderr ''missing value for --max-connections''])
         | v # rest' \<Rightarrow> parse_args pf rest' (out\<lparr>opt_max_connections := ucast (strtoul pf v)\<rparr>))
      else if arg = ''--help'' \<or> arg = ''-h'' then
        (False, out, [Stdout ''usage: hme_engine_server [--host H] [--port P] [--max-connections N]''])
      else (False, out, [Stderr (''unknown argument: '' @ arg)]))"

definition default_config :: EngineConfig where
  "default_config = \<lparr>cfg_max_orders = kDefaultMaxOrders, cfg_max_price_levels = kDefaultMaxPriceLevels,
     cfg_ingress_capacity = kDefaultRingCapacity, cfg_egress_capacity = kDefaultRingCapacity, cfg_force_reservation_failure = False\<rparr>"

text \<open>
  The \<open>try\<close> block up to the construction of the server: the options and the server, or what was
  printed before \<open>main\<close> returned 1.  On the way out the guard is destroyed.
\<close>

definition main_start :: "'w system \<Rightarrow> string list \<Rightarrow> 'w \<Rightarrow> (Output list + Options \<times> TcpServer) \<times> 'w" where
  "main_start os args w =
     (case parse_args (platform os) args default_options of (parsed, opts, printed) \<Rightarrow>
      if \<not> parsed then (Inl printed, w)
      else case winsock_guard_new os w of (Inl what, w) \<Rightarrow> (Inl [Stderr (''fatal: '' @ what)], w) | (Inr _, w) \<Rightarrow>
        let poller = \<lparr>po_monitored = [], po_closed_count = 0\<rparr>;
            pipeline = pipeline_new kDefaultMaxOrders kDefaultMaxPriceLevels kDefaultRingCapacity kDefaultRingCapacity (opt_max_connections opts)
        in case sp_initialize default_config pipeline of (ok, pipeline) \<Rightarrow>
          if \<not> ok then (Inl [Stderr ''engine initialization failed; aborting''], winsock_guard_destroy os w)
          else case tcp_server_new os (opt_host opts) (opt_port opts) pipeline poller w of
              (Inl what, server, w) \<Rightarrow> (Inl [Stderr (''fatal: '' @ what)], winsock_guard_destroy os w)
            | (Inr _, server, w) \<Rightarrow> (Inr (opts, server), w))"

definition main :: "'w system \<Rightarrow> string list \<Rightarrow> 'w \<Rightarrow> (int \<times> Output list \<times> 'w) option" where
  "main os args w =
     (case main_start os args w of
        (Inl printed, w) \<Rightarrow> Some (1, printed, w)
      | (Inr (opts, server), w) \<Rightarrow> do {
          (server, w) \<leftarrow> run os server w;
          Some (0, [Stdout (''hme-engine listening on '' @ opt_host opts @ '':'' @ to_string (unat (opt_port opts))),
                    Stdout (''hme-engine shutting down cleanly (accepted='' @ to_string (unat (accepted_count server))
                      @ '', closed='' @ to_string (unat (closed_count server)) @ '')'')],
                winsock_guard_destroy os (tcp_server_destroy os server w))
        })"

subsection \<open>The command line\<close>

text \<open>A refused command line has been answered with a message.\<close>

lemma parse_reports: "\<not> fst (parse_args pf args out) \<Longrightarrow> snd (snd (parse_args pf args out)) \<noteq> []"
  by (induction pf args out rule: parse_args.induct) (auto split: list.splits if_splits)

lemma digit_char: "d < 10 \<Longrightarrow> is_digit (char_of (48 + d)) \<and> of_char (char_of (48 + d) :: char) = 48 + (d :: nat)"
  by (simp add: is_digit_def)

lemma to_string_digits: "\<forall>c\<in>set (to_string n). is_digit c"
proof (induction n rule: to_string.induct)
  case (1 n)
  then show ?case by (subst to_string.simps) (auto simp: digit_char)
qed

lemma to_string_value: "foldl (\<lambda>v c. 10 * v + (of_char c - 48)) 0 (to_string n) = n"
proof (induction n rule: to_string.induct)
  case (1 n)
  then show ?case by (subst to_string.simps) (auto simp: digit_char)
qed

lemma ulong_max_unat: "2 ^ 32 - 1 \<le> unat (ulong_max pf)"
proof (cases pf)
  case Posix
  have "unat (- 1 :: u64) = 2 ^ 64 - 1" by (simp add: unsigned_minus_1_eq_mask mask_eq_exp_minus_1)
  with Posix show ?thesis by (simp add: ulong_max_def)
qed (simp add: ulong_max_def)

lemma strtoul_to_string:
  assumes "n < 2 ^ 32"
  shows "strtoul pf (to_string n) = of_nat n"
proof -
  have ne: "to_string n \<noteq> []" by (subst to_string.simps) simp
  then have h: "is_digit (hd (to_string n))" using to_string_digits [of n] by (metis hd_in_set)
  then have "\<not> is_space (hd (to_string n))" by (auto simp: is_digit_def is_space_def)
  then have "dropWhile is_space (to_string n) = to_string n" using ne by (cases "to_string n") auto
  moreover have "hd (to_string n) \<noteq> CHR ''-''" "hd (to_string n) \<noteq> CHR ''+''" using h by (auto simp: is_digit_def)
  moreover have d: "takeWhile is_digit (to_string n) = to_string n" using to_string_digits [of n] by (simp add: takeWhile_eq_all_conv)
  moreover have "n \<le> unat (ulong_max pf)" using assms ulong_max_unat [of pf] by linarith
  ultimately show ?thesis unfolding strtoul_def digits_value_def by (simp add: Let_def to_string_value del: takeWhile_eq_all_conv)
qed

text \<open>
  The command line can express every configuration: for every host, port and connection limit,
  passing them by their decimal representation yields exactly these options.
\<close>

theorem options_roundtrip:
  "parse_args pf [''--host'', host, ''--port'', to_string (unat p), ''--max-connections'', to_string (unat n)] out
   = (True, \<lparr>opt_host = host, opt_port = p, opt_max_connections = n\<rparr>, [])"
proof -
  have "unat p < 2 ^ 16" "unat n < 2 ^ 32" using unsigned_less [of p] unsigned_less [of n] by simp_all
  then have "strtoul pf (to_string (unat p)) = of_nat (unat p)" "strtoul pf (to_string (unat n)) = of_nat (unat n)" by (intro strtoul_to_string; simp)+
  moreover have "ucast (of_nat (unat p) :: u64) = p" "ucast (of_nat (unat n) :: u64) = n" 
    by (rule bit_word_eqI, simp add: bit_simps)+
  ultimately show ?thesis by simp
qed

subsection \<open>Starting up\<close>

definition main_sizes :: "Options \<Rightarrow> Sizes" where
  "main_sizes opts = sizes_of kDefaultMaxOrders kDefaultMaxPriceLevels kDefaultRingCapacity kDefaultRingCapacity (opt_max_connections opts)"

text \<open>What a run that ends prints, from the counters it ends with.\<close>

definition farewell :: "Options \<Rightarrow> u64 \<Rightarrow> u64 \<Rightarrow> Output list" where
  "farewell opts n_accepted n_closed =
     [Stdout (''hme-engine listening on '' @ opt_host opts @ '':'' @ to_string (unat (opt_port opts))),
      Stdout (''hme-engine shutting down cleanly (accepted='' @ to_string (unat n_accepted) @ '', closed='' @ to_string (unat n_closed) @ '')'')]"

text \<open>Initialising an idle pipeline forgets its book and its history, and nothing else.\<close>

lemma restart_server:
  assumes rel: "server_rel z p S" and init: "sp_initialize config p = (ok, p')" and fits: "config_fits config (sp_processor p)"
  shows "ok" "server_rel z p' (S\<lparr>as_engine := \<lparr>ae_book = (\<lambda>_. []), ae_seq = ae_seq (as_engine S), ae_hist = []\<rparr>\<rparr>)"
proof -
  obtain ok' q where q: "initialize config (sp_processor p) = (ok', q)" by (cases "initialize config (sp_processor p)")
  with init have p': "ok = ok'" "p' = p\<lparr>sp_processor := q\<rparr>" by (auto simp: sp_initialize_def)
  have pr: "proc_rel (sz_book z) (sp_processor p) (as_engine S) [] []" using rel by (simp add: server_rel_def pipe_rel_def)
  from startup_rel [OF pr q] fits have s: "ok'" "ep_operational q"
    "proc_rel (sz_book z) q \<lparr>ae_book = (\<lambda>_. []), ae_seq = ae_seq (as_engine S), ae_hist = []\<rparr> [] []" by auto
  have same: "ep_ingress q = ep_ingress (sp_processor p)" "ep_egress q = ep_egress (sp_processor p)" "stats q = stats (sp_processor p)"
    using q by (auto simp: initialize_def Let_def stats_def processed_count_def error_event_count_def egress_overflow_count_def split: if_splits)
  show "ok" using p' s by simp
  show "server_rel z p' (S\<lparr>as_engine := \<lparr>ae_book = (\<lambda>_. []), ae_seq = ae_seq (as_engine S), ae_hist = []\<rparr>\<rparr>)"
    using rel p' s same empty_inv
    by (auto simp: server_rel_def pipe_rel_def sp_operational_def in_cap_def out_cap_def ingress_cap_def egress_cap_def
        counts_def stats_def ingress_backpressure_count_def responses_emitted_def)
qed

lemma main_pipeline:
  assumes "sp_initialize default_config (pipeline_new kDefaultMaxOrders kDefaultMaxPriceLevels kDefaultRingCapacity kDefaultRingCapacity
      (opt_max_connections opts)) = (ok, p)" (is "sp_initialize _ ?p = _")
  shows "ok" "server_rel (main_sizes opts) p server_start"
proof -
  have rel: "server_rel (main_sizes opts) ?p server_start" unfolding main_sizes_def
    by (rule server_start_rel) (simp_all add: kDefaultMaxOrders_def kDefaultMaxPriceLevels_def kDefaultRingCapacity_def kNullNode_def)
  then have "config_fits default_config (sp_processor ?p)"
    by (auto simp: config_fits_def default_config_def server_rel_def pipe_rel_def proc_rel_def engine_rel_def main_sizes_def sizes_of_def
        pipeline_new_def processor_new_def rb_new_def rb_capacity_def)
  from restart_server [OF rel assms this] show "ok" "server_rel (main_sizes opts) p server_start"
    by (simp_all add: server_start_def a_start_def)
qed

text \<open>The Winsock guard opens and closes no descriptor and does not delay a signal.\<close>

lemma guard_ok:
  assumes "listen_calls_ok os opened maxfd" "winsock_guard_new os w = (r, w')"
  shows "opened w' = opened w" "start_keeps_due os clock \<Longrightarrow> due os clock w' \<le> due os clock w"
    "opened (winsock_guard_destroy os v) = opened v"
proof -
  have "w' = w \<or> w' = snd (sys_wsastartup os w)" using assms(2) by (auto simp: winsock_guard_new_def split: Platform.splits prod.splits)
  with assms(1) show "opened w' = opened w" "start_keeps_due os clock \<Longrightarrow> due os clock w' \<le> due os clock w"
    by (auto simp: listen_calls_ok_def start_keeps_due_def)
  show "opened (winsock_guard_destroy os v) = opened v"
    using assms(1) by (auto simp: winsock_guard_destroy_def listen_calls_ok_def split: Platform.splits)
qed

lemma parse_silent: "fst (parse_args pf args out) \<Longrightarrow> snd (snd (parse_args pf args out)) = []"
  by (induction pf args out rule: parse_args.induct) (auto split: list.splits if_splits)

text \<open>Why \<open>main\<close> gave up: the command line was refused, or it printed the fault of the failed start.\<close>

definition gave_up :: "'w system \<Rightarrow> 'w start_observers \<Rightarrow> string list \<Rightarrow> 'w \<Rightarrow> 'w \<Rightarrow> Output list \<Rightarrow> bool" where
  "gave_up os so args w w' printed \<longleftrightarrow> printed \<noteq> [] \<and>
     ((\<exists>opts. parse_args (platform os) args default_options = (False, opts, printed))
      \<or> (\<exists>opts msg. parse_args (platform os) args default_options = (True, opts, [])
           \<and> reports os so (opt_host opts) (opt_port opts) w w' msg \<and> printed = [Stderr (''fatal: '' @ msg)]))"

text \<open>The server \<open>main\<close> starts the loop with.\<close>

definition fresh_server :: "Options \<Rightarrow> TcpServer \<Rightarrow> bool" where
  "fresh_server opts s \<longleftrightarrow> server_rel (main_sizes opts) (ts_pipeline s) server_start
     \<and> ts_outbound s = [] \<and> ts_accepted s = 0 \<and> ts_rejected s = 0"

lemma new_server_reports:
  assumes "start_calls_ok os so" "tcp_server_new os host port p po w = (r, s, w')"
  shows "case r of Inl msg \<Rightarrow> reports os so host port w w' msg
    | Inr u \<Rightarrow> so_faults so w' = so_faults so w \<and> valid_host os host \<and> serving so host port w' (ts_listen_fd s)"
  using open_listen_reports [OF assms(1), of _ w r s w'] assms(2) by (fastforce simp: tcp_server_new_def split: sum.splits)

lemma guard_reports:
  assumes "start_calls_ok os so" "winsock_guard_new os w = (r, w')"
  shows "case r of Inl what \<Rightarrow> reports os so host port w w' what | Inr u \<Rightarrow> so_faults so w' = so_faults so w"
    "so_faults so (winsock_guard_destroy os v) = so_faults so v"
proof -
  obtain rc w1 where ws: "sys_wsastartup os w = (rc, w1)" by (cases "sys_wsastartup os w")
  have "so_faults so w1 = so_faults so w @ (if rc = 0 then [] else [WinsockFault])" using assms(1) ws by (simp add: start_calls_ok_def)
  with assms(2) ws show "case r of Inl what \<Rightarrow> reports os so host port w w' what | Inr u \<Rightarrow> so_faults so w' = so_faults so w"
    by (auto simp: winsock_guard_new_def reports_def intro!: exI [of _ WinsockFault] split: Platform.splits)
  show "so_faults so (winsock_guard_destroy os v) = so_faults so v"
    using assms(1) by (auto simp: winsock_guard_destroy_def start_calls_ok_def split: Platform.splits)
qed

lemma main_start_ok:
  assumes os: "system_ok os opened bl maxfd" and lo: "listen_calls_ok os opened maxfd" and so: "start_calls_ok os so"
    and w: "opened w = {}" and due: "start_keeps_due os clock"
  shows "case main_start os args w of
      (Inl printed, w') \<Rightarrow> opened w' = {} \<and> gave_up os so args w w' printed
    | (Inr (opts, s), w1) \<Rightarrow> parse_args (platform os) args default_options = (True, opts, [])
        \<and> srv_inv (kDefaultMaxOrders, kDefaultMaxPriceLevels) opened maxfd s w1 \<and> fresh_server opts s \<and> due os clock w1 \<le> due os clock w
        \<and> so_faults so w1 = so_faults so w \<and> valid_host os (opt_host opts) \<and> serving so (opt_host opts) (opt_port opts) w1 (ts_listen_fd s)"
proof -
  obtain parsed opts pr where pa: "parse_args (platform os) args default_options = (parsed, opts, pr)"
    by (cases "parse_args (platform os) args default_options")
  obtain g w0 where gd: "winsock_guard_new os w = (g, w0)" by (cases "winsock_guard_new os w")
  note G = guard_ok [OF lo gd] and F = guard_reports(1) [OF so gd, of "opt_host opts" "opt_port opts"] guard_reports(2) [OF so gd]
  consider (refused) "\<not> parsed" | (winsock) what where "parsed" "g = Inl what" | (up) u where "parsed" "g = Inr u" by (cases g) auto
  then show ?thesis
  proof cases
    case refused
    with pa parse_reports [of "platform os" args default_options] w show ?thesis by (auto simp: main_start_def gave_up_def)
  next
    case winsock
    with pa gd G(1) F(1) w parse_silent [of "platform os" args default_options] show ?thesis
      by (auto simp: main_start_def gave_up_def)
  next
    case up
    let ?po = "\<lparr>po_monitored = [], po_closed_count = 0\<rparr>"
    let ?p0 = "pipeline_new kDefaultMaxOrders kDefaultMaxPriceLevels kDefaultRingCapacity kDefaultRingCapacity (opt_max_connections opts)"
    obtain ok p where i: "sp_initialize default_config ?p0 = (ok, p)" by (cases "sp_initialize default_config ?p0")
    note P = main_pipeline [OF i]
    obtain r s w1 where new: "tcp_server_new os (opt_host opts) (opt_port opts) p ?po w0 = (r, s, w1)"
      by (cases "tcp_server_new os (opt_host opts) (opt_port opts) p ?po w0")
    have "cr_connections (sp_registry p) = []" using i by (auto simp: sp_initialize_def pipeline_new_def registry_new_def split: prod.splits)
    with P(2) w G(1) have st: "case r of Inl msg \<Rightarrow> opened w1 = {} | Inr u \<Rightarrow> srv_inv (kDefaultMaxOrders, kDefaultMaxPriceLevels) opened maxfd s w1"
      by (intro server_new_ok [OF os lo _ _ _ _ _ new, of _ a_start]) (auto simp: server_rel_def main_sizes_def sizes_of_def server_start_def)
    note R = new_server_reports [OF so new]
    have f0: "so_faults so w0 = so_faults so w" using F(1) up(2) by simp
    have pr: "pr = []" using parse_silent [of "platform os" args default_options] pa up(1) by simp
    have start: "main_start os args w = (case r of Inl what \<Rightarrow> (Inl [Stderr (''fatal: '' @ what)], winsock_guard_destroy os w1) | Inr u \<Rightarrow> (Inr (opts, s), w1))"
      using pa up gd i P(1) new by (simp add: main_start_def Let_def split: sum.splits)
    show ?thesis
    proof (cases r)
      case (Inl msg)
      have "reports os so (opt_host opts) (opt_port opts) w (winsock_guard_destroy os w1) msg"
        using R Inl f0 F(2) by (simp add: reports_def)
      with start st Inl G(3) pa up(1) pr show ?thesis by (auto simp: gave_up_def)
    next
      case (Inr u')
      have "due os clock w1 \<le> due os clock w"
        using open_listen_due [OF due, of _ w0 u' s w1] G(2) [OF due] new Inr by (auto simp: tcp_server_new_def intro: order_trans)
      moreover have "fresh_server opts s"
        using P(2) new Inr by (auto simp: fresh_server_def tcp_server_new_def open_listen_socket_def Let_def split: if_splits prod.splits)
      ultimately show ?thesis using start st R Inr f0 pa up(1) pr by simp
    qed
  qed
qed

lemma shut_down:
  assumes os: "system_ok os opened bl maxfd" and lo: "listen_calls_ok os opened maxfd" and inv: "srv_inv cp opened maxfd s w"
  shows "opened (winsock_guard_destroy os (tcp_server_destroy os s w)) = tracked (ts_pipeline s)"
proof -
  have "opened (tcp_server_destroy os s w) = tracked (ts_pipeline s)"
    using inv close_opened [OF os] by (auto simp: tcp_server_destroy_def close_native_def srv_inv_def kInvalid_def)
  moreover obtain r v where "winsock_guard_new os w = (r, v)" by (cases "winsock_guard_new os w")
  ultimately show ?thesis using guard_ok(3) [OF lo] by metis
qed

subsection \<open>What the program promises\<close>

text \<open>
  Serving, seen from outside: the abstract server has read exactly the bytes every open connection
  sent and owes it a stream of which exactly a prefix was delivered; the connections left open are
  its own.
\<close>

lemma run_serves:
  assumes env: "environment_ok os ob" and lo: "listen_calls_ok os (ob_open ob) (ob_limit ob)" and net: "net_rel z ob server_start evs s w"
  shows "let T = snd (spec_trace (as_step z) evs server_start); rs = fst (spec_trace (as_step z) evs server_start);
             w' = winsock_guard_destroy os (tcp_server_destroy os s w)
    in may_trace may_occur (as_step z) evs server_start \<and> ob_open ob w' = dom (as_tails T)
      \<and> (\<forall>fd\<in>dom (as_tails T). ob_received ob w' fd = fed fd evs \<and> (\<exists>unsent. ob_delivered ob w' fd @ unsent = owed fd rs))
      \<and> accepted_count s = of_nat (admissions True rs) \<and> closed_count s = of_nat (admissions True rs) - of_nat (card (dom (as_tails T)))"
proof -
  note E = environment_parts [OF env]
  obtain rs T where T: "spec_trace (as_step z) evs server_start = (rs, T)" by (cases "spec_trace (as_step z) evs server_start")
  let ?w = "winsock_guard_destroy os (tcp_server_destroy os s w)"
  from net T have N: "srv_inv (sz_book z) (ob_open ob) (ob_limit ob) s w" "may_trace may_occur (as_step z) evs server_start"
    "server_rel z (ts_pipeline s) T" "ts_accepted s = of_nat (admissions True rs)"
    "\<And>fd q. map_of (ts_outbound s) fd = Some q \<Longrightarrow> ob_delivered ob w fd @ q = owed fd rs \<and> ob_received ob w fd = fed fd evs"
    by (auto simp: net_rel_def)
  note L = net_rel_live [OF net, unfolded T snd_conv]
  have "quiet ob w ?w" using E(3,5) by (auto simp: quiet_def streams_ok_def winsock_guard_destroy_def tcp_server_destroy_def close_native_def split: Platform.splits)
  then have "\<forall>fd\<in>dom (as_tails T). ob_received ob ?w fd = fed fd evs \<and> (\<exists>unsent. ob_delivered ob ?w fd @ unsent = owed fd rs)"
    unfolding L(1) [symmetric] using N(5) by (force simp: quiet_def)
  moreover have "reg_inv (sp_registry (ts_pipeline s))" "tail_of (sp_registry (ts_pipeline s)) = as_tails T"
    using N(3) by (simp_all add: server_rel_def pipe_rel_def)
  then have "closed_count s = of_nat (admissions True rs) - of_nat (card (dom (as_tails T)))"
    using N(1,4) connections_card [of "sp_registry (ts_pipeline s)"] by (simp add: srv_inv_def closed_count_def)
  ultimately show ?thesis using T N(2,4) shut_down [OF E(1) lo N(1)] L(2) by (simp add: accepted_count_def)
qed


lemma demo_starts:
  assumes "parse_args (platform demo_os) args default_options = (True, opts, [])"
  shows "\<exists>s w1. main_start demo_os args demo_world = (Inr (opts, s), w1)"
proof -
  let ?p0 = "pipeline_new kDefaultMaxOrders kDefaultMaxPriceLevels kDefaultRingCapacity kDefaultRingCapacity (opt_max_connections opts)"
  obtain ok p where i: "sp_initialize default_config ?p0 = (ok, p)" by (cases "sp_initialize default_config ?p0")
  have "winsock_guard_new demo_os demo_world = (Inr (), demo_world)" by (simp add: winsock_guard_new_def demo_os_def)
  moreover have "\<exists>s w1. tcp_server_new demo_os (opt_host opts) (opt_port opts) p po demo_world = (Inr (), s, w1)" for po
    by (simp add: tcp_server_new_def open_listen_socket_def demo_os_def demo_world_def invalid_socket_def set_nonblocking_def Let_def)
  from this [of "\<lparr>po_monitored = [], po_closed_count = 0\<rparr>"] obtain s w1 where
    "tcp_server_new demo_os (opt_host opts) (opt_port opts) p \<lparr>po_monitored = [], po_closed_count = 0\<rparr> demo_world = (Inr (), s, w1)" by blast
  ultimately show ?thesis using assms main_pipeline(1) [OF i] i by (simp add: main_start_def)
qed

lemma demo_drained:
  assumes inv: "srv_inv (kDefaultMaxOrders, kDefaultMaxPriceLevels) wo_open 1024 s w" and s: "fresh_server opts s"
    and d: "due demo_os wo_due w \<le> due demo_os wo_due demo_world"
  shows "\<forall>n. drained demo_os (kDefaultRingCapacity * kMaxMessageLen) n (s\<lparr>ts_stop := False\<rparr>) (snd (sys_signalled demo_os w))"
proof -
  let ?z = "main_sizes opts" let ?s = "s\<lparr>ts_stop := False\<rparr>"
  obtain s0 w0 where sig: "take_signal demo_os s w = (s0, w0)" by (cases "take_signal demo_os s w")
  then have s0: "s0\<lparr>ts_stop := False\<rparr> = ?s" "w0 = snd (sys_signalled demo_os w)"
    by (auto simp: take_signal_def stop_def split: prod.splits if_splits)
  have "net_rel ?z demo_observers server_start [] s w"
    using inv s by (simp add: net_rel_def fresh_server_def main_sizes_def sizes_of_def demo_observers_def)
  then have rel: "net_rel ?z demo_observers server_start [] ?s w0" using signal_event(2) [OF demo_environment _ sig, of ?z server_start "[]" False] s0(1) by simp
  have "due demo_os wo_due demo_world = enat 3" by (simp add: due_def wo_due_def demo_os_def demo_world_def)
  with d s0(2) have "wo_due w0 \<le> enat 3" by (simp add: due_def)
  from drained_until_stop [OF demo_environment rel demo_os_ok(3) this] s show ?thesis
    by (simp add: s0(2) [symmetric] burst_def main_sizes_def sizes_of_def queued_bytes_def fresh_server_def kDefaultRingCapacity_def kMaxMessageLen_def wire_lengths)
qed


end
