(* ===== verification/Ieee_Double.thy ===== *)
theory Ieee_Double
  imports Complex_Main
begin

text \<open>
  Arithmetic on \<open>double\<close>.  A finite \<open>double\<close> is the real number it denotes; an arithmetic operation
  and a conversion round the exact result to 53 significant bits, to nearest and ties to even.  The
  exponent range is left out: the quantities of the benchmark harness (percentages, sample counts,
  seconds, orders per second) stay far from overflow and underflow.
\<close>

definition round_even :: "real \<Rightarrow> int" where
  "round_even x = (let f = \<lfloor>x\<rfloor>; d = x - of_int f in
     if d < 1 / 2 then f else if d > 1 / 2 then f + 1 else if even f then f else f + 1)"

text \<open>The exponent of the last of the 53 significant bits of \<open>x\<close>.\<close>

definition ulp_exp :: "real \<Rightarrow> int" where
  "ulp_exp x = \<lfloor>log 2 \<bar>x\<bar>\<rfloor> - 52"

definition to_double :: "real \<Rightarrow> real" where
  "to_double x = (if x = 0 then 0 else of_int (round_even (x / 2 powi ulp_exp x)) * 2 powi ulp_exp x)"

subsection \<open>Rounding to an integer\<close>

lemma round_even_near: "\<bar>of_int (round_even x) - x\<bar> \<le> 1 / 2"
  unfolding round_even_def Let_def by (simp add: abs_le_iff)

lemma round_even_int [simp]: "round_even (of_int k) = k"
  by (simp add: round_even_def)

lemma round_even_mono:
  assumes "x \<le> y"
  shows "round_even x \<le> round_even y"
proof (cases "\<lfloor>x\<rfloor> = \<lfloor>y\<rfloor>")
  case True
  with assms show ?thesis by (auto simp: round_even_def Let_def)
next
  case False
  then have "\<lfloor>x\<rfloor> + 1 \<le> \<lfloor>y\<rfloor>" using floor_mono [OF assms] by linarith
  moreover have "round_even x \<le> \<lfloor>x\<rfloor> + 1" "\<lfloor>y\<rfloor> \<le> round_even y" by (auto simp: round_even_def Let_def)
  ultimately show ?thesis by linarith
qed

subsection \<open>Rounding to a double\<close>

lemma ulp_exp_bounds:
  assumes "0 < x"
  shows "2 ^ 52 \<le> x / 2 powi ulp_exp x" "x / 2 powi ulp_exp x < 2 ^ 53"
proof -
  let ?k = "\<lfloor>log 2 x\<rfloor>"
  have "of_int ?k \<le> log 2 x" "log 2 x < of_int (?k + 1)" by linarith+
  then have "2 powr of_int ?k \<le> x" "x < 2 powr of_int (?k + 1)" using assms by (simp_all only: le_log_iff log_less_iff one_less_numeral_iff semiring_norm)
  moreover have "2 powr of_int i = (2::real) powi i" for i :: int by (rule powr_real_of_int') simp_all
  ultimately have k: "2 powi ?k \<le> x" "x < 2 powi (?k + 1)" by (simp_all only:)
  have e: "2 powi ulp_exp x = 2 powi ?k / (2::real) ^ 52" using assms by (simp add: ulp_exp_def power_int_diff)
  show "2 ^ 52 \<le> x / 2 powi ulp_exp x" unfolding e using k(1) by (simp add: field_simps)
  have "2 powi (?k + 1) = 2 * (2::real) powi ?k" by (simp add: power_int_add)
  with k(2) show "x / 2 powi ulp_exp x < 2 ^ 53" unfolding e by (simp add: field_simps)
qed

lemma to_double_0 [simp]: "to_double 0 = 0"
  by (simp add: to_double_def)

lemma to_double_bounds:
  assumes "0 < x"
  shows "2 ^ 52 * 2 powi ulp_exp x \<le> to_double x" "to_double x \<le> 2 ^ 53 * 2 powi ulp_exp x"
proof -
  have "round_even (of_int (2 ^ 52)) \<le> round_even (x / 2 powi ulp_exp x)" "round_even (x / 2 powi ulp_exp x) \<le> round_even (of_int (2 ^ 53))"
    using ulp_exp_bounds [OF assms] by (intro round_even_mono; simp)+
  then have "2 ^ 52 \<le> round_even (x / 2 powi ulp_exp x)" "round_even (x / 2 powi ulp_exp x) \<le> 2 ^ 53" by (simp_all only: round_even_int)
  then have "real_of_int (2 ^ 52) \<le> of_int (round_even (x / 2 powi ulp_exp x))" "of_int (round_even (x / 2 powi ulp_exp x)) \<le> real_of_int (2 ^ 53)"
    by (simp_all only: of_int_le_iff)
  then show "2 ^ 52 * 2 powi ulp_exp x \<le> to_double x" "to_double x \<le> 2 ^ 53 * 2 powi ulp_exp x"
    using assms by (auto simp: to_double_def)
qed

lemma to_double_pos: "0 < x \<Longrightarrow> 0 < to_double x"
  using to_double_bounds(1) [of x] by (rule less_le_trans [rotated]) simp_all

lemma to_double_mono:
  assumes "0 \<le> x" "x \<le> y"
  shows "to_double x \<le> to_double y"
proof (cases "x = 0")
  case True
  with assms show ?thesis using to_double_pos [of y] by (cases "y = 0") auto
next
  case False
  with assms have p: "0 < x" "0 < y" by auto
  have "ulp_exp x \<le> ulp_exp y" using p assms by (simp add: ulp_exp_def floor_mono)
  then consider "ulp_exp x = ulp_exp y" | "ulp_exp x + 1 \<le> ulp_exp y" by linarith
  then show ?thesis
  proof cases
    case 1
    have "round_even (x / 2 powi ulp_exp y) \<le> round_even (y / 2 powi ulp_exp y)"
      using assms by (intro round_even_mono divide_right_mono) simp_all
    with 1 p show ?thesis by (simp add: to_double_def)
  next
    case 2
    have "to_double x \<le> 2 ^ 52 * 2 powi (ulp_exp x + 1)" using to_double_bounds(2) [OF p(1)] by (simp add: power_int_add)
    also have "\<dots> \<le> 2 ^ 52 * 2 powi ulp_exp y" using 2 by (simp add: power_int_increasing)
    also have "\<dots> \<le> to_double y" by (rule to_double_bounds(1) [OF p(2)])
    finally show ?thesis .
  qed
qed

lemma to_double_error:
  assumes "0 \<le> x"
  shows "\<bar>to_double x - x\<bar> \<le> x / 2 ^ 53"
proof (cases "x = 0")
  case False
  with assms have p: "0 < x" by simp
  let ?u = "2 powi ulp_exp x :: real"
  have "to_double x - x = (of_int (round_even (x / ?u)) - x / ?u) * ?u" using p by (simp add: to_double_def field_simps)
  then have "\<bar>to_double x - x\<bar> \<le> 1 / 2 * ?u" using round_even_near [of "x / ?u"] by (simp add: abs_mult)
  also have "\<dots> \<le> x / 2 ^ 53" using ulp_exp_bounds(1) [OF p] by (simp add: field_simps)
  finally show ?thesis .
qed simp

lemma to_double_upper: "0 \<le> x \<Longrightarrow> to_double x \<le> x + x / 2 ^ 53"
  using to_double_error [of x] by linarith

lemma to_double_lower: "0 \<le> x \<Longrightarrow> x - x / 2 ^ 53 \<le> to_double x"
  using to_double_error [of x] by linarith

text \<open>Integers and half-integers below \<open>2 ^ 53\<close> units are doubles.\<close>

lemma to_double_exact:
  assumes "0 \<le> x" "x = of_int m * 2 powi e" "x \<le> 2 ^ 53 * 2 powi e"
  shows "to_double x = x"
proof (cases "x = 0")
  case False
  with assms(1) have p: "0 < x" by simp
  show ?thesis
  proof (cases "ulp_exp x \<le> e")
    case True
    then obtain j where j: "e = ulp_exp x + int j" by (metis zle_iff_zadd)
    have "x / 2 powi ulp_exp x = of_int (m * 2 ^ j)" by (subst assms(2)) (simp add: j power_int_add)
    then have "round_even (x / 2 powi ulp_exp x) = m * 2 ^ j" by (simp only: round_even_int)
    then have "to_double x = of_int (m * 2 ^ j) * 2 powi ulp_exp x" unfolding to_double_def using p by simp
    also have "\<dots> = of_int m * 2 powi e" by (simp add: j power_int_add)
    finally show ?thesis by (simp only: assms(2) [symmetric])
  next
    case False
    then have "2 ^ 53 * 2 powi e \<le> 2 ^ 52 * (2::real) powi ulp_exp x" using power_int_increasing [of "e + 1" "ulp_exp x" "2::real"] by (simp add: power_int_add)
    moreover have "2 ^ 52 * 2 powi ulp_exp x \<le> x" using ulp_exp_bounds(1) [OF p] by (simp add: field_simps)
    ultimately have x: "x = 2 ^ 52 * 2 powi ulp_exp x" using assms(3) by linarith
    then have "x / 2 powi ulp_exp x = of_int (2 ^ 52)" by (simp add: divide_eq_eq)
    then have "round_even (x / 2 powi ulp_exp x) = 2 ^ 52" by (simp only: round_even_int)
    with x p show ?thesis by (simp add: to_double_def)
  qed
qed simp

lemma real_nat_le: "n \<le> 2 ^ 53 \<Longrightarrow> real n \<le> 2 ^ 53"
  by (simp only: of_nat_le_numeral_power_cancel_iff)

lemma to_double_nat: "n \<le> 2 ^ 53 \<Longrightarrow> to_double (real n) = real n"
  by (rule to_double_exact [of _ "int n" 0]) (simp_all only: power_int_0_right mult_1_right of_int_of_nat_eq of_nat_0_le_iff real_nat_le)

lemma to_double_half:
  assumes "n \<le> 2 ^ 53"
  shows "to_double (real n / 2) = real n / 2"
proof (rule to_double_exact [of _ "int n" "- 1"])
  show "real n / 2 \<le> 2 ^ 53 * 2 powi - 1" using real_nat_le [OF assms] by (simp add: power_int_minus)
qed (simp_all add: power_int_minus)

end
