(* ===== verification/Latency_Stats.thy ===== *)
theory Latency_Stats
  imports Ieee_Double HME_Prelude
begin

text \<open>
  \<open>LatencyStats\<close> of \<open>latency_stats.hpp\<close>: the recorder of processing latencies with its lazily sorted
  copy and the nearest-rank percentiles, computed in \<open>double\<close>.  Reading from an empty recorder
  (\<open>front\<close>, \<open>back\<close> or an index out of range) is \<open>None\<close>.
\<close>

record LatencyStats =
  samples :: "u64 list"
  sorted_view :: "u64 list"
  sorted_valid :: bool

definition latency_new :: LatencyStats where
  "latency_new = \<lparr>samples = [], sorted_view = [], sorted_valid = False\<rparr>"

definition record_sample :: "u64 \<Rightarrow> LatencyStats \<Rightarrow> LatencyStats" where
  "record_sample latency_us l = l\<lparr>samples := samples l @ [latency_us], sorted_valid := False\<rparr>"

definition count :: "LatencyStats \<Rightarrow> nat" where
  "count l = length (samples l)"

definition empty :: "LatencyStats \<Rightarrow> bool" where
  "empty l \<longleftrightarrow> samples l = []"

definition ensure_sorted :: "LatencyStats \<Rightarrow> LatencyStats" where
  "ensure_sorted l = (if sorted_valid l then l else l\<lparr>sorted_view := sort (samples l), sorted_valid := True\<rparr>)"

text \<open>\<open>ceil_div_pct\<close>; the cast to \<open>uint64_t\<close> truncates.\<close>

definition ceil_div_pct :: "real \<Rightarrow> nat \<Rightarrow> real" where
  "ceil_div_pct p n =
     (let exact = to_double (to_double (p / 100) * to_double (real n));
          floored = to_double (of_int \<lfloor>exact\<rfloor>);
          eps = to_double (1 / 10 ^ 9)
      in if to_double (exact - floored) > eps then to_double (floored + 1) else floored)"

definition at_index :: "nat \<Rightarrow> 'a list \<Rightarrow> 'a option" where
  "at_index i xs = (if i < length xs then Some (xs ! i) else None)"

definition percentile :: "real \<Rightarrow> LatencyStats \<Rightarrow> u64 option \<times> LatencyStats" where
  "percentile p l =
     (let l = ensure_sorted l; n = length (sorted_view l);
          p = (if p < 0 then 0 else if p > 100 then 100 else p);
          rank = nat \<lfloor>ceil_div_pct p n\<rfloor>;
          rank = (if rank < 1 then 1 else if rank > n then n else rank)
      in (at_index (rank - 1) (sorted_view l), l))"

definition min_sample :: "LatencyStats \<Rightarrow> u64 option \<times> LatencyStats" where
  "min_sample l = (let l = ensure_sorted l in (at_index 0 (sorted_view l), l))"

definition max_sample :: "LatencyStats \<Rightarrow> u64 option \<times> LatencyStats" where
  "max_sample l = (let l = ensure_sorted l in (if sorted_view l = [] then None else Some (last (sorted_view l)), l))"

definition median :: "LatencyStats \<Rightarrow> u64 option \<times> LatencyStats" where
  "median l = percentile 50 l"

definition p99 :: "LatencyStats \<Rightarrow> u64 option \<times> LatencyStats" where
  "p99 l = percentile 99 l"

subsection \<open>The lazily sorted copy\<close>

text \<open>The cache is either stale or the sorted samples.\<close>

definition stats_inv :: "LatencyStats \<Rightarrow> bool" where
  "stats_inv l \<longleftrightarrow> (sorted_valid l \<longrightarrow> sorted_view l = sort (samples l))"

lemma stats_inv_new [simp]: "stats_inv latency_new"
  by (simp add: stats_inv_def latency_new_def)

lemma stats_inv_record [simp]: "stats_inv (record_sample x l)"
  by (simp add: stats_inv_def record_sample_def)

lemma ensure_sorted_ok:
  assumes "stats_inv l"
  shows "sorted_view (ensure_sorted l) = sort (samples l)" "samples (ensure_sorted l) = samples l" "stats_inv (ensure_sorted l)"
  using assms by (simp_all add: stats_inv_def ensure_sorted_def)

subsection \<open>The rank\<close>

definition rank_of :: "real \<Rightarrow> nat \<Rightarrow> nat" where
  "rank_of p n = (let r = nat \<lfloor>ceil_div_pct (if p < 0 then 0 else if p > 100 then 100 else p) n\<rfloor> in if r < 1 then 1 else if r > n then n else r)"

lemma percentile_rank:
  assumes "stats_inv l"
  shows "percentile p l = (at_index (rank_of p (count l) - 1) (sort (samples l)), ensure_sorted l)"
  using ensure_sorted_ok [OF assms] by (simp add: percentile_def rank_of_def count_def Let_def)

lemma rank_range: "0 < n \<Longrightarrow> 1 \<le> rank_of p n \<and> rank_of p n \<le> n"
proof -
  have "0 < n \<Longrightarrow> 1 \<le> (if r < 1 then 1 else if r > n then n else r) \<and> (if r < 1 then 1 else if r > n then n else r) \<le> n" for r :: nat by auto
  then show "0 < n \<Longrightarrow> 1 \<le> rank_of p n \<and> rank_of p n \<le> n" by (simp only: rank_of_def Let_def)
qed

definition exact_rank :: "real \<Rightarrow> nat \<Rightarrow> real" where
  "exact_rank p n = to_double (to_double (p / 100) * to_double (real n))"

lemma exact_rank_nonneg: "0 \<le> p \<Longrightarrow> 0 \<le> exact_rank p n"
  unfolding exact_rank_def using to_double_mono [of 0] by (metis divide_nonneg_pos mult_nonneg_nonneg of_nat_0_le_iff order_refl to_double_0 zero_less_numeral)

lemma exact_rank_mono:
  assumes "0 \<le> p" "p \<le> q"
  shows "exact_rank p n \<le> exact_rank q n"
proof -
  have "0 \<le> to_double (p / 100)" "to_double (p / 100) \<le> to_double (q / 100)" "0 \<le> to_double (real n)"
    using assms to_double_mono [of 0 "p / 100"] to_double_mono [of 0 "real n"] by (auto intro: to_double_mono simp: divide_right_mono)
  then show ?thesis unfolding exact_rank_def by (intro to_double_mono [OF mult_nonneg_nonneg mult_right_mono])
qed

lemma exact_rank_100: "n \<le> 2 ^ 53 \<Longrightarrow> exact_rank 100 n = real n"
  using to_double_nat [of 1] by (simp only: exact_rank_def to_double_nat divide_self_if of_nat_1) (simp add: to_double_nat del: numeral_le_iff)

lemma exact_rank_le: "0 \<le> p \<Longrightarrow> p \<le> 100 \<Longrightarrow> n \<le> 2 ^ 53 \<Longrightarrow> exact_rank p n \<le> real n"
  using exact_rank_mono [of p 100 n] exact_rank_100 by simp

text \<open>The value \<open>ceil_div_pct\<close> computes from an exact rank \<open>x\<close>: its floor, or the next integer beyond the tolerance.\<close>

definition step_up :: "real \<Rightarrow> int" where
  "step_up x = (if to_double (x - of_int \<lfloor>x\<rfloor>) > to_double (1 / 10 ^ 9) then \<lfloor>x\<rfloor> + 1 else \<lfloor>x\<rfloor>)"

lemma to_double_int:
  assumes "0 \<le> k" "k \<le> 2 ^ 53"
  shows "to_double (of_int k) = of_int k"
  using to_double_nat [of "nat k"] assms by (simp add: nat_le_iff)

lemma ceil_step_up:
  assumes "0 \<le> p" "p \<le> 100" "n < 2 ^ 53"
  shows "ceil_div_pct p n = of_int (step_up (exact_rank p n))"
proof -
  let ?x = "exact_rank p n"
  have "?x \<le> real n" using assms by (intro exact_rank_le) simp_all
  then have b: "0 \<le> \<lfloor>?x\<rfloor>" "\<lfloor>?x\<rfloor> < 2 ^ 53" using exact_rank_nonneg [OF assms(1), of n] assms(3) by (simp_all add: floor_less_iff)
  then have "to_double (of_int \<lfloor>?x\<rfloor>) = of_int \<lfloor>?x\<rfloor>" "to_double (of_int (\<lfloor>?x\<rfloor> + 1)) = of_int (\<lfloor>?x\<rfloor> + 1)" by (intro to_double_int; simp)+
  then show ?thesis by (simp add: ceil_div_pct_def step_up_def exact_rank_def [symmetric] Let_def)
qed

lemma step_up_mono:
  assumes "0 \<le> x" "x \<le> y"
  shows "step_up x \<le> step_up y"
proof (cases "\<lfloor>x\<rfloor> = \<lfloor>y\<rfloor>")
  case True
  have "to_double (x - of_int \<lfloor>y\<rfloor>) \<le> to_double (y - of_int \<lfloor>y\<rfloor>)" using assms(2) True by (intro to_double_mono) (simp_all add: le_diff_eq True [symmetric])
  with True show ?thesis by (simp add: step_up_def)
next
  case False
  then have "\<lfloor>x\<rfloor> < \<lfloor>y\<rfloor>" using floor_mono [OF assms(2)] by simp
  then show ?thesis by (simp add: step_up_def)
qed

lemma rank_mono:
  assumes "p \<le> q" "n < 2 ^ 53" "0 < n"
  shows "rank_of p n \<le> rank_of q n"
proof -
  let ?c = "\<lambda>p :: real. if p < 0 then 0 else if p > 100 then 100 else p"
  have clamp: "(if r < 1 then 1 else if r > n then n else r) \<le> (if r' < 1 then 1 else if r' > n then n else r')" if "r \<le> r'" for r r' :: nat
    using that assms(3) by auto
  have c: "0 \<le> ?c p" "?c p \<le> ?c q" "?c q \<le> 100" using assms(1) by auto
  then have "step_up (exact_rank (?c p) n) \<le> step_up (exact_rank (?c q) n)" by (intro step_up_mono exact_rank_mono exact_rank_nonneg)
  moreover have "ceil_div_pct (?c p) n = of_int (step_up (exact_rank (?c p) n))" "ceil_div_pct (?c q) n = of_int (step_up (exact_rank (?c q) n))"
    using c assms(2) by (intro ceil_step_up; linarith)+
  ultimately have "nat \<lfloor>ceil_div_pct (?c p) n\<rfloor> \<le> nat \<lfloor>ceil_div_pct (?c q) n\<rfloor>" by (simp only: floor_of_int nat_mono)
  then show ?thesis unfolding rank_of_def Let_def
    by (rule clamp)
qed

lemma rank_ends:
  assumes "0 < n" "n < 2 ^ 53"
  shows "rank_of 0 n = 1" "rank_of 100 n = n"
proof -
  have e: "exact_rank 0 n = 0" by (simp add: exact_rank_def)
  have z: "to_double (1 / 10 ^ 9) > 0" by (rule to_double_pos) simp
  have "step_up 0 = 0" "step_up (real n) = int n" using z by (simp_all add: step_up_def)
  then have "ceil_div_pct 0 n = 0" "ceil_div_pct 100 n = of_int (int n)"
    using ceil_step_up [of 0 n] ceil_step_up [of 100 n] e exact_rank_100 [of n] assms(2) by (simp_all only: order_refl of_int_0 less_imp_le zero_le_numeral)
  then show "rank_of 0 n = 1" "rank_of 100 n = n" using assms(1) by (simp_all add: rank_of_def Let_def)
qed

subsection \<open>The median and the 99th percentile are exact\<close>

lemma tolerance: "to_double (1 / 10 ^ 9) < 1 / 1000"
  by (rule le_less_trans [OF to_double_upper]) simp_all

lemma step_up_beyond:
  assumes "real_of_int q + 1 / 500 \<le> x" "x < real_of_int q + 1"
  shows "step_up x = q + 1"
proof -
  have f: "\<lfloor>x\<rfloor> = q" using assms by (simp add: floor_eq_iff)
  have "x - of_int q - (x - of_int q) / 2 ^ 53 \<le> to_double (x - of_int q)" using assms by (intro to_double_lower) linarith
  moreover have "(x - of_int q) / 2 ^ 53 \<le> 1 / 2 ^ 53" using assms by (intro divide_right_mono) simp_all
  moreover have "1 / 2 ^ 53 < (1 / 1000 :: real)" by simp
  ultimately have "1 / 1000 < to_double (x - of_int q)" using assms(1) by linarith
  with f tolerance show ?thesis by (simp add: step_up_def)
qed

lemma step_up_int [simp]: "step_up (of_int k) = k"
  using to_double_pos [of "1 / 10 ^ 9"] by (simp add: step_up_def)

lemma rank_from_step:
  assumes "0 \<le> p" "p \<le> 100" "n < 2 ^ 53" "step_up (exact_rank p n) = int r" "1 \<le> r" "r \<le> n"
  shows "rank_of p n = r"
  using assms ceil_step_up [OF assms(1-3)] by (simp add: rank_of_def Let_def)

lemma median_rank:
  assumes "0 < n" "n < 2 ^ 53"
  shows "rank_of 50 n = (n + 1) div 2"
proof (rule rank_from_step)
  have half: "to_double (50 / 100) = 1 / 2" using to_double_half [of 1] by simp
  have "to_double (real n) = real n" "to_double (real n / 2) = real n / 2" using assms(2) by (simp_all only: to_double_nat to_double_half less_imp_le)
  then have e: "exact_rank 50 n = real n / 2" by (simp only: exact_rank_def half) (simp only: times_divide_eq_left mult_1)
  show "step_up (exact_rank 50 n) = int ((n + 1) div 2)"
  proof (cases "even n")
    case True
    then obtain k where "n = 2 * k" by blast
    with e step_up_int [of "int k"] show ?thesis by simp
  next
    case False
    then obtain k where "n = 2 * k + 1" by (auto elim: oddE)
    then have "step_up (real n / 2) = int k + 1" "int ((n + 1) div 2) = int k + 1" by (simp_all add: step_up_beyond)
    then show ?thesis by (simp only: e)
  qed
qed (use assms in auto)

text \<open>The double nearest to 0.99 lies below it.\<close>

lemma double_099: "to_double (99 / 100) \<le> 99 / 100" "99 / 100 - 1 / 2 ^ 53 \<le> to_double (99 / 100)"
proof -
  have "\<lfloor>log 2 (99 / 100 :: real)\<rfloor> = - 1"
  proof (rule floor_unique)
    show "of_int (- 1) \<le> log 2 (99 / 100 :: real)" by (simp add: le_log_iff powr_minus)
    show "log 2 (99 / 100 :: real) < of_int (- 1) + 1" by simp
  qed
  then have e: "ulp_exp (99 / 100) = - 53" by (simp add: ulp_exp_def)
  have u: "2 powi (- 53) = 1 / (2::real) ^ 53" by (simp add: power_int_minus field_simps)
  have "\<lfloor>99 / 100 * (2::real) ^ 53\<rfloor> = 8917127262193582" by (rule floor_unique) simp_all
  then have "round_even (99 / 100 / 2 powi (- 53)) = 8917127262193582" unfolding u by (simp add: round_even_def)
  then have "to_double (99 / 100) = 8917127262193582 / 2 ^ 53" by (simp add: to_double_def e u)
  then show "to_double (99 / 100) \<le> 99 / 100" "99 / 100 - 1 / 2 ^ 53 \<le> to_double (99 / 100)" by simp_all
qed

lemma p99_bounds:
  assumes "n \<le> 10 ^ 9"
  shows "real (99 * n) / 100 - 1 / 10 ^ 5 \<le> exact_rank 99 n" "exact_rank 99 n \<le> to_double (real (99 * n) / 100)"
    "exact_rank 99 n \<le> real (99 * n) / 100 + 1 / 10 ^ 5"
proof -
  let ?c = "to_double (99 / 100)"
  have n: "to_double (real n) = real n" "real n \<le> 10 ^ 9" using assms by (simp_all add: to_double_nat)
  have e: "exact_rank 99 n = to_double (?c * real n)" by (simp only: exact_rank_def n(1))
  have pos: "0 \<le> ?c * real n" using double_099(2) by (intro mult_nonneg_nonneg) simp_all
  have c: "?c * real n \<le> real (99 * n) / 100" "(99 / 100 - 1 / 2 ^ 53) * real n \<le> ?c * real n"
    using mult_right_mono [OF double_099(1), of "real n"] mult_right_mono [OF double_099(2), of "real n"] by simp_all
  show up: "exact_rank 99 n \<le> to_double (real (99 * n) / 100)" unfolding e by (rule to_double_mono [OF pos c(1)])
  have "real (99 * n) / 100 / 2 ^ 53 \<le> 1 / 10 ^ 5" using n(2) by simp
  then show "exact_rank 99 n \<le> real (99 * n) / 100 + 1 / 10 ^ 5" using up to_double_upper [of "real (99 * n) / 100"] by linarith
  have "?c * real n / 2 ^ 53 \<le> real (99 * n) / 100 / 2 ^ 53" using c(1) by (rule divide_right_mono) simp
  moreover have "(99 / 100 - 1 / 2 ^ 53) * real n = real (99 * n) / 100 - real n / 2 ^ 53" by (simp add: algebra_simps)
  moreover have "real n / 2 ^ 53 + real (99 * n) / 100 / 2 ^ 53 \<le> 1 / 10 ^ 5" using n(2) by simp
  ultimately show "real (99 * n) / 100 - 1 / 10 ^ 5 \<le> exact_rank 99 n"
    unfolding e using to_double_lower [OF pos] c(2) by linarith
qed

lemma p99_rank:
  assumes "0 < n" "n \<le> 10 ^ 9"
  shows "rank_of 99 n = (99 * n + 99) div 100"
proof (rule rank_from_step)
  define q r where "q = 99 * n div 100" and "r = 99 * n mod 100"
  then have N: "99 * n = 100 * q + r" "r < 100" by simp_all
  have R: "real (99 * n) / 100 = real q + real r / 100" unfolding N(1) by simp
  note b = p99_bounds [OF assms(2), unfolded R]
  show "step_up (exact_rank 99 n) = int ((99 * n + 99) div 100)"
  proof (cases "r = 0")
    case True
    with N assms(1) have q: "(99 * n + 99) div 100 = q" "1 \<le> q" "q \<le> 2 ^ 53" using assms(2) by simp_all
    from b(2) True have "exact_rank 99 n \<le> real q" using to_double_nat [OF q(3)] by simp
    then consider "exact_rank 99 n = of_int (int q)" | "exact_rank 99 n < of_int (int q - 1) + 1" by force
    then show ?thesis
    proof cases
      case 1
      then show ?thesis by (simp only: step_up_int q(1))
    next
      case 2
      have "of_int (int q - 1) + 1 / 500 \<le> exact_rank 99 n" using b(1) True by simp
      from step_up_beyond [OF this 2] show ?thesis by (simp add: q(1))
    qed
  next
    case False
    with N have q: "(99 * n + 99) div 100 = q + 1" by simp
    have r: "1 \<le> real r" "real r \<le> 99" using False N(2) by simp_all
    from step_up_beyond [of "int q" "exact_rank 99 n"] b(1,3) r show ?thesis unfolding q by simp
  qed
qed (use assms in auto)

subsection \<open>The statistics\<close>

lemma percentile_value:
  assumes "stats_inv l" "0 < count l"
  shows "fst (percentile p l) = Some (sort (samples l) ! (rank_of p (count l) - 1))"
    "sort (samples l) ! (rank_of p (count l) - 1) \<in> set (samples l)" "snd (percentile p l) = ensure_sorted l"
proof -
  have i: "rank_of p (count l) - 1 < length (sort (samples l))" using rank_range [OF assms(2), of p] assms(2) unfolding count_def length_sort by linarith
  then show "fst (percentile p l) = Some (sort (samples l) ! (rank_of p (count l) - 1))" "snd (percentile p l) = ensure_sorted l"
    by (simp_all add: percentile_rank [OF assms(1)] at_index_def)
  show "sort (samples l) ! (rank_of p (count l) - 1) \<in> set (samples l)" using nth_mem [OF i] by simp
qed

lemma extreme_value:
  assumes "stats_inv l" "0 < count l" "count l < 2 ^ 53"
  shows "fst (min_sample l) = fst (percentile 0 l)" "fst (max_sample l) = fst (percentile 100 l)"
proof -
  have s: "sort (samples l) \<noteq> []" using assms(2) by (metis count_def length_greater_0_conv length_sort)
  note v = percentile_value(1) [OF assms(1,2)] ensure_sorted_ok(1) [OF assms(1)] rank_ends [OF assms(2,3)]
  show "fst (min_sample l) = fst (percentile 0 l)" using s by (simp add: v min_sample_def at_index_def)
  show "fst (max_sample l) = fst (percentile 100 l)" using s by (simp add: v max_sample_def last_conv_nth count_def [symmetric])
qed

lemma percentile_mono:
  assumes "stats_inv l" "0 < count l" "count l < 2 ^ 53" "p \<le> q"
  shows "sort (samples l) ! (rank_of p (count l) - 1) \<le> sort (samples l) ! (rank_of q (count l) - 1)"
proof (rule sorted_nth_mono)
  show "rank_of p (count l) - 1 \<le> rank_of q (count l) - 1" using rank_mono [OF assms(4,3,2)] by simp
  show "rank_of q (count l) - 1 < length (sort (samples l))" using rank_range [OF assms(2), of q] assms(2) unfolding count_def length_sort by linarith
qed simp

lemma sort_ends:
  assumes "xs \<noteq> []"
  shows "sort xs ! 0 = Min (set xs)" "sort xs ! (length xs - 1) = Max (set (xs :: u64 list))"
proof -
  have l: "0 < length xs" using assms by simp
  have "Min (set xs) = sort xs ! 0"
  proof (rule Min_eqI)
    fix y assume "y \<in> set xs"
    then obtain i where "i < length xs" "y = sort xs ! i" by (metis in_set_conv_nth length_sort set_sort)
    then show "sort xs ! 0 \<le> y" using sorted_nth_mono [of "sort xs" 0 i] by simp
  qed (use l nth_mem [of 0 "sort xs"] in simp_all)
  moreover have "Max (set xs) = sort xs ! (length xs - 1)"
  proof (rule Max_eqI)
    fix y assume "y \<in> set xs"
    then obtain i where "i < length xs" "y = sort xs ! i" by (metis in_set_conv_nth length_sort set_sort)
    then show "y \<le> sort xs ! (length xs - 1)" using sorted_nth_mono [of "sort xs" i "length xs - 1"] by simp
  qed (use l nth_mem [of "length xs - 1" "sort xs"] in simp_all)
  ultimately show "sort xs ! 0 = Min (set xs)" "sort xs ! (length xs - 1) = Max (set xs)" by simp_all
qed

text \<open>
  C37. Percentiles are order statistics: over a non-empty recorder every percentile is one of the
  recorded samples, a larger percentage never yields a smaller value, and the 0th and the 100th are
  the minimum and the maximum, although ranks are computed in \<open>double\<close>.
\<close>

theorem percentiles_ordered:
  assumes "stats_inv l" "\<not> empty l" "count l < 2 ^ 53" "p \<le> q"
  shows "\<exists>x y. fst (percentile p l) = Some x \<and> fst (percentile q l) = Some y \<and> x \<in> set (samples l) \<and> y \<in> set (samples l) \<and> x \<le> y
    \<and> fst (min_sample l) = Some (Min (set (samples l))) \<and> fst (percentile 0 l) = fst (min_sample l)
    \<and> fst (max_sample l) = Some (Max (set (samples l))) \<and> fst (percentile 100 l) = fst (max_sample l)"
proof -
  have n: "0 < count l" "samples l \<noteq> []" using assms(2) by (simp_all add: empty_def count_def)
  note v = percentile_value [OF assms(1) n(1)] extreme_value [OF assms(1) n(1) assms(3)]
  have "fst (min_sample l) = Some (Min (set (samples l)))" "fst (max_sample l) = Some (Max (set (samples l)))"
    using sort_ends [OF n(2)] rank_ends [OF n(1) assms(3)] v(1) [of 0] v(1) [of 100] v(4,5) by (simp_all add: count_def)
  with v percentile_mono [OF assms(1) n(1) assms(3,4)] show ?thesis by auto
qed

lemma ceiling_div:
  assumes "0 < m"
  shows "\<lceil>real a / real m\<rceil> = int ((a + (m - 1)) div m)"
proof -
  define q where "q = (a + (m - 1)) div m"
  have "m * q \<le> a + (m - 1)" "a + (m - 1) < m * (q + 1)" using assms by (simp_all add: q_def dividend_less_times_div mult.commute)
  then have "real m * real q < real a + real m" "real a \<le> real m * real q"
    using assms by (simp_all add: of_nat_mult [symmetric] of_nat_add [symmetric] del: of_nat_mult of_nat_add)
  then show ?thesis unfolding q_def [symmetric] using assms by (intro ceiling_unique) (simp_all add: field_simps)
qed

text \<open>
  C38. The reported statistics are the textbook nearest-rank ones: up to the largest configurable
  order volume, the median is the sample of rank \<open>\<lceil>n / 2\<rceil>\<close> and the 99th percentile that of rank
  \<open>\<lceil>99 n / 100\<rceil>\<close>; neither the rounding of \<open>0.99\<close> nor the tolerance moves the rank.
\<close>

theorem percentile_nearest_rank:
  assumes "stats_inv l" "\<not> empty l" "count l \<le> 10 ^ 9"
  shows "fst (median l) = Some (sort (samples l) ! (nat \<lceil>real (count l) / 2\<rceil> - 1))
    \<and> fst (p99 l) = Some (sort (samples l) ! (nat \<lceil>99 * real (count l) / 100\<rceil> - 1))"
proof -
  let ?n = "count l"
  have n: "0 < ?n" using assms(2) by (simp add: empty_def count_def)
  have "\<lceil>real ?n / 2\<rceil> = int ((?n + 1) div 2)" using ceiling_div [of 2 ?n] by simp
  moreover have "\<lceil>99 * real ?n / 100\<rceil> = int ((99 * ?n + 99) div 100)" using ceiling_div [of 100 "99 * ?n"] by simp
  ultimately show ?thesis
    using percentile_value(1) [OF assms(1) n] median_rank [OF n] p99_rank [OF n assms(3)] assms(3) by (simp add: median_def p99_def)
qed

definition demo_stats :: LatencyStats where
  "demo_stats = fold record_sample [40, 10, 30, 20] latency_new"

lemma demo_stats: "stats_inv demo_stats" "samples demo_stats = [40, 10, 30, 20]"
  by (simp_all add: demo_stats_def, simp add: record_sample_def latency_new_def)

theorem percentiles_ordered_witness:
  "\<exists>x y. fst (percentile 25 demo_stats) = Some x \<and> fst (percentile 75 demo_stats) = Some y \<and> x \<le> y \<and> fst (min_sample demo_stats) = Some 10"
  using percentiles_ordered [OF demo_stats(1), of 25 75] by (auto simp: demo_stats(2) empty_def count_def)

theorem percentile_nearest_rank_witness: "fst (median demo_stats) = Some 20 \<and> fst (p99 demo_stats) = Some 40"
proof -
  have "\<lceil>99 * real 4 / 100\<rceil> = 4" by (rule ceiling_unique) simp_all
  then show ?thesis using percentile_nearest_rank [OF demo_stats(1)] by (simp add: demo_stats(2) empty_def count_def)
qed

end
