(* ===== verification/Benchmark.thy ===== *)
theory Benchmark
  imports Latency_Stats
begin

text \<open>
  \<open>Benchmark\<close> of \<open>benchmark.hpp\<close>: the configuration and its bounds, the accounting of outcomes and the
  final result.  The exception of the constructor is the message on the left.
\<close>

definition kMinOrderVolume :: u64 where "kMinOrderVolume = 1000"
definition kMaxOrderVolume :: u64 where "kMaxOrderVolume = 1000000000"
definition kDefaultThroughputTarget :: real where "kDefaultThroughputTarget = 100000"

datatype OrderOutcome = Success | Failure

record BenchmarkConfig =
  order_volume :: u64
  target_throughput :: real

definition config_default :: BenchmarkConfig where
  "config_default = \<lparr>order_volume = kMinOrderVolume, target_throughput = kDefaultThroughputTarget\<rparr>"

definition volume_in_range :: "u64 \<Rightarrow> bool" where
  "volume_in_range volume \<longleftrightarrow> volume \<ge> kMinOrderVolume \<and> volume \<le> kMaxOrderVolume"

definition valid :: "BenchmarkConfig \<Rightarrow> bool" where
  "valid c \<longleftrightarrow> volume_in_range (order_volume c) \<and> target_throughput c > 0"

record BenchmarkResult =
  r_configured_volume :: u64
  r_total_orders :: u64
  r_successful_orders :: u64
  r_failed_orders :: u64
  r_elapsed_seconds :: real
  r_sustained_throughput :: real
  r_target_throughput :: real
  r_met_target :: bool

definition success :: "BenchmarkResult \<Rightarrow> bool" where
  "success r \<longleftrightarrow> r_met_target r"

record Benchmark =
  b_config :: BenchmarkConfig
  b_latency :: LatencyStats
  b_successful_orders :: u64
  b_failed_orders :: u64

definition benchmark_new :: "BenchmarkConfig \<Rightarrow> string + Benchmark" where
  "benchmark_new config =
     (if \<not> valid config
      then Inl ''BenchmarkConfig: order_volume must be within [1000, 1000000000] and target_throughput must be positive''
      else Inr \<lparr>b_config = config, b_latency = latency_new, b_successful_orders = 0, b_failed_orders = 0\<rparr>)"

definition record_success :: "u64 \<Rightarrow> Benchmark \<Rightarrow> Benchmark" where
  "record_success latency_us b = b\<lparr>b_successful_orders := b_successful_orders b + 1, b_latency := record_sample latency_us (b_latency b)\<rparr>"

definition record_failure :: "Benchmark \<Rightarrow> Benchmark" where
  "record_failure b = b\<lparr>b_failed_orders := b_failed_orders b + 1\<rparr>"

definition record_outcome :: "OrderOutcome \<Rightarrow> u64 \<Rightarrow> Benchmark \<Rightarrow> Benchmark" where
  "record_outcome outcome latency_us b = (if outcome = Success then record_success latency_us b else record_failure b)"

definition successful_orders :: "Benchmark \<Rightarrow> u64" where
  "successful_orders b = b_successful_orders b"

definition failed_orders :: "Benchmark \<Rightarrow> u64" where
  "failed_orders b = b_failed_orders b"

definition processed_orders :: "Benchmark \<Rightarrow> u64" where
  "processed_orders b = b_successful_orders b + b_failed_orders b"

definition finalize :: "real \<Rightarrow> Benchmark \<Rightarrow> BenchmarkResult" where
  "finalize elapsed_seconds b =
     (let total = processed_orders b;
          throughput = (if elapsed_seconds > 0 then to_double (to_double (real (unat total)) / elapsed_seconds) else 0)
      in \<lparr>r_configured_volume = order_volume (b_config b),
          r_total_orders = total,
          r_successful_orders = b_successful_orders b,
          r_failed_orders = b_failed_orders b,
          r_elapsed_seconds = elapsed_seconds,
          r_sustained_throughput = throughput,
          r_target_throughput = target_throughput (b_config b),
          r_met_target = (throughput \<ge> target_throughput (b_config b))\<rparr>)"

text \<open>A run: the outcomes of the submitted orders, in order.\<close>

definition record_all :: "(OrderOutcome \<times> u64) list \<Rightarrow> Benchmark \<Rightarrow> Benchmark" where
  "record_all outs b = fold (\<lambda>(outcome, latency_us). record_outcome outcome latency_us) outs b"

subsection \<open>Accounting\<close>

lemma record_all_counts:
  "b_successful_orders (record_all outs b) = b_successful_orders b + of_nat (length (filter (\<lambda>x. fst x = Success) outs))
   \<and> b_failed_orders (record_all outs b) = b_failed_orders b + of_nat (length (filter (\<lambda>x. fst x = Failure) outs))
   \<and> samples (b_latency (record_all outs b)) = samples (b_latency b) @ map snd (filter (\<lambda>x. fst x = Success) outs)
   \<and> b_config (record_all outs b) = b_config b \<and> (stats_inv (b_latency b) \<longrightarrow> stats_inv (b_latency (record_all outs b)))"
proof (induction outs arbitrary: b)
  case Nil
  then show ?case by (simp add: record_all_def)
next
  case (Cons x outs)
  obtain out us where x: "x = (out, us)" by (cases x)
  have "record_all (x # outs) b = record_all outs (record_outcome out us b)" by (simp add: record_all_def x)
  with Cons.IH [of "record_outcome out us b"] x show ?case
    by (cases out) (simp_all add: record_outcome_def record_success_def record_failure_def, simp_all add: record_sample_def)
qed

lemma outcomes_partition: "length (filter (\<lambda>x. fst x = Success) outs) + length (filter (\<lambda>x. fst x = Failure) outs) = length outs"
proof (induction outs)
  case (Cons x outs)
  then show ?case by (cases "fst x") simp_all
qed simp

text \<open>
  The accounting of a run: from a freshly constructed benchmark, after any sequence of outcomes,
  successes and failures are counted separately and add up to the orders submitted, and exactly the
  latencies of the successful orders, in order, enter the statistics, which stay consistent.
\<close>

theorem benchmark_accounts:
  assumes "benchmark_new config = Inr b" "length outs < 2 ^ 64"
  shows "unat (r_successful_orders (finalize t (record_all outs b))) = length (filter (\<lambda>x. fst x = Success) outs)
    \<and> unat (r_failed_orders (finalize t (record_all outs b))) = length (filter (\<lambda>x. fst x = Failure) outs)
    \<and> unat (r_total_orders (finalize t (record_all outs b))) = length outs
    \<and> samples (b_latency (record_all outs b)) = map snd (filter (\<lambda>x. fst x = Success) outs) \<and> stats_inv (b_latency (record_all outs b))"
proof -
  let ?s = "length (filter (\<lambda>x. fst x = Success) outs)" let ?f = "length (filter (\<lambda>x. fst x = Failure) outs)"
  have b: "b = \<lparr>b_config = config, b_latency = latency_new, b_successful_orders = 0, b_failed_orders = 0\<rparr>"
    using assms(1) by (auto simp: benchmark_new_def split: if_splits)
  note p = outcomes_partition [of outs]
  then have "unat (of_nat ?s :: u64) = ?s" "unat (of_nat ?f :: u64) = ?f" "unat (of_nat (length outs) :: u64) = length outs"
    using assms(2) by (simp_all only: unat_of_nat take_bit_nat_eq_self_iff) (simp_all add: take_bit_nat_eq_self)
  moreover have "of_nat ?s + of_nat ?f = (of_nat (length outs) :: u64)" using p by (metis of_nat_add)
  ultimately show ?thesis using record_all_counts [of outs b] b
    by (simp add: finalize_def processed_orders_def Let_def) (simp add: latency_new_def)
qed

definition demo_outcomes :: "(OrderOutcome \<times> u64) list" where
  "demo_outcomes = [(Success, 12), (Failure, 0), (Success, 9)]"

definition demo_benchmark :: Benchmark where
  "demo_benchmark = \<lparr>b_config = config_default, b_latency = latency_new, b_successful_orders = 0, b_failed_orders = 0\<rparr>"

lemma demo_benchmark_new: "benchmark_new config_default = Inr demo_benchmark"
  by (simp add: benchmark_new_def valid_def volume_in_range_def config_default_def kMinOrderVolume_def kMaxOrderVolume_def
      kDefaultThroughputTarget_def demo_benchmark_def)

theorem benchmark_accounts_witness:
  "unat (r_successful_orders (finalize 1 (record_all demo_outcomes demo_benchmark))) = 2
   \<and> samples (b_latency (record_all demo_outcomes demo_benchmark)) = [12, 9]"
  using benchmark_accounts [OF demo_benchmark_new, of demo_outcomes 1] by (simp add: demo_outcomes_def)

text \<open>
  C39. The verdict can be trusted up to one rounding: for a target that is a \<open>double\<close> (and a count below
  \<open>2 ^ 53\<close>), a run whose true throughput reaches the target succeeds; a run that succeeds has a true
  throughput of at least the target divided by \<open>1 + 2 ^ - 53\<close>; and a run without a positive elapsed
  time never succeeds.
\<close>

theorem verdict_within_one_rounding:
  assumes "benchmark_new config = Inr b" "length outs < 2 ^ 53" "to_double (target_throughput config) = target_throughput config"
  shows "(0 < t \<and> target_throughput config \<le> real (length outs) / t \<longrightarrow> success (finalize t (record_all outs b)))
    \<and> (success (finalize t (record_all outs b)) \<longrightarrow> 0 < t \<and> target_throughput config \<le> real (length outs) / t * (1 + 1 / 2 ^ 53))"
proof -
  let ?T = "target_throughput config" let ?x = "real (length outs) / t"
  have v: "valid config" and b: "b_config b = config" "b_successful_orders b = 0" "b_failed_orders b = 0"
    using assms(1) by (auto simp: benchmark_new_def split: if_splits)
  have "processed_orders (record_all outs b) = of_nat (length outs)"
    using record_all_counts [of outs b] b(2,3) outcomes_partition [of outs] by (simp add: processed_orders_def) (metis of_nat_add)
  then have "real (unat (processed_orders (record_all outs b))) = real (length outs)"
    using assms(2) by (simp add: unat_of_nat take_bit_nat_eq_self)
  then have th: "r_met_target (finalize t (record_all outs b)) \<longleftrightarrow> ?T \<le> (if t > 0 then to_double ?x else 0)"
    using record_all_counts [of outs b] b(1) assms(2) to_double_nat [of "length outs"] by (simp add: finalize_def Let_def)
  have pos: "0 < ?T" using v by (simp add: valid_def)
  have "?T \<le> to_double ?x" if "0 < t" "?T \<le> ?x" using to_double_mono [OF _ that(2)] pos assms(3) by simp
  moreover have "?T \<le> ?x * (1 + 1 / 2 ^ 53)" if "0 < t" "?T \<le> to_double ?x"
    using to_double_upper [of ?x] that by (simp add: ring_distribs)
  ultimately show ?thesis using th pos by (auto simp: success_def)
qed

theorem verdict_within_one_rounding_witness:
  "\<not> success (finalize 1 (record_all demo_outcomes demo_benchmark)) \<and> success (finalize (1 / 50000) (record_all demo_outcomes demo_benchmark))"
proof -
  have t: "to_double (target_throughput config_default) = target_throughput config_default" "target_throughput config_default = 100000"
    using to_double_nat [of 100000] by (simp_all add: config_default_def kDefaultThroughputTarget_def)
  have l: "length demo_outcomes = 3" by (simp add: demo_outcomes_def)
  show ?thesis
    using verdict_within_one_rounding [OF demo_benchmark_new _ t(1), of demo_outcomes 1]
      verdict_within_one_rounding [OF demo_benchmark_new _ t(1), of demo_outcomes "1 / 50000"]
    unfolding t(2) l by auto
qed

end
