(* ===== verification/Alloc_Counter.thy ===== *)
theory Alloc_Counter
  imports HME_Prelude
begin

text \<open>
  \<open>AllocationCounter\<close> of \<open>alloc_counter.hpp\<close> and \<open>alloc_counter.cpp\<close>: the process-wide counters and the
  replaced global allocation functions.  The C heap is a parameter: \<open>malloc\<close> (0 is the null pointer),
  \<open>free\<close> and the installed new-handler, which may return or throw, over a heap state \<open>'h\<close>.
\<close>

record AllocationCounters =
  g_allocations :: u64
  g_deallocations :: u64
  g_bytes_allocated :: u64

record 'h c_heap =
  c_malloc :: "u64 \<Rightarrow> 'h \<Rightarrow> nat \<times> 'h"
  c_free :: "nat \<Rightarrow> 'h \<Rightarrow> 'h"
  c_new_handler :: "'h \<Rightarrow> ('h \<Rightarrow> bool \<times> 'h) option"

datatype NewError = BadAlloc | HandlerThrew

definition counters_new :: AllocationCounters where
  "counters_new = \<lparr>g_allocations = 0, g_deallocations = 0, g_bytes_allocated = 0\<rparr>"

definition note_allocation :: "u64 \<Rightarrow> AllocationCounters \<Rightarrow> AllocationCounters" where
  "note_allocation bytes c = c\<lparr>g_allocations := g_allocations c + 1, g_bytes_allocated := g_bytes_allocated c + bytes\<rparr>"

definition note_deallocation :: "nat \<Rightarrow> AllocationCounters \<Rightarrow> AllocationCounters" where
  "note_deallocation ptr c = (if ptr \<noteq> 0 then c\<lparr>g_deallocations := g_deallocations c + 1\<rparr> else c)"

text \<open>The retry loop; \<open>None\<close> is a handler that returns for ever without freeing enough.\<close>

partial_function (option) allocate_or_throw :: "'h c_heap \<Rightarrow> u64 \<Rightarrow> AllocationCounters \<Rightarrow> 'h
    \<Rightarrow> ((NewError + nat) \<times> AllocationCounters \<times> 'h) option" where
  "allocate_or_throw env bytes c h =
     (let request = (if bytes = 0 then 1 else bytes) in
      case c_malloc env request h of (p, h) \<Rightarrow>
      if p \<noteq> 0 then Some (Inr p, note_allocation bytes c, h)
      else case c_new_handler env h of
          None \<Rightarrow> Some (Inl BadAlloc, c, h)
        | Some handler \<Rightarrow> (case handler h of (returned, h) \<Rightarrow>
            if returned then allocate_or_throw env bytes c h else Some (Inl HandlerThrew, c, h)))"

definition allocate_nothrow :: "'h c_heap \<Rightarrow> u64 \<Rightarrow> AllocationCounters \<Rightarrow> 'h \<Rightarrow> (nat \<times> AllocationCounters \<times> 'h) option" where
  "allocate_nothrow env bytes c h = do {
     (r, c, h) \<leftarrow> allocate_or_throw env bytes c h;
     Some (case r of Inr p \<Rightarrow> p | Inl _ \<Rightarrow> 0, c, h)
   }"

definition allocation_count :: "AllocationCounters \<Rightarrow> u64" where
  "allocation_count c = g_allocations c"

definition deallocation_count :: "AllocationCounters \<Rightarrow> u64" where
  "deallocation_count c = g_deallocations c"

definition bytes_allocated :: "AllocationCounters \<Rightarrow> u64" where
  "bytes_allocated c = g_bytes_allocated c"

record Snapshot =
  sn_allocations :: u64
  sn_deallocations :: u64
  sn_bytes_allocated :: u64

definition snapshot :: "AllocationCounters \<Rightarrow> Snapshot" where
  "snapshot c = \<lparr>sn_allocations = g_allocations c, sn_deallocations = g_deallocations c, sn_bytes_allocated = g_bytes_allocated c\<rparr>"

definition allocations_since :: "Snapshot \<Rightarrow> AllocationCounters \<Rightarrow> u64" where
  "allocations_since before c = allocation_count c - sn_allocations before"

text \<open>The replaced operators.\<close>

definition operator_new :: "'h c_heap \<Rightarrow> u64 \<Rightarrow> AllocationCounters \<Rightarrow> 'h \<Rightarrow> ((NewError + nat) \<times> AllocationCounters \<times> 'h) option" where
  "operator_new env bytes c h = allocate_or_throw env bytes c h"

definition operator_new_array :: "'h c_heap \<Rightarrow> u64 \<Rightarrow> AllocationCounters \<Rightarrow> 'h \<Rightarrow> ((NewError + nat) \<times> AllocationCounters \<times> 'h) option" where
  "operator_new_array env bytes c h = allocate_or_throw env bytes c h"

definition operator_new_nothrow :: "'h c_heap \<Rightarrow> u64 \<Rightarrow> AllocationCounters \<Rightarrow> 'h \<Rightarrow> (nat \<times> AllocationCounters \<times> 'h) option" where
  "operator_new_nothrow env bytes c h = allocate_nothrow env bytes c h"

definition operator_new_array_nothrow :: "'h c_heap \<Rightarrow> u64 \<Rightarrow> AllocationCounters \<Rightarrow> 'h \<Rightarrow> (nat \<times> AllocationCounters \<times> 'h) option" where
  "operator_new_array_nothrow env bytes c h = allocate_nothrow env bytes c h"

definition operator_delete :: "'h c_heap \<Rightarrow> nat \<Rightarrow> AllocationCounters \<Rightarrow> 'h \<Rightarrow> AllocationCounters \<times> 'h" where
  "operator_delete env ptr c h = (note_deallocation ptr c, c_free env ptr h)"

definition operator_delete_array :: "'h c_heap \<Rightarrow> nat \<Rightarrow> AllocationCounters \<Rightarrow> 'h \<Rightarrow> AllocationCounters \<times> 'h" where
  "operator_delete_array env ptr c h = (note_deallocation ptr c, c_free env ptr h)"

definition operator_delete_sized :: "'h c_heap \<Rightarrow> nat \<Rightarrow> u64 \<Rightarrow> AllocationCounters \<Rightarrow> 'h \<Rightarrow> AllocationCounters \<times> 'h" where
  "operator_delete_sized env ptr bytes c h = (note_deallocation ptr c, c_free env ptr h)"

definition operator_delete_array_sized :: "'h c_heap \<Rightarrow> nat \<Rightarrow> u64 \<Rightarrow> AllocationCounters \<Rightarrow> 'h \<Rightarrow> AllocationCounters \<times> 'h" where
  "operator_delete_array_sized env ptr bytes c h = (note_deallocation ptr c, c_free env ptr h)"

definition operator_delete_nothrow :: "'h c_heap \<Rightarrow> nat \<Rightarrow> AllocationCounters \<Rightarrow> 'h \<Rightarrow> AllocationCounters \<times> 'h" where
  "operator_delete_nothrow env ptr c h = (note_deallocation ptr c, c_free env ptr h)"

definition operator_delete_array_nothrow :: "'h c_heap \<Rightarrow> nat \<Rightarrow> AllocationCounters \<Rightarrow> 'h \<Rightarrow> AllocationCounters \<times> 'h" where
  "operator_delete_array_nothrow env ptr c h = (note_deallocation ptr c, c_free env ptr h)"

declare allocate_or_throw.simps [code]

subsection \<open>Every call is counted\<close>

text \<open>A program's dynamic memory traffic: calls of the operators, with the pointer each \<open>new\<close> returned (0 when it failed).\<close>

datatype HeapCall = New u64 | NewArray u64 | NewNothrow u64 | NewArrayNothrow u64
  | Delete nat | DeleteArray nat | DeleteSized nat u64 | DeleteArraySized nat u64 | DeleteNothrow nat | DeleteArrayNothrow nat

definition pointer :: "NewError + nat \<Rightarrow> nat" where
  "pointer r = (case r of Inr p \<Rightarrow> p | Inl _ \<Rightarrow> 0)"

fun exec_call :: "'h c_heap \<Rightarrow> HeapCall \<Rightarrow> AllocationCounters \<Rightarrow> 'h \<Rightarrow> (nat \<times> AllocationCounters \<times> 'h) option" where
  "exec_call env (New n) c h = map_option (\<lambda>(r, c, h). (pointer r, c, h)) (operator_new env n c h)"
| "exec_call env (NewArray n) c h = map_option (\<lambda>(r, c, h). (pointer r, c, h)) (operator_new_array env n c h)"
| "exec_call env (NewNothrow n) c h = operator_new_nothrow env n c h"
| "exec_call env (NewArrayNothrow n) c h = operator_new_array_nothrow env n c h"
| "exec_call env (Delete p) c h = Some (0, operator_delete env p c h)"
| "exec_call env (DeleteArray p) c h = Some (0, operator_delete_array env p c h)"
| "exec_call env (DeleteSized p n) c h = Some (0, operator_delete_sized env p n c h)"
| "exec_call env (DeleteArraySized p n) c h = Some (0, operator_delete_array_sized env p n c h)"
| "exec_call env (DeleteNothrow p) c h = Some (0, operator_delete_nothrow env p c h)"
| "exec_call env (DeleteArrayNothrow p) c h = Some (0, operator_delete_array_nothrow env p c h)"

fun exec_calls :: "'h c_heap \<Rightarrow> HeapCall list \<Rightarrow> AllocationCounters \<Rightarrow> 'h \<Rightarrow> (nat list \<times> AllocationCounters \<times> 'h) option" where
  "exec_calls env [] c h = Some ([], c, h)"
| "exec_calls env (x # xs) c h = do {
     (p, c, h) \<leftarrow> exec_call env x c h;
     (ps, c, h) \<leftarrow> exec_calls env xs c h;
     Some (p # ps, c, h)
   }"

text \<open>What a call that returned pointer \<open>p\<close> contributes: allocations, deallocations, bytes.\<close>

fun requested :: "HeapCall \<Rightarrow> u64 option" where
  "requested (New n) = Some n" | "requested (NewArray n) = Some n" | "requested (NewNothrow n) = Some n" | "requested (NewArrayNothrow n) = Some n"
| "requested _ = None"

fun released :: "HeapCall \<Rightarrow> nat" where
  "released (Delete p) = p" | "released (DeleteArray p) = p" | "released (DeleteSized p _) = p" | "released (DeleteArraySized p _) = p"
| "released (DeleteNothrow p) = p" | "released (DeleteArrayNothrow p) = p" | "released _ = 0"

lemma allocate_counts:
  assumes "allocate_or_throw env bytes c h = Some (r, c', h')"
  shows "c' = (if pointer r = 0 then c else note_allocation bytes c)"
proof -
  have "fst (snd (r, c', h')) = (if pointer (fst (r, c', h')) = 0 then c else note_allocation bytes c)"
    by (rule allocate_or_throw.raw_induct [where P = "\<lambda>env bytes c h x. fst (snd x) = (if pointer (fst x) = 0 then c else note_allocation bytes c)", OF _ assms])
      (auto simp: pointer_def Let_def split: prod.splits if_splits option.splits)
  then show ?thesis by simp
qed

lemmas operator_defs = operator_new_def operator_new_array_def operator_new_nothrow_def operator_new_array_nothrow_def allocate_nothrow_def
  operator_delete_def operator_delete_array_def operator_delete_sized_def operator_delete_array_sized_def operator_delete_nothrow_def
  operator_delete_array_nothrow_def

lemma call_counts:
  assumes "exec_call env x c h = Some (p, c', h')"
  shows "c' = (case requested x of Some n \<Rightarrow> if p = 0 then c else note_allocation n c | None \<Rightarrow> note_deallocation (released x) c)"
  using assms
  by (cases x)
    (auto simp: operator_defs pointer_def [symmetric] bind_eq_Some_conv dest!: allocate_counts split: if_splits)

text \<open>
  What the program relies on for its allocations to return: a new-handler that returns has made
  progress (here: it lowers \<open>m\<close>, say the memory it can still give up), as the language requires of it.
\<close>

definition handler_ok :: "'h c_heap \<Rightarrow> ('h \<Rightarrow> nat) \<Rightarrow> bool" where
  "handler_ok env m \<longleftrightarrow> (\<forall>n h. m (snd (c_malloc env n h)) \<le> m h)
     \<and> (\<forall>h handler. c_new_handler env h = Some handler \<longrightarrow> fst (handler h) \<longrightarrow> m (snd (handler h)) < m h)"

lemma allocate_returns:
  assumes "handler_ok env m"
  shows "\<exists>r c' h'. allocate_or_throw env bytes c h = Some (r, c', h')"
proof (induction "m h" arbitrary: h rule: less_induct)
  case less
  let ?n = "if bytes = 0 then 1 else bytes"
  obtain p h1 where ma: "c_malloc env ?n h = (p, h1)" by (cases "c_malloc env ?n h")
  then have m1: "m h1 \<le> m h" using assms unfolding handler_ok_def by (metis snd_conv)
  show ?case
  proof (cases "c_new_handler env h1")
    case None
    then show ?thesis using ma by (subst allocate_or_throw.simps) (simp add: Let_def)
  next
    case (Some handler)
    obtain ret h2 where h2: "handler h1 = (ret, h2)" by (cases "handler h1")
    have "\<exists>r c' h'. allocate_or_throw env bytes c h2 = Some (r, c', h')" if ret
    proof (rule less.hyps)
      show "m h2 < m h" using assms Some h2 that m1 unfolding handler_ok_def by (metis fst_conv order_less_le_trans snd_conv)
    qed
    then show ?thesis using ma Some h2 by (subst allocate_or_throw.simps) (auto simp: Let_def)
  qed
qed

lemma call_returns:
  assumes "handler_ok env m"
  shows "\<exists>p c' h'. exec_call env x c h = Some (p, c', h')"
proof -
  have "allocate_or_throw env n c h \<noteq> None" for n using allocate_returns [OF assms, of n c h] by auto
  then have "exec_call env x c h \<noteq> None" by (cases x) (auto simp: operator_defs bind_eq_None_conv split: prod.splits)
  then show ?thesis by (cases "exec_call env x c h") auto
qed

definition news :: "HeapCall list \<Rightarrow> nat list \<Rightarrow> u64 list" where
  "news xs ps = map (\<lambda>(x, p). the (requested x)) (filter (\<lambda>(x, p). requested x \<noteq> None \<and> p \<noteq> 0) (zip xs ps))"

lemma calls_count:
  assumes "handler_ok env m"
  shows "\<exists>ps c' h'. exec_calls env xs c h = Some (ps, c', h') \<and> length ps = length xs
    \<and> g_allocations c' = g_allocations c + of_nat (length (news xs ps))
    \<and> g_bytes_allocated c' = g_bytes_allocated c + sum_list (news xs ps)
    \<and> g_deallocations c' = g_deallocations c + of_nat (length (filter (\<lambda>x. released x \<noteq> 0) xs))"
proof (induction xs arbitrary: c h)
  case (Cons x xs)
  obtain p c1 h1 where x: "exec_call env x c h = Some (p, c1, h1)" using call_returns [OF assms] by blast
  from Cons.IH [of c1 h1] obtain ps c' h' where
    "exec_calls env xs c1 h1 = Some (ps, c', h')" "length ps = length xs"
    "g_allocations c' = g_allocations c1 + of_nat (length (news xs ps))" "g_bytes_allocated c' = g_bytes_allocated c1 + sum_list (news xs ps)"
    "g_deallocations c' = g_deallocations c1 + of_nat (length (filter (\<lambda>x. released x \<noteq> 0) xs))" by blast
  moreover have "requested x \<noteq> None \<Longrightarrow> released x = 0" by (cases x) simp_all
  ultimately show ?case using x call_counts [OF x]
    by (intro exI [of _ "p # ps"] exI [of _ c'] exI [of _ h'])
      (auto simp: news_def note_allocation_def note_deallocation_def split: option.splits)
qed (simp add: news_def)

text \<open>
  C40. The counter observes every dynamic allocation: whatever calls of the replaced operators happen
  after a snapshot, they return, and the difference read from the counters is exactly the number of
  allocations that succeeded, the bytes they requested and the number of non-null pointers released
  (modulo \<open>2 ^ 64\<close>); in particular, over fewer than \<open>2 ^ 64\<close> calls, \<open>allocations_since\<close> is zero exactly
  when nothing was allocated.
\<close>

theorem every_allocation_counted:
  assumes "handler_ok env m" "length xs < 2 ^ 64"
  shows "\<exists>ps c' h'. exec_calls env xs c h = Some (ps, c', h')
    \<and> unat (allocations_since (snapshot c) c') = length (news xs ps)
    \<and> bytes_allocated c' - sn_bytes_allocated (snapshot c) = sum_list (news xs ps)
    \<and> unat (deallocation_count c' - sn_deallocations (snapshot c)) = length (filter (\<lambda>x. released x \<noteq> 0) xs)
    \<and> (allocations_since (snapshot c) c' = 0 \<longleftrightarrow> (\<forall>i<length xs. requested (xs ! i) \<noteq> None \<longrightarrow> ps ! i = 0))"
proof -
  from calls_count [OF assms(1), of xs c h] obtain ps c' h' where
    r: "exec_calls env xs c h = Some (ps, c', h')" "length ps = length xs"
      "g_allocations c' = g_allocations c + of_nat (length (news xs ps))"
      "g_bytes_allocated c' = g_bytes_allocated c + sum_list (news xs ps)"
      "g_deallocations c' = g_deallocations c + of_nat (length (filter (\<lambda>x. released x \<noteq> 0) xs))" by blast
  have "length (news xs ps) \<le> length (zip xs ps)" unfolding news_def length_map by (rule length_filter_le)
  with r(2) assms(2) have n: "length (news xs ps) < 2 ^ 64" by simp
  have d: "length (filter (\<lambda>x. released x \<noteq> 0) xs) < 2 ^ 64" using length_filter_le [of "\<lambda>x. released x \<noteq> 0" xs] assms(2) by linarith
  have sm: "k < 2 ^ 64 \<Longrightarrow> unat (of_nat k :: u64) = k" for k :: nat by (simp add: unat_of_nat take_bit_nat_eq_self)
  have u: "unat (allocations_since (snapshot c) c') = length (news xs ps)" using r(3) sm [OF n] by (simp add: allocations_since_def snapshot_def allocation_count_def)
  have "news xs ps = [] \<longleftrightarrow> (\<forall>i<length xs. requested (xs ! i) \<noteq> None \<longrightarrow> ps ! i = 0)"
    using r(2) by (auto simp: news_def filter_empty_conv all_set_conv_all_nth case_prod_beta simp del: split_paired_All)
  moreover have "allocations_since (snapshot c) c' = 0 \<longleftrightarrow> news xs ps = []" using u by (metis length_0_conv unat_eq_zero)
  ultimately show ?thesis
    using r(1,4,5) u sm [OF d] by (intro exI [of _ ps] exI [of _ c'] exI [of _ h']) (simp add: bytes_allocated_def deallocation_count_def snapshot_def)
qed

definition demo_heap :: "nat c_heap" where
  "demo_heap = \<lparr>c_malloc = (\<lambda>n h. if unat n \<le> 100 then (h + 1, h) else (0, h)), c_free = (\<lambda>p h. h), c_new_handler = (\<lambda>h. None)\<rparr>"

theorem every_allocation_counted_witness:
  "\<exists>ps c' h'. exec_calls demo_heap [New 8, NewNothrow 200, Delete 5, DeleteArray 0] counters_new 3 = Some (ps, c', h')
    \<and> unat (allocations_since (snapshot counters_new) c') = length (news [New 8, NewNothrow 200, Delete 5, DeleteArray 0] ps)
    \<and> unat (deallocation_count c' - sn_deallocations (snapshot counters_new)) = 1"
proof -
  have "handler_ok demo_heap (\<lambda>_. 0)" by (simp add: handler_ok_def demo_heap_def)
  from every_allocation_counted [OF this, of "[New 8, NewNothrow 200, Delete 5, DeleteArray 0]" counters_new 3] show ?thesis by auto
qed

end
