(* ===== verification/Spec2Isabelle.thy ===== *)
theory Spec2Isabelle
  imports Integrity_Guard Container_Traces Processor_Trace Select_Limit Server_Main Benchmark Alloc_Counter
begin

text \<open>
  \<^bold>\<open>The program.\<close> Hyper-Match-Engine is a limit-order matching engine with a TCP front-end, written in
  C++ under \<open>src/cpp\<close>.  A client sends fixed-layout binary messages; the select loop (\<open>TcpServer\<close>) reads
  bytes and hands them to \<open>ServerPipeline\<close>, which reassembles frames per connection
  (\<open>ConnectionRegistry\<close>, \<open>FrameBuffer\<close>), decodes them (\<open>codec.cpp\<close>), queues them in the ingress ring,
  lets \<open>EngineProcessor\<close> run \<open>MatchingEngine\<close> over the \<open>OrderBook\<close>, and encodes the events of the egress
  ring back onto the connection.  Beside this path stand the integrity guard, the allocation counter
  and the benchmark statistics.  This development models every C++ component of that path and
  proves, layer by layer, that the whole refines a small reference execution over lists.

  \<^bold>\<open>Theories and the code they model.\<close>
  \<^item> \<open>HME_Prelude\<close>: word types, \<open>for_each\<close> (a loop over a sequence whose body may fail), list lemmas.
  \<^item> \<open>Trace_Refinement\<close>: running a component over a sequence of events (\<open>run_trace\<close>), its specification
    over the same events (\<open>spec_trace\<close>), and the locale \<open>forward_simulation\<close> that lifts a step-wise
    simulation to all traces.
  \<^item> \<open>Wire_Protocol\<close>, \<open>Binary_Message\<close>, \<open>Codec\<close>: \<open>wire_protocol.hpp\<close>, \<open>binary_message.hpp\<close>, \<open>codec.cpp\<close>.
    Cursors write and read little-endian words; \<open>encode\<close> and \<open>decode\<close> return a sum of error and result;
    \<open>layout_asserts\<close> are the compile-time assertions.
  \<^item> \<open>Ring_Buffer\<close>: \<open>ring_buffer.hpp\<close>, with the locale \<open>bounded_fifo\<close> that the processor uses.
  \<^item> \<open>Pool\<close>, \<open>Linked_List\<close>, \<open>Order_Book\<close>: \<open>order_book.hpp\<close>.  Free-list pools and intrusive doubly linked
    lists are arrays of nodes with index links, as in the code; an access out of bounds is \<open>None\<close>, a
    loop that would not end is \<open>None\<close> as well.
  \<^item> \<open>Abstract_Book\<close>: the specification: each side is a list of levels, each level a list of orders;
    \<open>Book_Shape\<close>, \<open>Book_Loops\<close>, \<open>Book_Links\<close>, \<open>Book_Operations\<close>, \<open>Book_Refinement\<close>: \<open>book_rel\<close> relates
    the linked representation to it and every operation of \<open>OrderBook\<close> refines its list counterpart.
  \<^item> \<open>Probe_Table\<close>, \<open>Retired_Ids\<close>: the retired-id set of \<open>matching_engine.hpp\<close> (open addressing with
    back-shift deletion, and the FIFO ring that bounds it) is the list of the most recent ids.
  \<^item> \<open>Matching_Engine\<close>, \<open>Matching_Properties\<close>: \<open>matching_engine.hpp\<close>: \<open>process_new_order\<close> with its matching
    loop, validation, cancellation.  \<open>Container_Traces\<close>: the book and the retired-id set over every
    sequence of their operations.
  \<^item> \<open>Engine_Processor\<close>: \<open>engine_processor.hpp\<close>: startup, the ingress and egress rings, dispatch, the
    counters.  \<open>Processor_Trace\<close>: it is a reference engine between two bounded queues.
  \<^item> \<open>Integrity_Guard\<close>: \<open>integrity_guard.hpp\<close>: the run-time checks, characterised on every book whose links
    can be followed (\<open>walkable\<close>), sorted or not, and guarded commit.
  \<^item> \<open>Frame_Stream\<close>: the specification of framing, \<open>split_stream\<close>, and the locale \<open>frame_codec\<close> of what
    framing needs from a codec, interpreted by the wire codec; \<open>Frame_Buffer\<close>: \<open>frame_buffer.hpp\<close>.
  \<^item> \<open>Connection_Registry\<close>: \<open>connection_registry.hpp\<close>, over a poller whose calls are recorded in order;
    the locale \<open>readiness_poller\<close> is the interface, interpreted by the select poller.
  \<^item> \<open>Server_Pipeline\<close>: \<open>server_pipeline.hpp\<close>; \<open>a_read\<close> is the reference execution of one read.
    \<open>Pipeline_Trace\<close>: the abstract server (\<open>as_step\<close>: an abstract engine, the unfinished bytes of every
    connection, counters) over arbitrary interleavings of connections, and its reading as a
    demultiplexer (\<open>demux_step\<close>) in front of the engine.
  \<^item> \<open>Tcp_Server\<close>, \<open>Tcp_Server_Invariant\<close>, \<open>Tcp_Server_Properties\<close>: \<open>tcp_server.hpp\<close> and
    \<open>tcp_server.cpp\<close>, over the record \<open>system\<close> of system calls.  Both branches of \<open>#ifdef _WIN32\<close> are
    modelled; \<open>Platform\<close> says which one was compiled.  Signals are delivered at the points where the
    loop reads its stop flag (\<open>take_signal\<close>); the macros \<open>FD_SET\<close> and \<open>FD_ISSET\<close> belong to the record.
    \<open>Server_Trace\<close>: the loop's iterations are a schedule of events of the abstract server, and the byte
    streams of every live connection are those of that schedule.  \<open>Select_Limit\<close>: what the finite size of
    an \<open>fd_set\<close> does to the loop on either platform.
  \<^item> \<open>Server_Main\<close>: \<open>main.cpp\<close>: the command line, start-up (\<open>main_start\<close>), the run and the exit code.
  \<^item> \<open>Ieee_Double\<close>, \<open>Latency_Stats\<close>, \<open>Benchmark\<close>: \<open>latency_stats.hpp\<close> and \<open>benchmark.hpp\<close>, on reals
    rounded to 53 bits after every operation.
  \<^item> \<open>Alloc_Counter\<close>: \<open>alloc_counter.hpp\<close> and \<open>alloc_counter.cpp\<close>, over a C heap given as a parameter.

  \<^bold>\<open>Interfaces.\<close>  \<open>slot_allocator\<close> (pools), \<open>resting_book\<close> (the book the engine matches against),
  \<open>id_history\<close> (retired ids), \<open>bounded_fifo\<close> (rings), \<open>frame_codec\<close> (the codec under framing) and
  \<open>readiness_poller\<close> are locales; each is interpreted on the model of the code that provides it, and
  the clients' proofs use the interpreted facts.  \<open>forward_simulation\<close> is interpreted four times: on the
  order book, the retired-id set, the processor and the pipeline.

  \<^bold>\<open>What is shown.\<close>  The codec is a bijection between in-range messages and frames, with every error
  classified.  Framing depends only on the byte stream, never on how reads cut it.  The book's
  pointers represent sorted, uncrossed lists in every reachable state; matching equals the list
  specification, follows price-time priority, conserves quantity and always returns.  The processor
  answers every message as long as the egress ring has room, and counts what it loses otherwise; a
  refused message leaves no trace but its rejection.  The pipeline and the read handler deliver
  exactly the frames of the reference execution, in order; over any interleaving of connections the
  server is a demultiplexer in front of one engine, each read cut to what the two rings hold, and its
  counters account for every message and every event.  The TCP server around it refines the same
  abstract server, byte for byte, for any behaviour of the operating system, over every run in which
  the queues are drained (\<open>drained\<close>: none comes within one read's answers of \<open>2 ^ 31\<close> bytes, the range of
  \<open>send\<close>'s length; beyond it a queue is lost).  The event loop leaks no descriptor, keeps its four
  views of the live connections equal, and ends after a stop signal, but loses a stop request that
  comes before it starts.  Starting up fails exactly when a call fails or the host is no address, says
  which (\<open>reports\<close>), and leaves nothing open; otherwise the socket is bound, listening and
  non-blocking (\<open>serving\<close>).  When a stop signal is to come, \<open>main\<close> returns: with exit code 1 and such a
  message, or with 0 after having behaved, in all the operating system can see and as long as the
  queues are drained, as the abstract server with the configuration of the command line.

  \<^bold>\<open>Assumptions.\<close>  Of the operating system: \<open>system_ok\<close> (new descriptors are unused and below the process
  limit, a close closes, the backlog is finite), \<open>limit_fits\<close> (descriptors fit into an \<open>fd_set\<close>, and there
  \<open>FD_SET\<close> and \<open>FD_ISSET\<close> are defined and the latter tells membership), \<open>sends_ok\<close> (what \<open>send\<close> reports is
  delivered), \<open>streams_ok\<close> (only \<open>recv\<close> and \<open>send\<close> extend a socket's byte streams, by what they report),
  \<open>clock_ok\<close> with \<open>due\<close> (a stop signal after finitely many waits), \<open>start_keeps_due\<close> (starting up does not
  delay it), \<open>listen_calls_ok\<close> and \<open>start_calls_ok\<close> (a start-up call that succeeds has had its effect on
  the socket, one that fails is observed as a fault), and in \<open>Select_Limit\<close> alone \<open>select_documented\<close> (the
  macros and \<open>select\<close> as their manuals describe them); of the C heap: \<open>handler_ok\<close>.  \<open>demo_os\<close>,
  \<open>small_posix\<close>, \<open>small_windows\<close> and \<open>demo_heap\<close> satisfy them.

  \<^bold>\<open>Bounds and termination.\<close>  No fuel is used: loops are structural, have a measure, or are partial
  functions into \<open>option\<close> that are proved to return \<open>Some\<close>.  Words keep their width (8, 16, 32, 64
  bits) where the code stores them; pool capacities are below the null index \<open>kNullNode\<close>; sizes that
  the code computes in \<open>size_t\<close> without a possible wrap are natural numbers.

  \<^bold>\<open>Not modelled.\<close>  Accessors that return a reference to a member (the record selector is the accessor);
  \<open>codec.hpp\<close> and \<open>engine.hpp\<close>, which only declare; atomic memory ordering (the engine is
  single-threaded, and the one flag shared with the signal handler is read where a signal may be
  taken); the installation of the handler and the pointer \<open>g_server\<close> in \<open>main\<close> (a signal that arrives
  before them acts as the platform's default); a \<open>bad_alloc\<close> from \<open>make_unique\<close>; \<open>SIGPIPE\<close>, which ends
  the process on POSIX; the exponent range of \<open>double\<close> and percentages that are not numbers; a
  new-handler that ends the process; the Rust gateway and codec, the clients and the web page, which
  are other programs.
\<close>

end
